(* ===== verification/Folio_Prelude.thy ===== *)
theory Folio_Prelude
  imports Complex_Main "HOL-Library.Char_ord" "HOL-Library.List_Lexorder"
    "HOL-Library.Signed_Division" "HOL-Library.Multiset"
begin

text \<open>
  Shared vocabulary of the development. A TypeScript \<open>string\<close> is a list of
  characters and \<open><\<close> on strings is the lexicographic order on code units (the
  library's \<open>List_Lexorder\<close> over \<open>Char_ord\<close>); a BigInt is an \<open>int\<close>, its \<open>/\<close>
  and \<open>%\<close> truncate towards zero (\<open>sdiv\<close>, \<open>smod\<close>); a thrown error is the left
  side of a sum. The lemmas here are the generic ones the component theories
  share: decimal numerals, splitting and joining of strings, the result monad and
  updates of records held in a list.
\<close>

named_theorems ledger_simps \<open>rewrite rules of the ledger components\<close>

section \<open>Results: the left side is the thrown error\<close>

definition bind_result :: "'e + 'a \<Rightarrow> ('a \<Rightarrow> 'e + 'b) \<Rightarrow> 'e + 'b" where
  "bind_result r f = (case r of Inl e \<Rightarrow> Inl e | Inr a \<Rightarrow> f a)"

lemma bind_result_simps [simp]:
  "bind_result (Inl e) f = Inl e"
  "bind_result (Inr a) f = f a"
  by (simp_all add: bind_result_def)

lemma bind_result_Inr_iff:
  "bind_result r f = Inr b \<longleftrightarrow> (\<exists>a. r = Inr a \<and> f a = Inr b)"
  by (cases r) auto

fun map_result :: "('a \<Rightarrow> 'e + 'b) \<Rightarrow> 'a list \<Rightarrow> 'e + 'b list" where
  "map_result f [] = Inr []"
| "map_result f (x # xs) =
     bind_result (f x) (\<lambda>y. bind_result (map_result f xs) (\<lambda>ys. Inr (y # ys)))"

lemma map_result_Inr_iff:
  "map_result f xs = Inr ys \<longleftrightarrow> list_all2 (\<lambda>x y. f x = Inr y) xs ys"
  by (induction xs arbitrary: ys) (auto simp: bind_result_Inr_iff list_all2_Cons1)

lemma map_result_total:
  assumes "\<And>x. x \<in> set xs \<Longrightarrow> f x = Inr (g x)"
  shows "map_result f xs = Inr (map g xs)"
  using assms by (induction xs) auto

section \<open>Integers\<close>

lemma sdiv_nonneg: "0 \<le> (a::int) \<Longrightarrow> 0 \<le> b \<Longrightarrow> a sdiv b = a div b"
  by (cases "a = 0 \<or> b = 0") (auto simp: signed_divide_int_def sgn_if)

lemma smod_nonneg: "0 \<le> (a::int) \<Longrightarrow> 0 \<le> b \<Longrightarrow> a smod b = a mod b"
  by (cases "a = 0") (auto simp: signed_modulo_int_def sgn_if)

lemma smod_eq: "(a::int) smod b = a - (a sdiv b) * b"
  by (metis add_diff_cancel_left' sdiv_mult_smod_eq)

lemma sdiv_dvd:
  assumes "b \<noteq> 0" "(b::int) dvd a"
  shows "a sdiv b = a div b"
proof -
  from assms(2) obtain k where "a = b * k" ..
  then have "a sdiv b = sgn (b * k) * sgn b * (\<bar>b\<bar> * \<bar>k\<bar> div \<bar>b\<bar>)"
    by (simp add: signed_divide_int_def abs_mult)
  also have "\<dots> = (sgn b * sgn b) * (sgn k * \<bar>k\<bar>)"
    using assms(1) by (simp add: sgn_mult)
  also have "\<dots> = k"
    using assms(1) by (simp add: sgn_mult_abs sgn_if)
  finally show ?thesis using assms(1) \<open>a = b * k\<close> by simp
qed

lemma sdiv_dvd_mult: "(b::int) dvd a \<Longrightarrow> b \<noteq> 0 \<Longrightarrow> (a sdiv b) * b = a"
  by (simp add: sdiv_dvd)

lemma abs_smod_less: "b \<noteq> 0 \<Longrightarrow> \<bar>(a::int) smod b\<bar> < \<bar>b\<bar>"
  by (simp add: signed_modulo_int_def abs_mult sgn_if)

lemma gcd_smod: "gcd (b::int) (a smod b) = gcd a b"
proof -
  have "gcd b (a smod b) = gcd b (a - (a sdiv b) * b)"
    by (simp add: smod_eq)
  also have "\<dots> = gcd b (a + (- (a sdiv b)) * b)"
    by simp
  also have "\<dots> = gcd b a"
    by (metis add.commute gcd_add_mult)
  finally show ?thesis by (simp add: gcd.commute)
qed

section \<open>Decimal numerals\<close>

definition is_digit :: "char \<Rightarrow> bool" where
  "is_digit c \<longleftrightarrow> 48 \<le> (of_char c :: nat) \<and> (of_char c :: nat) \<le> 57"

definition digit_val :: "char \<Rightarrow> nat" where
  "digit_val c = of_char c - 48"

definition digit_char :: "nat \<Rightarrow> char" where
  "digit_char d = char_of (48 + d)"

text \<open>\<open>n.toString()\<close> of a non-negative integer, and of any integer.\<close>

fun nat_str :: "nat \<Rightarrow> string" where
  "nat_str n = (if n < 10 then [digit_char n] else nat_str (n div 10) @ [digit_char (n mod 10)])"

declare nat_str.simps [simp del]

definition int_str :: "int \<Rightarrow> string" where
  "int_str i = (if i < 0 then ''-'' @ nat_str (nat (- i)) else nat_str (nat i))"

text \<open>\<open>BigInt(s)\<close> on a string of digits (0 on the empty string, as in JavaScript).\<close>

definition parse_nat :: "string \<Rightarrow> nat" where
  "parse_nat s = foldl (\<lambda>a c. 10 * a + digit_val c) 0 s"

definition all_digits :: "string \<Rightarrow> bool" where
  "all_digits s \<longleftrightarrow> s \<noteq> [] \<and> list_all is_digit s"

text \<open>\<open>s.padStart(k, '0')\<close>.\<close>

definition pad_zeros :: "nat \<Rightarrow> string \<Rightarrow> string" where
  "pad_zeros k s = replicate (k - length s) CHR ''0'' @ s"

lemma digit_char_props [simp]:
  "d < 10 \<Longrightarrow> is_digit (digit_char d)"
  "d < 10 \<Longrightarrow> digit_val (digit_char d) = d"
  by (simp_all add: is_digit_def digit_val_def digit_char_def)

lemma digit_zero [simp]: "is_digit CHR ''0''" "digit_val CHR ''0'' = 0"
  by (simp_all add: is_digit_def digit_val_def)

lemma digit_char_zero [simp]: "digit_char 0 = CHR ''0''"
  by (simp add: digit_char_def char_of_eq_iff)

lemma digit_char_eq_zero: "d < 10 \<Longrightarrow> digit_char d = CHR ''0'' \<longleftrightarrow> d = 0"
  by (metis digit_char_props(2) digit_char_zero digit_zero(2))

lemma not_digit [simp]: "\<not> is_digit CHR ''-''" "\<not> is_digit CHR ''.''"
  by (simp_all add: is_digit_def)

lemma digit_neq: "is_digit c \<Longrightarrow> c \<noteq> CHR ''-''" "is_digit c \<Longrightarrow> c \<noteq> CHR ''.''"
  by auto

lemma digit_val_less: "is_digit c \<Longrightarrow> digit_val c < 10"
  by (auto simp: is_digit_def digit_val_def)

lemma parse_nat_Nil [simp]: "parse_nat [] = 0"
  by (simp add: parse_nat_def)

lemma parse_nat_snoc: "parse_nat (s @ [c]) = 10 * parse_nat s + digit_val c"
  by (simp add: parse_nat_def)

lemma parse_nat_append: "parse_nat (s @ t) = parse_nat s * 10 ^ length t + parse_nat t"
proof (induction t rule: rev_induct)
  case (snoc c t)
  then show ?case
    unfolding append_assoc [symmetric] parse_nat_snoc by (simp add: algebra_simps)
qed simp

lemma parse_nat_replicate0 [simp]: "parse_nat (replicate k CHR ''0'') = 0"
proof (induction k)
  case (Suc k)
  then show ?case
    by (simp add: parse_nat_snoc replicate_append_same [symmetric])
qed simp

lemma parse_nat_pad_zeros [simp]: "parse_nat (pad_zeros k s) = parse_nat s"
  by (simp add: pad_zeros_def parse_nat_append)

lemma length_pad_zeros: "length s \<le> k \<Longrightarrow> length (pad_zeros k s) = k"
  by (simp add: pad_zeros_def)

lemma parse_nat_less: "list_all is_digit s \<Longrightarrow> parse_nat s < 10 ^ length s"
proof (induction s rule: rev_induct)
  case (snoc c s)
  then have "parse_nat s < 10 ^ length s" and "digit_val c < 10"
    by (auto dest: digit_val_less)
  then show ?case by (simp add: parse_nat_snoc)
qed simp

lemma nat_str_not_Nil [simp]: "nat_str n \<noteq> []"
  by (subst nat_str.simps) simp

lemma digits_nat_str [simp]: "list_all is_digit (nat_str n)"
proof (induction n rule: nat_str.induct)
  case (1 n)
  then show ?case by (subst nat_str.simps) auto
qed

lemma all_digits_nat_str [simp]: "all_digits (nat_str n)"
  by (simp add: all_digits_def)

lemma digits_pad_zeros [simp]: "list_all is_digit (pad_zeros k s) \<longleftrightarrow> list_all is_digit s"
  by (auto simp: pad_zeros_def list_all_iff)

lemma parse_nat_str [simp]: "parse_nat (nat_str n) = n"
proof (induction n rule: nat_str.induct)
  case (1 n)
  show ?case
  proof (cases "n < 10")
    case True
    then show ?thesis by (subst nat_str.simps) (simp add: parse_nat_def)
  next
    case False
    with 1 show ?thesis by (subst nat_str.simps) (simp add: parse_nat_snoc)
  qed
qed

lemma nat_str_inj: "nat_str m = nat_str n \<longleftrightarrow> m = n"
  by (metis parse_nat_str)

lemma length_nat_str_le: "0 < k \<Longrightarrow> n < 10 ^ k \<Longrightarrow> length (nat_str n) \<le> k"
proof (induction n arbitrary: k rule: nat_str.induct)
  case (1 n)
  show ?case
  proof (cases "n < 10")
    case True
    with 1 show ?thesis by (subst nat_str.simps) simp
  next
    case False
    with 1 obtain j where k: "k = Suc j" and "0 < j"
      by (cases k; cases "k - 1") auto
    with 1 have "n div 10 < 10 ^ j" by (simp add: less_mult_imp_div_less)
    with 1 False \<open>0 < j\<close> have "length (nat_str (n div 10)) \<le> j" by blast
    with False k show ?thesis by (subst nat_str.simps) simp
  qed
qed

lemma nat_str_hd: "0 < n \<Longrightarrow> hd (nat_str n) \<noteq> CHR ''0''"
proof (induction n rule: nat_str.induct)
  case (1 n)
  then show ?case
    by (subst nat_str.simps) (auto simp: digit_char_eq_zero)
qed

section \<open>Splitting, joining and trimming strings\<close>

text \<open>\<open>s.split(c)\<close> for a one-character separator, and \<open>xs.join(c)\<close>.\<close>

fun split_on :: "char \<Rightarrow> string \<Rightarrow> string list" where
  "split_on c [] = [[]]"
| "split_on c (x # xs) =
     (if x = c then [] # split_on c xs
      else (case split_on c xs of [] \<Rightarrow> [[x]] | p # ps \<Rightarrow> (x # p) # ps))"

fun join_with :: "string \<Rightarrow> string list \<Rightarrow> string" where
  "join_with sep [] = []"
| "join_with sep [s] = s"
| "join_with sep (s # t # ss) = s @ sep @ join_with sep (t # ss)"

lemma split_on_not_Nil [simp]: "split_on c s \<noteq> []"
  by (induction s) (auto split: list.splits)

lemma split_on_no_sep: "c \<notin> set s \<Longrightarrow> split_on c s = [s]"
  by (induction s) auto

lemma split_on_append_sep: "c \<notin> set s \<Longrightarrow> split_on c (s @ c # t) = s # split_on c t"
  by (induction s) auto

lemma split_on_pieces: "p \<in> set (split_on c s) \<Longrightarrow> c \<notin> set p"
  by (induction s arbitrary: p) (auto split: if_splits list.splits)

lemma join_split_on: "join_with [c] (split_on c s) = s"
proof (induction s)
  case (Cons x s)
  then show ?case by (cases "split_on c s"; cases "tl (split_on c s)") auto
qed simp

lemma split_on_join:
  assumes "ss \<noteq> []" "\<And>s. s \<in> set ss \<Longrightarrow> c \<notin> set s"
  shows "split_on c (join_with [c] ss) = ss"
  using assms
proof (induction "[c]" ss rule: join_with.induct)
  case (3 s t ss)
  then show ?case by (simp add: split_on_append_sep)
qed (auto simp: split_on_no_sep)

text \<open>\<open>s.trim()\<close>: the code points below 256 that JavaScript counts as white space.\<close>

definition is_space :: "char \<Rightarrow> bool" where
  "is_space c \<longleftrightarrow> (of_char c :: nat) \<in> {9, 10, 11, 12, 13, 32, 160}"

definition trim :: "string \<Rightarrow> string" where
  "trim s = rev (dropWhile is_space (rev (dropWhile is_space s)))"

text \<open>
  The names every object inherits, which \<open>k in obj\<close> and \<open>obj[k]\<close> see beside the own keys.
\<close>

definition object_prototype_names :: "string list" where
  "object_prototype_names = [''constructor'', ''hasOwnProperty'', ''isPrototypeOf'',
     ''propertyIsEnumerable'', ''toLocaleString'', ''toString'', ''valueOf'', ''__proto__'',
     ''__defineGetter__'', ''__defineSetter__'', ''__lookupGetter__'', ''__lookupSetter__'']"

section \<open>Array.prototype.sort with a comparator\<close>

text \<open>
  The standard library's sort is stable; with a comparator that is a total preorder the
  result of a stable sort is unique, so any stable sort is a model of it.
\<close>

fun insert_by :: "('a \<Rightarrow> 'a \<Rightarrow> int) \<Rightarrow> 'a \<Rightarrow> 'a list \<Rightarrow> 'a list" where
  "insert_by cmp x [] = [x]"
| "insert_by cmp x (y # ys) = (if cmp x y \<le> 0 then x # y # ys else y # insert_by cmp x ys)"

definition stable_sort :: "('a \<Rightarrow> 'a \<Rightarrow> int) \<Rightarrow> 'a list \<Rightarrow> 'a list" where
  "stable_sort cmp xs = foldr (insert_by cmp) xs []"

lemma set_insert_by [simp]: "set (insert_by cmp x ys) = insert x (set ys)"
  by (induction ys) auto

lemma mset_insert_by [simp]: "mset (insert_by cmp x ys) = add_mset x (mset ys)"
  by (induction ys) auto

lemma mset_stable_sort [simp]: "mset (stable_sort cmp xs) = mset xs"
  by (induction xs) (simp_all add: stable_sort_def)

lemma set_stable_sort [simp]: "set (stable_sort cmp xs) = set xs"
  by (metis mset_stable_sort set_mset_mset)

text \<open>What every comparator passed to \<open>sort\<close> promises, and what the sort then gives.\<close>

locale comparison =
  fixes cmp :: "'a \<Rightarrow> 'a \<Rightarrow> int"
  assumes swap: "0 < cmp x y \<Longrightarrow> cmp y x \<le> 0"
    and trans: "cmp x y \<le> 0 \<Longrightarrow> cmp y z \<le> 0 \<Longrightarrow> cmp x z \<le> 0"
begin

lemma sorted_insert_by:
  "sorted_wrt (\<lambda>x y. cmp x y \<le> 0) ys \<Longrightarrow> sorted_wrt (\<lambda>x y. cmp x y \<le> 0) (insert_by cmp x ys)"
proof (induction ys)
  case (Cons y ys)
  show ?case
  proof (cases "cmp x y \<le> 0")
    case True
    with Cons.prems show ?thesis by (auto intro: trans)
  next
    case False
    then have "cmp y x \<le> 0" using swap [of x y] by simp
    with False Cons show ?thesis by auto
  qed
qed simp

lemma sorted_stable_sort: "sorted_wrt (\<lambda>x y. cmp x y \<le> 0) (stable_sort cmp xs)"
  by (induction xs) (simp_all add: stable_sort_def sorted_insert_by)

end

section \<open>Case-insensitive search\<close>

definition lower_char :: "char \<Rightarrow> char" where
  "lower_char c = (let n = of_char c :: nat in if 65 \<le> n \<and> n \<le> 90 then char_of (n + 32) else c)"

definition contains_text :: "string \<Rightarrow> string \<Rightarrow> bool" where
  "contains_text sub s = list_ex (\<lambda>i. take (length sub) (drop i s) = sub) [0..<Suc (length s)]"

section \<open>Maps in insertion order\<close>

text \<open>\<open>Map.set\<close>: a present key keeps its place.\<close>

fun assoc_set :: "'k \<Rightarrow> 'v \<Rightarrow> ('k \<times> 'v) list \<Rightarrow> ('k \<times> 'v) list" where
  "assoc_set k v [] = [(k, v)]"
| "assoc_set k v ((k', v') # kvs) = (if k' = k then (k, v) # kvs else (k', v') # assoc_set k v kvs)"

lemma map_of_assoc_set: "map_of (assoc_set k v m) k' = (if k' = k then Some v else map_of m k')"
  by (induction m) auto

lemma keys_assoc_set: "set (map fst (assoc_set k v m)) = insert k (set (map fst m))"
proof (induction m)
  case (Cons e m)
  then show ?case by (cases e) (simp add: insert_commute)
qed simp

lemma distinct_assoc_set: "distinct (map fst m) \<Longrightarrow> distinct (map fst (assoc_set k v m))"
proof (induction m)
  case (Cons e m)
  then show ?case using keys_assoc_set [of k v m] by (cases e) auto
qed simp

end
