(* ===== verification/Money_Fractions.thy ===== *)
theory Money_Fractions
  imports Folio_Prelude
begin

text \<open>
  GnuCash amounts are fractions of two integers. This theory holds the exact
  conversions between such fractions and decimal strings: \<open>toDecimal\<close> and
  \<open>powerOfTenExponent\<close> of src/lib/gnucash.ts, and the conversions to integer
  units of a commodity (SCU) of src/lib/reconcile-shared.ts and src/lib/reconcile.ts.
  The abstract reading of a decimal string is \<open>dec_value\<close>, a rational.
\<close>

section \<open>Fractions to decimal strings\<close>

text \<open>
  The loop of \<open>powerOfTenExponent\<close> divides while the last digit is 0; on 0 it would
  never stop, which is the value \<open>None\<close> of the loop.
\<close>

partial_function (option) pow10_loop :: "int \<Rightarrow> nat \<Rightarrow> (int \<times> nat) option" where
  "pow10_loop value exponent =
     (if value smod 10 = 0 then pow10_loop (value sdiv 10) (Suc exponent)
      else Some (value, exponent))"

definition powerOfTenExponent :: "int \<Rightarrow> nat option option" where
  "powerOfTenExponent d =
     map_option (\<lambda>(value, exponent). if value = 1 then Some exponent else None) (pow10_loop d 0)"

definition ARBITRARY_DENOM_SCALE :: nat where
  "ARBITRARY_DENOM_SCALE = 10"

definition ARBITRARY_DENOM_POW :: int where
  "ARBITRARY_DENOM_POW = 10 ^ ARBITRARY_DENOM_SCALE"

definition strip_trailing_zeros :: "string \<Rightarrow> string" where
  "strip_trailing_zeros s = rev (dropWhile (\<lambda>c. c = CHR ''0'') (rev s))"

definition toDecimal :: "int \<Rightarrow> int \<Rightarrow> string option" where
  "toDecimal n rawD =
     (if rawD = 0 then Some ''0''
      else let d = (if rawD < 0 then - rawD else rawD);
               absoluteN = (if n < 0 then - n else n)
      in if absoluteN = 0 then Some ''0''
      else let sign = (if (n < 0) \<noteq> (rawD < 0) then ''-'' else []);
               integerPart = absoluteN sdiv d;
               remainder = absoluteN smod d
      in if remainder = 0 then Some (sign @ int_str integerPart)
      else (case powerOfTenExponent d of
          None \<Rightarrow> None
        | Some (Some exponent) \<Rightarrow>
            Some (sign @ int_str integerPart @ ''.'' @ pad_zeros exponent (int_str remainder))
        | Some None \<Rightarrow>
            (let scaled = (remainder * ARBITRARY_DENOM_POW * 2 + d) sdiv (d * 2)
             in if scaled \<ge> ARBITRARY_DENOM_POW then Some (sign @ int_str (integerPart + 1))
             else let fraction =
                 strip_trailing_zeros (pad_zeros ARBITRARY_DENOM_SCALE (int_str scaled))
             in if fraction = [] then Some (sign @ int_str integerPart)
             else Some (sign @ int_str integerPart @ ''.'' @ fraction))))"

section \<open>Decimal strings to units of a commodity\<close>

text \<open>The test \<open>/^-?\d+(?:\.\d+)?$/\<close> and the parts it leaves.\<close>

definition is_negative :: "string \<Rightarrow> bool" where
  "is_negative raw \<longleftrightarrow> take 1 raw = ''-''"

definition unsigned_part :: "string \<Rightarrow> string" where
  "unsigned_part raw = (if is_negative raw then drop 1 raw else raw)"

definition dec_parts :: "string \<Rightarrow> string \<times> string" where
  "dec_parts raw = (case split_on CHR ''.'' (unsigned_part raw) of
      whole # fraction # _ \<Rightarrow> (whole, fraction) | whole # [] \<Rightarrow> (whole, []) | [] \<Rightarrow> ([], []))"

definition dec_syntax :: "string \<Rightarrow> bool" where
  "dec_syntax raw = (case split_on CHR ''.'' (unsigned_part raw) of
      [whole] \<Rightarrow> all_digits whole
    | [whole, fraction] \<Rightarrow> all_digits whole \<and> all_digits fraction
    | _ \<Rightarrow> False)"

function scu_loop :: "int \<Rightarrow> nat \<Rightarrow> int \<times> nat" where
  "scu_loop value places =
     (if value > 1 \<and> value smod 10 = 0 then scu_loop (value sdiv 10) (Suc places)
      else (value, places))"
  by pat_completeness auto
termination
  by (relation "measure (\<lambda>(value, places). nat value)") (auto simp: sdiv_nonneg)

declare scu_loop.simps [simp del]

definition scu_units :: "string \<Rightarrow> int \<Rightarrow> nat \<Rightarrow> int" where
  "scu_units raw scu places =
     (let (whole, fraction) = dec_parts raw;
          units = int (parse_nat whole) * scu
            + int (parse_nat (take places (fraction @ replicate places CHR ''0'')))
      in if is_negative raw then - units else units)"

definition decimalToScuUnits :: "string \<Rightarrow> int \<Rightarrow> int option" where
  "decimalToScuUnits raw scu =
     (let (value, places) = scu_loop scu 0
      in if value \<noteq> 1 \<or> \<not> dec_syntax raw then None
      else if length (snd (dec_parts raw)) > places then None
      else Some (scu_units raw scu places))"

text \<open>
  \<open>computeDifferenceUnits\<close>: the callers pass numbers as well as strings, which the code
  turns into strings first; the model takes those strings.
\<close>

fun add_selected :: "int \<Rightarrow> string list \<Rightarrow> int \<Rightarrow> int option" where
  "add_selected acc [] scu = Some acc"
| "add_selected acc (amount # rest) scu =
     (case decimalToScuUnits amount scu of
        None \<Rightarrow> None
      | Some units \<Rightarrow> add_selected (acc + units) rest scu)"

definition computeDifferenceUnits :: "string \<Rightarrow> string \<Rightarrow> string list \<Rightarrow> int \<Rightarrow> int option" where
  "computeDifferenceUnits ending reconciled selected scu =
     (case (decimalToScuUnits ending scu, decimalToScuUnits reconciled scu) of
        (Some end_units, Some opening) \<Rightarrow>
          (case add_selected opening selected scu of
             None \<Rightarrow> None | Some acc \<Rightarrow> Some (end_units - acc))
      | _ \<Rightarrow> None)"

text \<open>The server's versions of src/lib/reconcile.ts report the failure.\<close>

datatype unit_error = ScuNotPowerOfTen | NotADecimal | TooManyDecimals nat | NotRepresentable

definition decimalPlacesForScu :: "int \<Rightarrow> unit_error + nat" where
  "decimalPlacesForScu scu =
     (let (value, places) = scu_loop scu 0
      in if value \<noteq> 1 then Inl ScuNotPowerOfTen else Inr places)"

definition decimalToUnits :: "string \<Rightarrow> int \<Rightarrow> unit_error + int" where
  "decimalToUnits raw scu =
     bind_result (decimalPlacesForScu scu) (\<lambda>places.
       if \<not> dec_syntax raw then Inl NotADecimal
       else if length (snd (dec_parts raw)) > places then Inl (TooManyDecimals places)
       else Inr (scu_units raw scu places))"

definition splitToUnits :: "int \<Rightarrow> int \<Rightarrow> int \<Rightarrow> unit_error + int" where
  "splitToUnits num denom scu =
     (let scaled = num * scu
      in if denom = 0 \<or> scaled smod denom \<noteq> 0 then Inl NotRepresentable
      else Inr (scaled sdiv denom))"

section \<open>The value of a decimal string\<close>

definition dec_value :: "string \<Rightarrow> rat" where
  "dec_value raw = (let (whole, fraction) = dec_parts raw;
       v = of_nat (parse_nat whole) + of_nat (parse_nat fraction) / 10 ^ length fraction
     in if is_negative raw then - v else v)"

definition sign_str :: "bool \<Rightarrow> string" where
  "sign_str neg = (if neg then ''-'' else [])"

lemma digits_no_dot: "list_all is_digit w \<Longrightarrow> CHR ''.'' \<notin> set w"
  by (auto simp: list_all_iff)

lemma digits_not_negative: "list_all is_digit w \<Longrightarrow> w \<noteq> [] \<Longrightarrow> \<not> is_negative (w @ t)"
  by (cases w) (auto simp: is_negative_def)

lemma unsigned_sign_str:
  assumes "all_digits w"
  shows "unsigned_part (sign_str neg @ w @ t) = w @ t"
    and "is_negative (sign_str neg @ w @ t) = neg"
  using assms digits_not_negative [of w t]
  by (auto simp: unsigned_part_def sign_str_def is_negative_def all_digits_def)

lemma whole_form:
  assumes "all_digits w"
  shows "is_negative (sign_str neg @ w) = neg"
    and "dec_parts (sign_str neg @ w) = (w, [])"
    and "dec_syntax (sign_str neg @ w)"
  using assms unsigned_sign_str [OF assms, of neg "[]"]
  by (auto simp: dec_parts_def dec_syntax_def split_on_no_sep digits_no_dot all_digits_def)

lemma fraction_form:
  assumes "all_digits w" "all_digits f"
  shows "is_negative (sign_str neg @ w @ ''.'' @ f) = neg"
    and "dec_parts (sign_str neg @ w @ ''.'' @ f) = (w, f)"
    and "dec_syntax (sign_str neg @ w @ ''.'' @ f)"
  using assms unsigned_sign_str [OF assms(1), of neg "''.'' @ f"]
  by (auto simp: dec_parts_def dec_syntax_def split_on_no_sep split_on_append_sep digits_no_dot
      all_digits_def)

lemmas dec_forms = whole_form fraction_form

lemma dec_syntax_cases:
  assumes "dec_syntax raw"
  obtains (whole) w where "all_digits w" "raw = sign_str (is_negative raw) @ w"
    | (fraction) w f where "all_digits w" "all_digits f"
        "raw = sign_str (is_negative raw) @ w @ ''.'' @ f"
proof -
  have raw: "raw = sign_str (is_negative raw) @ unsigned_part raw"
    by (cases raw) (auto simp: sign_str_def unsigned_part_def is_negative_def)
  have joined: "unsigned_part raw = join_with ''.'' (split_on CHR ''.'' (unsigned_part raw))"
    by (simp add: join_split_on)
  from assms consider w where "split_on CHR ''.'' (unsigned_part raw) = [w]" "all_digits w"
    | w f where "split_on CHR ''.'' (unsigned_part raw) = [w, f]" "all_digits w" "all_digits f"
    by (auto simp: dec_syntax_def split: list.splits)
  then show ?thesis
  proof cases
    case (1 w)
    then show ?thesis using that(1) [of w] raw joined by simp
  next
    case (2 w f)
    then show ?thesis using that(2) [of w f] raw joined by simp
  qed
qed

lemma dec_value_whole:
  "all_digits w \<Longrightarrow>
    dec_value (sign_str neg @ w) = (if neg then -1 else 1) * of_nat (parse_nat w)"
  by (simp add: dec_value_def whole_form)

lemma dec_value_fraction:
  assumes "all_digits w" "all_digits f"
  shows "dec_value (sign_str neg @ w @ ''.'' @ f) =
    (if neg then -1 else 1) * (of_nat (parse_nat w) + of_nat (parse_nat f) / 10 ^ length f)"
  using assms by (simp add: dec_value_def fraction_form [simplified])

section \<open>The two loops\<close>

lemma pow10_loop_spec:
  assumes "0 < v"
  shows "\<exists>q k. pow10_loop v e = Some (q, e + k) \<and> v = q * 10 ^ k \<and> \<not> 10 dvd q"
  using assms
proof (induction "nat v" arbitrary: v e rule: less_induct)
  case less
  show ?case
  proof (cases "v smod 10 = 0")
    case True
    with less.prems have dvd: "10 dvd v" and v: "v sdiv 10 = v div 10"
      by (auto simp: smod_nonneg sdiv_nonneg)
    from less.prems dvd have "0 < v div 10" "nat (v div 10) < nat v" by auto
    then obtain q k where "pow10_loop (v div 10) (Suc e) = Some (q, Suc e + k)"
      "v div 10 = q * 10 ^ k" "\<not> 10 dvd q"
      using less.hyps by blast
    with True v dvd show ?thesis
      by (intro exI [of _ q] exI [of _ "Suc k"]) (auto simp: pow10_loop.simps [of v e] mult.assoc
          [symmetric] elim!: dvdE)
  next
    case False
    with less.prems have "\<not> 10 dvd v" by (auto simp: smod_nonneg dvd_eq_mod_eq_0)
    with False show ?thesis
      by (intro exI [of _ v] exI [of _ 0]) (simp add: pow10_loop.simps [of v e])
  qed
qed

lemma power_times_eq_power:
  assumes "q * 10 ^ k = (10::int) ^ p" "\<not> 10 dvd q"
  shows "q = 1 \<and> k = p"
proof -
  have kp: "p \<le> k"
  proof (rule ccontr)
    assume "\<not> p \<le> k"
    then obtain j where "p = k + Suc j" by (metis less_iff_Suc_add not_le_imp_less add_Suc_right)
    with assms(1) have "10 ^ k * q = 10 ^ k * (10 * 10 ^ j)" by (simp add: power_add mult_ac)
    then have "q = 10 * 10 ^ j" by simp
    with assms(2) show False by simp
  qed
  then obtain j where "k = p + j" using le_Suc_ex by blast
  with assms(1) have "10 ^ p * (q * 10 ^ j) = 10 ^ p * 1" by (simp add: power_add mult_ac)
  then have "q * 10 ^ j = 1" by simp
  then have "(10::int) ^ j dvd 1" by (metis dvd_triv_right)
  then have "j = 0" using one_less_power [of "10::int" j] by (cases "j = 0") auto
  with \<open>q * 10 ^ j = 1\<close> \<open>k = p + j\<close> show ?thesis by simp
qed

lemma powerOfTenExponent_Some:
  assumes "0 < d"
  obtains r where "powerOfTenExponent d = Some r" "\<And>p. r = Some p \<longleftrightarrow> d = 10 ^ p"
proof -
  from pow10_loop_spec [OF assms, of 0] obtain q k where
    l: "pow10_loop d 0 = Some (q, k)" "d = q * 10 ^ k" "\<not> 10 dvd q" by auto
  have "(if q = 1 then Some k else None) = Some p \<longleftrightarrow> d = 10 ^ p" for p
    using l(2,3) power_times_eq_power [of q k p] by auto
  with l(1) show ?thesis by (intro that) (auto simp: powerOfTenExponent_def)
qed

lemma scu_loop_spec:
  assumes "0 < v"
  shows "\<exists>q k. scu_loop v e = (q, e + k) \<and> v = q * 10 ^ k \<and> \<not> 10 dvd q"
  using assms
proof (induction v e rule: scu_loop.induct)
  case (1 v e)
  show ?case
  proof (cases "v > 1 \<and> v smod 10 = 0")
    case True
    then have dvd: "10 dvd v" and v: "v sdiv 10 = v div 10"
      by (auto simp: smod_nonneg sdiv_nonneg)
    with True have "0 < v div 10" by auto
    with "1.IH" [OF True] v obtain q k where "scu_loop (v div 10) (Suc e) = (q, Suc e + k)"
      "v div 10 = q * 10 ^ k" "\<not> 10 dvd q"
      by auto
    with True v dvd show ?thesis
      by (intro exI [of _ q] exI [of _ "Suc k"]) (auto simp: scu_loop.simps [of v e] mult.assoc
          [symmetric] elim!: dvdE)
  next
    case False
    with "1.prems" have "\<not> 10 dvd v"
      by (auto simp: smod_nonneg dvd_eq_mod_eq_0 not_less dest!: antisym)
    with False show ?thesis
      by (intro exI [of _ v] exI [of _ 0]) (auto simp: scu_loop.simps [of v e])
  qed
qed

lemma scu_loop_power: "scu_loop (10 ^ p) 0 = (1, p)"
proof -
  have "(0::int) < 10 ^ p" by simp
  from scu_loop_spec [OF this, of 0] obtain q k where
    l: "scu_loop (10 ^ p) 0 = (q, 0 + k)" "10 ^ p = q * 10 ^ k" "\<not> 10 dvd q" by blast
  from power_times_eq_power [OF l(2) [symmetric] l(3)] l(1) show ?thesis by simp
qed

lemma scu_loop_one:
  assumes "scu_loop v 0 = (1, p)"
  shows "v = 10 ^ p"
proof (cases "0 < v")
  case True
  with assms scu_loop_spec [of v 0] show ?thesis by auto
next
  case False
  with assms show ?thesis by (simp add: scu_loop.simps [of v 0])
qed

section \<open>What the decimal string says\<close>

lemma strip_trailing_zeros_append:
  obtains k where "s = strip_trailing_zeros s @ replicate k CHR ''0''"
proof -
  let ?z = "\<lambda>c. c = CHR ''0''"
  have "s = rev (dropWhile ?z (rev s)) @ rev (takeWhile ?z (rev s))"
    by (metis rev_append rev_rev_ident takeWhile_dropWhile_id)
  moreover have "rev (takeWhile ?z (rev s)) = replicate (length (takeWhile ?z (rev s))) CHR ''0''"
    by (rule replicate_eqI) (auto dest: set_takeWhileD)
  ultimately show ?thesis using that by (simp add: strip_trailing_zeros_def)
qed

lemma strip_value:
  "(of_nat (parse_nat (strip_trailing_zeros s)) / 10 ^ length (strip_trailing_zeros s) :: rat) =
    of_nat (parse_nat s) / 10 ^ length s"
proof -
  obtain k where k: "s = strip_trailing_zeros s @ replicate k CHR ''0''"
    by (rule strip_trailing_zeros_append)
  let ?t = "strip_trailing_zeros s"
  have "parse_nat s = parse_nat ?t * 10 ^ k" "length s = length ?t + k"
    by (subst (1) k, simp add: parse_nat_append) (subst (1) k, simp)
  then show ?thesis by (simp add: power_add)
qed

lemma strip_digits: "list_all is_digit s \<Longrightarrow> list_all is_digit (strip_trailing_zeros s)"
  by (metis list_all_append strip_trailing_zeros_append)

lemma int_str_nonneg: "0 \<le> i \<Longrightarrow> int_str i = nat_str (nat i)"
  by (simp add: int_str_def)

text \<open>Half-up rounding to a grid of \<open>1/P\<close> moves a fraction by at most half a step.\<close>

lemma half_up_bounds:
  fixes r d P :: int
  assumes "0 < r" "r < d" "0 < P" and q: "q = (r * P * 2 + d) div (d * 2)"
  shows "0 \<le> q" "q \<le> P" "\<bar>of_int q / of_int P - of_int r / of_int d\<bar> \<le> (1 / (2 * of_int P) :: rat)"
proof -
  from assms have d: "0 < d" by simp
  let ?m = "(r * P * 2 + d) mod (d * 2)"
  have m: "0 \<le> ?m" "?m < d * 2" using d by auto
  have e: "r * P * 2 + d = q * (d * 2) + ?m" unfolding q by (rule div_mult_mod_eq [symmetric])
  show "0 \<le> q" using assms d by (simp add: pos_imp_zdiv_nonneg_iff)
  have "r * P \<le> d * P" using assms by simp
  then have "r * P * 2 + d < (P + 1) * (d * 2)" using d by (simp add: algebra_simps)
  then have "q * (d * 2) < (P + 1) * (d * 2)" using e m by linarith
  then have "q < P + 1" using d by (simp add: mult_less_cancel_right)
  then show "q \<le> P" by simp
  have "\<bar>2 * (q * d - r * P)\<bar> \<le> d" using e m by (simp add: algebra_simps abs_le_iff)
  then have b: "\<bar>of_int (2 * (q * d - r * P))\<bar> \<le> (of_int d :: rat)"
    by (metis of_int_abs of_int_le_iff)
  have "of_int q / of_int P - of_int r / of_int d =
      (of_int (2 * (q * d - r * P)) / (2 * of_int d * of_int P) :: rat)"
    using d assms(3) by (simp add: field_simps)
  also have "\<bar>\<dots>\<bar> = \<bar>of_int (2 * (q * d - r * P))\<bar> / (2 * of_int d * of_int P)"
    using d assms(3) by (simp only: abs_divide) (simp add: abs_mult)
  also have "\<dots> \<le> of_int d / (2 * of_int d * of_int P)"
    using b d assms(3) by (intro divide_right_mono) simp_all
  also have "\<dots> = 1 / (2 * of_int P)" using d by simp
  finally show "\<bar>of_int q / of_int P - of_int r / of_int d\<bar> \<le> (1 / (2 * of_int P) :: rat)" .
qed

lemma fraction_split:
  fixes a d :: int
  assumes "0 < d"
  shows "(of_int a / of_int d :: rat) = of_int (a div d) + of_int (a mod d) / of_int d"
proof -
  have "(of_int a :: rat) = of_int (a div d) * of_int d + of_int (a mod d)"
    by (metis div_mult_mod_eq of_int_add of_int_mult)
  with assms show ?thesis by (simp add: field_simps)
qed

lemma signed_fraction:
  fixes n d :: int
  assumes "d \<noteq> 0"
  shows "(of_int n / of_int d :: rat) =
    (if (n < 0) \<noteq> (d < 0) then -1 else 1) * (of_int \<bar>n\<bar> / of_int \<bar>d\<bar>)"
  using assms by auto


text \<open>
  The four shapes of the result, for a non-zero fraction: exact integer, exact decimal
  of a power-of-ten denominator, and the rounded quotient of any other denominator.
\<close>

lemma toDecimal_nonzero:
  fixes n rawD :: int
  assumes "rawD \<noteq> 0" "n \<noteq> 0"
  defines "a \<equiv> \<bar>n\<bar>" and "d \<equiv> \<bar>rawD\<bar>" and "neg \<equiv> (n < 0) \<noteq> (rawD < 0)"
  defines "w \<equiv> nat_str (nat (a div d))" and "r \<equiv> a mod d"
  defines "q \<equiv> (r * ARBITRARY_DENOM_POW * 2 + d) div (d * 2)"
  obtains (whole) "r = 0" "toDecimal n rawD = Some (sign_str neg @ w)"
  | (power) e where "r \<noteq> 0" "d = 10 ^ e"
      "toDecimal n rawD = Some (sign_str neg @ w @ ''.'' @ pad_zeros e (nat_str (nat r)))"
  | (carry) "r \<noteq> 0" "\<forall>e. d \<noteq> 10 ^ e" "ARBITRARY_DENOM_POW \<le> q"
      "toDecimal n rawD = Some (sign_str neg @ nat_str (nat (a div d + 1)))"
  | (rounded) f where "r \<noteq> 0" "\<forall>e. d \<noteq> 10 ^ e" "q < ARBITRARY_DENOM_POW"
      "f = strip_trailing_zeros (pad_zeros ARBITRARY_DENOM_SCALE (nat_str (nat q)))"
      "toDecimal n rawD = Some (sign_str neg @ w @ (if f = [] then [] else ''.'' @ f))"
proof -
  have d: "0 < d" and a: "0 < a" and r: "0 \<le> r" using assms by simp_all
  have q: "0 \<le> q" unfolding q_def using d r
    by (simp add: pos_imp_zdiv_nonneg_iff ARBITRARY_DENOM_POW_def)
  have norm: "(if rawD < 0 then - rawD else rawD) = d" "(if n < 0 then - n else n) = a"
    by (simp_all add: d_def a_def)
  have qs: "(r * ARBITRARY_DENOM_POW * 2 + d) sdiv (d * 2) = q"
    unfolding q_def using d r by (simp add: sdiv_nonneg ARBITRARY_DENOM_POW_def)
  from powerOfTenExponent_Some [OF d] obtain p where
    p: "powerOfTenExponent d = Some p" "\<And>e. p = Some e \<longleftrightarrow> d = 10 ^ e" by blast
  have strs: "int_str (a div d) = w" "int_str r = nat_str (nat r)" "int_str q = nat_str (nat q)"
    "int_str (a div d + 1) = nat_str (nat (a div d + 1))"
    using a d r q by (simp_all add: int_str_nonneg w_def pos_imp_zdiv_nonneg_iff add_nonneg_nonneg)
  have eq: "toDecimal n rawD =
      (if r = 0 then Some (sign_str neg @ w)
       else (case p of
           Some e \<Rightarrow> Some (sign_str neg @ w @ ''.'' @ pad_zeros e (nat_str (nat r)))
         | None \<Rightarrow> if ARBITRARY_DENOM_POW \<le> q
             then Some (sign_str neg @ nat_str (nat (a div d + 1)))
             else let f = strip_trailing_zeros (pad_zeros ARBITRARY_DENOM_SCALE (nat_str (nat q)))
               in Some (sign_str neg @ w @ (if f = [] then [] else ''.'' @ f))))"
    using assms(1,2) a d
    by (simp add: toDecimal_def Let_def norm qs strs p(1) sign_str_def neg_def sdiv_nonneg
        smod_nonneg r_def [symmetric] split: option.split)
  show thesis
  proof (cases "r = 0")
    case True
    with eq show thesis by (intro whole) simp_all
  next
    case False
    show thesis
    proof (cases p)
      case (Some e)
      with False eq p(2) [of e] show thesis by (intro power [of e]) simp_all
    next
      case None
      with p(2) have "\<forall>e. d \<noteq> 10 ^ e" by auto
      with False eq None show thesis
        by (cases "ARBITRARY_DENOM_POW \<le> q") (auto simp: Let_def intro: carry rounded)
    qed
  qed
qed


lemma nat_str_pad:
  assumes "0 \<le> i" "i < 10 ^ k" "0 < k"
  shows "all_digits (pad_zeros k (nat_str (nat i)))"
    and "length (pad_zeros k (nat_str (nat i))) = k"
    and "(of_nat (parse_nat (pad_zeros k (nat_str (nat i)))) :: rat) = of_int i"
proof -
  from assms have "nat i < 10 ^ k" by (simp add: nat_less_iff)
  with assms(3) show l: "length (pad_zeros k (nat_str (nat i))) = k"
    by (simp add: length_pad_zeros length_nat_str_le)
  with assms(3) show "all_digits (pad_zeros k (nat_str (nat i)))"
    by (auto simp: all_digits_def)
  show "(of_nat (parse_nat (pad_zeros k (nat_str (nat i)))) :: rat) = of_int i"
    using assms(1) by simp
qed

lemma toDecimal_exact:
  assumes "\<bar>d\<bar> = 10 ^ p"
  shows "\<exists>s. toDecimal n d = Some s \<and> dec_syntax s \<and> dec_value s = of_int n / of_int d
    \<and> length (snd (dec_parts s)) \<le> p"
proof (cases "n = 0")
  case True
  have "dec_syntax ''0''" "dec_value ''0'' = 0" "dec_parts ''0'' = (''0'', [])"
    using dec_forms(1-3) [of "''0''" False] dec_value_whole [of "''0''" False]
    by (simp_all add: all_digits_def sign_str_def parse_nat_def)
  with True show ?thesis by (simp add: toDecimal_def)
next
  case False
  have d: "d \<noteq> 0" "0 < \<bar>d\<bar>" using assms by auto
  let ?w = "nat_str (nat (\<bar>n\<bar> div \<bar>d\<bar>))" and ?neg = "(n < 0) \<noteq> (d < 0)"
  have w: "of_nat (parse_nat ?w) = (of_int (\<bar>n\<bar> div \<bar>d\<bar>) :: rat)"
    using d by (simp add: pos_imp_zdiv_nonneg_iff)
  note frac = signed_fraction [OF d(1), of n] fraction_split [OF d(2), of "\<bar>n\<bar>"]
  show ?thesis
  proof (cases rule: toDecimal_nonzero [OF d(1) False, case_names whole power carry rounded])
    case whole
    have "dec_value (sign_str ?neg @ ?w) = of_int n / of_int d"
      unfolding dec_value_whole [OF all_digits_nat_str] frac w whole(1) by simp
    with whole(2) show ?thesis by (simp add: whole_form)
  next
    case (power e)
    have e: "e = p" using power(2) assms by simp
    have p: "0 < p"
    proof (rule ccontr)
      assume "\<not> 0 < p"
      with assms have "\<bar>d\<bar> = 1" by simp
      then have "\<bar>n\<bar> mod \<bar>d\<bar> = 0" by (simp only:) simp
      with power(1) show False by contradiction
    qed
    have r: "0 \<le> \<bar>n\<bar> mod \<bar>d\<bar>" "\<bar>n\<bar> mod \<bar>d\<bar> < 10 ^ p"
      using d(2) by (simp_all only: assms [symmetric] pos_mod_sign pos_mod_bound)
    note pad = nat_str_pad [OF r p]
    let ?f = "pad_zeros p (nat_str (nat (\<bar>n\<bar> mod \<bar>d\<bar>)))"
    have dp: "of_int \<bar>d\<bar> = (10::rat) ^ p" by (simp only: assms) simp
    have "dec_value (sign_str ?neg @ ?w @ ''.'' @ ?f) = of_int n / of_int d"
      unfolding dec_value_fraction [OF all_digits_nat_str pad(1)] frac w pad(2,3)
      unfolding dp ..
    with power(3) e show ?thesis
      using fraction_form [OF all_digits_nat_str pad(1)] pad(2)
      by (intro exI [of _ "sign_str ?neg @ ?w @ ''.'' @ ?f"]) simp
  qed (use assms in auto)
qed


lemma toDecimal_rounded:
  assumes "d \<noteq> 0"
  shows "\<exists>s. toDecimal n d = Some s \<and> dec_syntax s
    \<and> \<bar>dec_value s - of_int n / of_int d\<bar> \<le> 1 / (2 * 10 ^ ARBITRARY_DENOM_SCALE)"
proof (cases "\<exists>p. \<bar>d\<bar> = 10 ^ p \<or> n = 0")
  case True
  then obtain p where "\<bar>d\<bar> = 10 ^ p \<or> n = 0" by blast
  then show ?thesis
  proof
    assume "\<bar>d\<bar> = 10 ^ p"
    from toDecimal_exact [OF this, of n] obtain s where
      "toDecimal n d = Some s" "dec_syntax s" "dec_value s = of_int n / of_int d" by blast
    then show ?thesis by (intro exI [of _ s]) (simp only: diff_self abs_zero, simp)
  next
    assume "n = 0"
    with assms toDecimal_exact [of 1 0 0] show ?thesis by (auto simp: toDecimal_def)
  qed
next
  case False
  then have n: "n \<noteq> 0" and np: "\<And>p. \<bar>d\<bar> \<noteq> 10 ^ p" by auto
  have d: "0 < \<bar>d\<bar>" using assms by simp
  let ?a = "\<bar>n\<bar>" and ?d = "\<bar>d\<bar>" and ?neg = "(n < 0) \<noteq> (d < 0)"
  let ?w = "nat_str (nat (?a div ?d))" and ?r = "?a mod ?d"
  let ?q = "(?r * ARBITRARY_DENOM_POW * 2 + ?d) div (?d * 2)"
  let ?P = "of_int ARBITRARY_DENOM_POW :: rat"
  have P: "0 < ARBITRARY_DENOM_POW" "?P = 10 ^ ARBITRARY_DENOM_SCALE"
    by (simp_all add: ARBITRARY_DENOM_POW_def)
  have w: "of_nat (parse_nat ?w) = (of_int (?a div ?d) :: rat)"
    using d by (simp add: pos_imp_zdiv_nonneg_iff)
  note frac = signed_fraction [OF assms, of n] fraction_split [OF d, of ?a]
  have close: "\<bar>(if ?neg then -1 else 1) * (of_int (?a div ?d) + x) - of_int n / of_int d\<bar>
      = \<bar>x - of_int ?r / of_int ?d\<bar>" for x :: rat
    unfolding frac by (simp add: abs_minus_commute)
  note cases = toDecimal_nonzero [OF assms n, case_names whole power carry rounded]
  show ?thesis
  proof (cases rule: cases)
    case whole
    have "dec_value (sign_str ?neg @ ?w) = of_int n / of_int d"
      unfolding dec_value_whole [OF all_digits_nat_str] frac w whole(1) by simp
    with whole(2) show ?thesis by (simp add: whole_form)
  next
    case (power e)
    with np [of e] show ?thesis by blast
  next
    case carry
    have r: "0 < ?r" "?r < ?d" using carry(1) d
      by (simp_all add: less_le [of 0] pos_mod_sign pos_mod_bound eq_commute [of 0])
    note q = half_up_bounds [OF r P(1) refl]
    from carry(3) q(2) have "?q = ARBITRARY_DENOM_POW" by simp
    then have "(1::rat) = of_int ?q / ?P" using P(1) by simp
    with q(3) have near: "\<bar>1 - of_int ?r / of_int ?d\<bar> \<le> (1 / (2 * ?P) :: rat)" by simp
    have "dec_value (sign_str ?neg @ nat_str (nat (?a div ?d + 1))) =
        (if ?neg then -1 else 1) * (of_int (?a div ?d) + 1)"
      using d by (simp add: dec_value_whole pos_imp_zdiv_nonneg_iff)
    with close [of 1] near have "\<bar>dec_value (sign_str ?neg @ nat_str (nat (?a div ?d + 1)))
        - of_int n / of_int d\<bar> \<le> 1 / (2 * 10 ^ ARBITRARY_DENOM_SCALE)"
      unfolding P(2) by (simp only:)
    with carry(4) whole_form(3) [OF all_digits_nat_str] show ?thesis by blast
  next
    case (rounded f)
    have r: "0 < ?r" "?r < ?d" using rounded(1) d
      by (simp_all add: less_le [of 0] pos_mod_sign pos_mod_bound eq_commute [of 0])
    note q = half_up_bounds [OF r P(1) refl]
    have q10: "?q < 10 ^ ARBITRARY_DENOM_SCALE" "0 < ARBITRARY_DENOM_SCALE"
      using rounded(3) by (simp_all add: ARBITRARY_DENOM_POW_def ARBITRARY_DENOM_SCALE_def)
    note pad = nat_str_pad [OF q(1) q10]
    have f: "of_nat (parse_nat f) / 10 ^ length f = of_int ?q / ?P"
      unfolding rounded(4) strip_value pad(2,3) P(2) ..
    have fd: "list_all is_digit f"
      using pad(1) unfolding rounded(4) by (auto simp: all_digits_def intro: strip_digits)
    let ?s = "sign_str ?neg @ ?w @ (if f = [] then [] else ''.'' @ f)"
    have "dec_syntax ?s \<and> dec_value ?s =
        (if ?neg then -1 else 1) * (of_int (?a div ?d) + of_int ?q / ?P)"
    proof (cases "f = []")
      case True
      then have "of_int ?q / ?P = 0" using f by simp
      with True w show ?thesis by (simp add: whole_form dec_value_whole)
    next
      case nonempty: False
      with fd have "all_digits f" by (simp add: all_digits_def)
      note dec_value_fraction [OF all_digits_nat_str this] fraction_form [OF all_digits_nat_str this]
      with nonempty f w show ?thesis by simp
    qed
    then have "dec_syntax ?s" "\<bar>dec_value ?s - of_int n / of_int d\<bar>
        \<le> 1 / (2 * 10 ^ ARBITRARY_DENOM_SCALE)"
      using close [of "of_int ?q / ?P"] q(3) unfolding P(2) by (simp_all only:)
    with rounded(5) show ?thesis by blast
  qed
qed

section \<open>Units of a commodity\<close>

lemma parse_take_pad:
  assumes "length f \<le> p"
  shows "parse_nat (take p (f @ replicate p CHR ''0'')) = parse_nat f * 10 ^ (p - length f)"
  using assms by (simp add: parse_nat_append min_def)

lemma scu_units_value:
  assumes "length (snd (dec_parts s)) \<le> p"
  shows "(of_int (scu_units s (10 ^ p) p) :: rat) = dec_value s * 10 ^ p"
proof -
  obtain w f where wf: "dec_parts s = (w, f)" by fastforce
  with assms have "(10::rat) ^ p = 10 ^ length f * 10 ^ (p - length f)"
    by (simp flip: power_add)
  then have "(of_nat (parse_nat f) / 10 ^ length f) * 10 ^ p
      = (of_nat (parse_nat f * 10 ^ (p - length f)) :: rat)"
    by simp
  with wf assms show ?thesis
    by (simp add: scu_units_def dec_value_def Let_def parse_nat_append algebra_simps)
qed

lemma decimalToScuUnits_Some_iff:
  "decimalToScuUnits s scu = Some u \<longleftrightarrow>
     (\<exists>p. scu = 10 ^ p \<and> dec_syntax s \<and> length (snd (dec_parts s)) \<le> p
        \<and> u = scu_units s scu p)"
proof -
  obtain v p where l: "scu_loop scu 0 = (v, p)" by fastforce
  show ?thesis
  proof (cases "v = 1")
    case True
    with l have "scu = 10 ^ p" by (simp add: scu_loop_one)
    then have "scu = 10 ^ q \<longleftrightarrow> q = p" for q by auto
    with l True show ?thesis by (auto simp: decimalToScuUnits_def)
  next
    case False
    with l have "scu \<noteq> 10 ^ q" for q by (auto simp: scu_loop_power)
    with l False show ?thesis by (auto simp: decimalToScuUnits_def)
  qed
qed

lemma decimalToScuUnits_value:
  assumes "decimalToScuUnits s scu = Some u"
  shows "0 < scu" "dec_value s = of_int u / of_int scu"
proof -
  from assms obtain p where p: "scu = 10 ^ p" "length (snd (dec_parts s)) \<le> p"
    "u = scu_units s scu p"
    by (auto simp: decimalToScuUnits_Some_iff)
  then show "0 < scu" "dec_value s = of_int u / of_int scu"
    using scu_units_value [OF p(2)] by simp_all
qed

lemma splitToUnits_Inr_iff:
  "splitToUnits num denom scu = Inr u \<longleftrightarrow> denom \<noteq> 0 \<and> num * scu = u * denom"
proof (cases "denom = 0")
  case False
  have "(num * scu) smod denom = 0 \<longleftrightarrow> denom dvd num * scu"
  proof
    assume "(num * scu) smod denom = 0"
    then have "num * scu = ((num * scu) sdiv denom) * denom" by (simp add: smod_eq)
    then show "denom dvd num * scu" by (metis dvd_triv_right)
  next
    assume "denom dvd num * scu"
    with False show "(num * scu) smod denom = 0" by (simp add: smod_eq sdiv_dvd)
  qed
  with False show ?thesis
    by (auto simp: splitToUnits_def Let_def sdiv_dvd)
qed (simp add: splitToUnits_def Let_def)

lemma add_selected_Some:
  "add_selected acc xs scu = Some t \<longleftrightarrow>
    (\<exists>us. list_all2 (\<lambda>x u. decimalToScuUnits x scu = Some u) xs us \<and> t = acc + sum_list us)"
  by (induction xs arbitrary: acc)
    (auto simp: list_all2_Cons1 add.assoc split: option.splits)

text \<open>
  C38. A fraction with a power-of-ten denominator, printed by \<open>toDecimal\<close> and read back by
  \<open>decimalToScuUnits\<close>, gives its numerator again.
\<close>

theorem toDecimal_scu_roundtrip:
  "\<exists>s. toDecimal n (10 ^ p) = Some s \<and> decimalToScuUnits s (10 ^ p) = Some n"
proof -
  obtain s where s: "toDecimal n (10 ^ p) = Some s" "dec_syntax s"
    "dec_value s = of_int n / of_int (10 ^ p)" "length (snd (dec_parts s)) \<le> p"
    using toDecimal_exact [of "10 ^ p" p n] by auto
  then have "(of_int (scu_units s (10 ^ p) p) :: rat) = of_int n"
    by (simp add: scu_units_value)
  then have "scu_units s (10 ^ p) p = n" by (simp only: of_int_eq_iff)
  with s have "decimalToScuUnits s (10 ^ p) = Some n"
    by (auto simp: decimalToScuUnits_Some_iff)
  with s(1) show ?thesis by blast
qed

text \<open>
  C19. For every non-zero denominator \<open>toDecimal\<close> returns a well-formed decimal within half a
  unit of the tenth decimal place of the fraction.
\<close>

theorem toDecimal_half_step:
  assumes "d \<noteq> 0"
  shows "\<exists>s. toDecimal n d = Some s \<and> dec_syntax s
    \<and> \<bar>dec_value s - of_int n / of_int d\<bar> \<le> 1 / (2 * 10 ^ ARBITRARY_DENOM_SCALE)"
  by (rule toDecimal_rounded [OF assms])

theorem toDecimal_half_step_witness:
  "\<exists>s. toDecimal (-5) 8 = Some s \<and> dec_syntax s
    \<and> \<bar>dec_value s - of_int (-5) / of_int 8\<bar> \<le> 1 / (2 * 10 ^ ARBITRARY_DENOM_SCALE)"
  by (rule toDecimal_half_step) simp

text \<open>
  The difference the reconcile window shows is exact: when it is computed at all, it is
  the ending balance less the reconciled balance and the ticked amounts, in units.
\<close>

theorem computeDifferenceUnits_exact:
  assumes "computeDifferenceUnits ending reconciled selected scu = Some k"
  shows "of_int k / of_int scu
    = dec_value ending - (dec_value reconciled + sum_list (map dec_value selected))"
proof -
  from assms obtain e opn us where
    e: "decimalToScuUnits ending scu = Some e" and opn: "decimalToScuUnits reconciled scu = Some opn"
    and us: "list_all2 (\<lambda>x u. decimalToScuUnits x scu = Some u) selected us"
    and k: "k = e - (opn + sum_list us)"
    by (auto simp: computeDifferenceUnits_def add_selected_Some split: option.splits)
  have "sum_list (map dec_value selected) = of_int (sum_list us) / of_int scu"
    using us by (induction selected us rule: list_all2_induct)
      (auto dest: decimalToScuUnits_value simp: add_divide_distrib)
  then show ?thesis
    by (simp add: k decimalToScuUnits_value [OF e] decimalToScuUnits_value [OF opn]
        diff_divide_distrib add_divide_distrib)
qed

theorem computeDifferenceUnits_exact_witness:
  "of_int (-25) / of_int 100
    = dec_value ''10.00'' - (dec_value ''8.5'' + sum_list (map dec_value [''2.75'', ''-1'']))"
  by (rule computeDifferenceUnits_exact) code_simp

lemma decimalToUnits_Inr_iff: "decimalToUnits s scu = Inr u \<longleftrightarrow> decimalToScuUnits s scu = Some u"
  by (auto simp: decimalToUnits_def decimalToScuUnits_def decimalPlacesForScu_def
      bind_result_Inr_iff split: prod.splits)

text \<open>
  The browser's conversion and the server's are the same function: one yields units
  exactly when the other does, and the same units.
\<close>

theorem client_server_units_agree:
  "decimalToUnits s scu = Inr u \<longleftrightarrow> decimalToScuUnits s scu = Some u"
  by (rule decimalToUnits_Inr_iff)

end
