(* ===== verification/Js_Number.thy ===== *)
theory Js_Number
  imports Folio_Prelude "HOL-Library.Log_Nat"
begin

text \<open>
  The JavaScript \<open>number\<close>: a finite double is the rational it denotes, beside the two
  infinities and NaN; the two zeros are one value, since no modelled code tells them
  apart. Every arithmetic operation is the exact rational operation followed by \<open>fl\<close>,
  the rounding of IEEE 754 binary64 (to nearest, ties to even, gradual underflow,
  overflow to infinity).
\<close>

datatype js_number = JNaN | JPosInf | JNegInf | JFin rat

definition pow2 :: "int \<Rightarrow> rat" where
  "pow2 e = (if 0 \<le> e then 2 ^ nat e else 1 / 2 ^ nat (- e))"

text \<open>The exponent \<open>e\<close> with \<open>2\<^sup>e \<le> x < 2\<^sup>e\<^sup>+\<^sup>1\<close>, for positive \<open>x\<close>.\<close>

definition floor_log2 :: "rat \<Rightarrow> int" where
  "floor_log2 x = (let (n, d) = quotient_of x; e = bitlen n - bitlen d
     in if pow2 e \<le> x then e else e - 1)"

definition round_half_even :: "rat \<Rightarrow> int" where
  "round_half_even x = (let f = \<lfloor>x\<rfloor>; r = x - of_int f
     in if r < 1/2 then f else if r > 1/2 then f + 1 else if even f then f else f + 1)"

definition round_to_grid :: "int \<Rightarrow> rat \<Rightarrow> rat" where
  "round_to_grid e x = of_int (round_half_even (x / pow2 e)) * pow2 e"

definition fl :: "rat \<Rightarrow> js_number" where
  "fl x = (if x = 0 then JFin 0
     else let v = round_to_grid (max (floor_log2 \<bar>x\<bar> - 52) (- 1074)) x
     in if v \<ge> pow2 1024 then JPosInf else if v \<le> - pow2 1024 then JNegInf else JFin v)"

section \<open>Arithmetic and comparison\<close>

fun js_neg :: "js_number \<Rightarrow> js_number" where
  "js_neg JNaN = JNaN"
| "js_neg JPosInf = JNegInf"
| "js_neg JNegInf = JPosInf"
| "js_neg (JFin x) = JFin (- x)"

fun js_abs :: "js_number \<Rightarrow> js_number" where
  "js_abs JNaN = JNaN"
| "js_abs (JFin x) = JFin \<bar>x\<bar>"
| "js_abs _ = JPosInf"

fun js_add :: "js_number \<Rightarrow> js_number \<Rightarrow> js_number" where
  "js_add (JFin x) (JFin y) = fl (x + y)"
| "js_add (JFin x) y = y"
| "js_add x (JFin y) = x"
| "js_add JPosInf JPosInf = JPosInf"
| "js_add JNegInf JNegInf = JNegInf"
| "js_add _ _ = JNaN"

definition js_sub :: "js_number \<Rightarrow> js_number \<Rightarrow> js_number" where
  "js_sub x y = js_add x (js_neg y)"

text \<open>The sign of a number as an element of \<open>{-1, 0, 1}\<close>; NaN has none.\<close>

fun js_sgn :: "js_number \<Rightarrow> rat" where
  "js_sgn (JFin x) = sgn x"
| "js_sgn JPosInf = 1"
| "js_sgn JNegInf = -1"
| "js_sgn JNaN = 0"

definition signed_inf :: "rat \<Rightarrow> js_number" where
  "signed_inf s = (if s > 0 then JPosInf else if s < 0 then JNegInf else JNaN)"

fun js_mul :: "js_number \<Rightarrow> js_number \<Rightarrow> js_number" where
  "js_mul (JFin x) (JFin y) = fl (x * y)"
| "js_mul JNaN y = JNaN"
| "js_mul x JNaN = JNaN"
| "js_mul x y = signed_inf (js_sgn x * js_sgn y)"

text \<open>
  A zero divisor yields an infinity with the sign of the dividend (the sign of the zero is
  not modelled), \<open>0/0\<close> and \<open>\<infinity>/\<infinity>\<close> yield NaN.
\<close>

fun js_div :: "js_number \<Rightarrow> js_number \<Rightarrow> js_number" where
  "js_div (JFin x) (JFin y) = (if y = 0 then signed_inf (sgn x) else fl (x / y))"
| "js_div JNaN y = JNaN"
| "js_div x JNaN = JNaN"
| "js_div (JFin x) y = JFin 0"
| "js_div x (JFin y) = signed_inf (js_sgn x * (if y < 0 then -1 else 1))"
| "js_div _ _ = JNaN"

fun js_less :: "js_number \<Rightarrow> js_number \<Rightarrow> bool" where
  "js_less (JFin x) (JFin y) \<longleftrightarrow> x < y"
| "js_less JNegInf y \<longleftrightarrow> y \<noteq> JNaN \<and> y \<noteq> JNegInf"
| "js_less x JPosInf \<longleftrightarrow> x \<noteq> JNaN \<and> x \<noteq> JPosInf"
| "js_less _ _ \<longleftrightarrow> False"

definition js_eq :: "js_number \<Rightarrow> js_number \<Rightarrow> bool" where
  "js_eq x y \<longleftrightarrow> x = y \<and> x \<noteq> JNaN"

definition js_ge :: "js_number \<Rightarrow> js_number \<Rightarrow> bool" where
  "js_ge x y \<longleftrightarrow> js_less y x \<or> js_eq x y"

definition js_min :: "js_number \<Rightarrow> js_number \<Rightarrow> js_number" where
  "js_min x y = (if x = JNaN \<or> y = JNaN then JNaN else if js_less y x then y else x)"

definition js_max :: "js_number \<Rightarrow> js_number \<Rightarrow> js_number" where
  "js_max x y = (if x = JNaN \<or> y = JNaN then JNaN else if js_less x y then y else x)"

definition is_finite :: "js_number \<Rightarrow> bool" where
  "is_finite x \<longleftrightarrow> (case x of JFin _ \<Rightarrow> True | _ \<Rightarrow> False)"

text \<open>\<open>Math.round\<close>: to the nearest integer, halves towards \<open>+\<infinity>\<close>.\<close>

fun js_round :: "js_number \<Rightarrow> js_number" where
  "js_round (JFin x) = JFin (of_int \<lfloor>x + 1/2\<rfloor>)"
| "js_round x = x"

definition is_safe_integer :: "js_number \<Rightarrow> bool" where
  "is_safe_integer x \<longleftrightarrow> (case x of
      JFin q \<Rightarrow> q = of_int \<lfloor>q\<rfloor> \<and> \<bar>q\<bar> \<le> 2 ^ 53 - 1 | _ \<Rightarrow> False)"

lemma fl_not_NaN [simp]: "fl x \<noteq> JNaN"
  by (simp add: fl_def Let_def)

section \<open>Integers up to 2^53 are exact\<close>

lemma pow2_pos [simp]: "0 < pow2 e"
  by (simp add: pow2_def)

lemma pow2_nonzero [simp]: "pow2 e \<noteq> 0"
  using pow2_pos [of e] by linarith

lemma round_half_even_int [simp]: "round_half_even (of_int n) = n"
  by (simp add: round_half_even_def)

lemma round_to_grid_exact: "x = of_int k * pow2 e \<Longrightarrow> round_to_grid e x = x"
  by (simp add: round_to_grid_def)

lemma floor_log2_int:
  assumes "0 < n"
  shows "floor_log2 (of_int n) = bitlen n - 1"
proof -
  have q: "quotient_of (of_int n) = (n, 1)" by (simp add: quotient_of_int)
  have one: "bitlen 1 = 1" by (simp add: compute_bitlen)
  have "(of_int (2 ^ nat (bitlen n - 1)) :: rat) \<le> of_int n"
    using assms bitlen_bounds [of n] by (simp only: of_int_le_iff)
  moreover have "1 \<le> bitlen n" using assms by (simp add: bitlen_ge_iff_power)
  ultimately have "pow2 (bitlen n - 1) \<le> of_int n" by (simp add: pow2_def)
  then show ?thesis using q one by (simp add: floor_log2_def Let_def)
qed

lemma fl_int:
  assumes "\<bar>n\<bar> \<le> 2 ^ 53"
  shows "fl (of_int n) = JFin (of_int n)"
proof (cases "n = 0")
  case True
  then show ?thesis by (simp add: fl_def)
next
  case False
  let ?b = "bitlen \<bar>n\<bar>"
  define e where "e = max (?b - 1 - 52) (- 1074)"
  have log: "floor_log2 \<bar>of_int n\<bar> = ?b - 1"
    using False floor_log2_int [of "\<bar>n\<bar>"] by (simp add: of_int_abs)
  have b54: "?b \<le> 54" using assms by (simp add: bitlen_le_iff_power)
  have "round_to_grid e (of_int n) = of_int n"
  proof (cases "e \<le> 0")
    case True
    then have "of_int n = (of_int (n * 2 ^ nat (- e)) :: rat) * pow2 e"
      by (auto simp: pow2_def)
    then show ?thesis by (rule round_to_grid_exact)
  next
    case e: False
    with b54 have "e = 1" and "?b = 54" by (auto simp: e_def)
    then have "2 ^ 53 \<le> \<bar>n\<bar>" using False bitlen_bounds [of "\<bar>n\<bar>"] by simp
    with assms have "\<bar>n\<bar> = 2 ^ 53" by simp
    then consider "n = 2 ^ 52 * 2" | "n = - (2 ^ 52) * 2" by (auto simp: abs_if split: if_splits)
    then have "\<exists>k. of_int n = (of_int k :: rat) * pow2 e"
      using \<open>e = 1\<close> by cases (auto simp: pow2_def intro: exI [of _ "2 ^ 52"] exI [of _ "- (2 ^ 52)"])
    then show ?thesis by (auto intro: round_to_grid_exact)
  qed
  moreover have "\<bar>of_int n\<bar> < pow2 1024"
  proof -
    have "(of_int \<bar>n\<bar> :: rat) \<le> of_int (2 ^ 53)" using assms by (simp only: of_int_le_iff)
    also have "\<dots> < 2 ^ nat 1024" by (simp add: power_strict_increasing)
    finally show ?thesis by (simp add: pow2_def)
  qed
  ultimately show ?thesis using False log by (auto simp: fl_def e_def Let_def abs_less_iff)
qed

text \<open>Additions and subtractions of integers that stay within that bound are exact.\<close>

lemma js_add_int:
  "\<bar>m + n\<bar> \<le> 2 ^ 53 \<Longrightarrow> js_add (JFin (of_int m)) (JFin (of_int n)) = JFin (of_int (m + n))"
  using fl_int [of "m + n"] by simp

section \<open>The rounding error of one operation\<close>

lemma pow2_nonneg [simp]: "0 \<le> pow2 e" "\<bar>pow2 e\<bar> = pow2 e"
  using less_imp_le [OF pow2_pos [of e]] by simp_all

lemma pow2_powi: "pow2 e = (2::rat) powi e"
  by (auto simp: pow2_def power_int_def power_one_over)

lemma pow2_add: "pow2 (a + b) = pow2 a * pow2 b"
  by (simp add: pow2_powi power_int_add)

lemma pow2_mono: "a \<le> b \<Longrightarrow> pow2 a \<le> pow2 b"
  by (simp add: pow2_powi power_int_increasing)

lemma pow2_nat: "pow2 (int n) = 2 ^ n"
  by (simp add: pow2_def)

lemma round_half_even_error: "\<bar>of_int (round_half_even x) - x\<bar> \<le> 1 / 2"
proof -
  have "of_int \<lfloor>x\<rfloor> \<le> x" "x < of_int \<lfloor>x\<rfloor> + 1" by linarith+
  then show ?thesis by (auto simp: round_half_even_def Let_def abs_le_iff)
qed

lemma round_to_grid_error: "\<bar>round_to_grid e x - x\<bar> \<le> pow2 e / 2"
proof -
  have "round_to_grid e x - x = (of_int (round_half_even (x / pow2 e)) - x / pow2 e) * pow2 e"
    by (simp add: round_to_grid_def left_diff_distrib)
  then have "\<bar>round_to_grid e x - x\<bar> = \<bar>of_int (round_half_even (x / pow2 e)) - x / pow2 e\<bar> * pow2 e"
    by (simp add: abs_mult)
  also have "\<dots> \<le> 1 / 2 * pow2 e" using round_half_even_error by (intro mult_right_mono) auto
  finally show ?thesis by simp
qed

lemma floor_log2_le:
  assumes "0 < x"
  shows "pow2 (floor_log2 x) \<le> x"
proof -
  obtain n d where q: "quotient_of x = (n, d)" by fastforce
  then have d: "0 < d" and x: "x = of_int n / of_int d"
    using quotient_of_denom_pos quotient_of_div by blast+
  have n: "0 < n" using assms d by (simp add: x zero_less_divide_iff)
  define e where "e = bitlen n - bitlen d"
  have bn: "1 \<le> bitlen n" and bd: "1 \<le> bitlen d" using n d by (simp_all add: bitlen_ge_iff_power)
  have "2 ^ nat (bitlen n - 1) \<le> n" using n bitlen_bounds [of n] by simp
  then have low: "pow2 (bitlen n - 1) \<le> of_int n"
    using bn by (simp add: pow2_def)
  have "d < 2 ^ nat (bitlen d)" using d bitlen_bounds [of d] by simp
  then have high: "of_int d < pow2 (bitlen d)"
    using bd by (simp add: pow2_def)
  have "pow2 (e - 1) * of_int d \<le> pow2 (e - 1) * pow2 (bitlen d)"
    using high by (intro mult_left_mono) auto
  also have "\<dots> = pow2 (bitlen n - 1)" by (simp add: pow2_add [symmetric] e_def)
  finally have "pow2 (e - 1) * of_int d \<le> of_int n" using low by linarith
  then have "pow2 (e - 1) \<le> x" using d by (simp add: x pos_le_divide_eq)
  then show ?thesis using q by (simp add: floor_log2_def Let_def e_def)
qed

text \<open>The unit roundoff and half the smallest positive double.\<close>

definition ulp_half :: rat where
  "ulp_half = pow2 (-53)"

definition tiny :: rat where
  "tiny = pow2 (-1075)"

lemma fl_error:
  assumes "\<bar>x\<bar> \<le> pow2 1022"
  shows "\<exists>y. fl x = JFin y \<and> \<bar>y - x\<bar> \<le> ulp_half * \<bar>x\<bar> + tiny"
proof (cases "x = 0")
  case True
  then show ?thesis by (simp add: fl_def tiny_def less_imp_le)
next
  case False
  define e where "e = max (floor_log2 \<bar>x\<bar> - 52) (- 1074)"
  define v where "v = round_to_grid e x"
  have "pow2 e \<le> pow2 (floor_log2 \<bar>x\<bar> - 52) + pow2 (-1074)"
    unfolding e_def by (cases "floor_log2 \<bar>x\<bar> - 52 \<le> - 1074") (simp_all add: max_def less_imp_le)
  moreover have "pow2 (floor_log2 \<bar>x\<bar> - 52) = pow2 (floor_log2 \<bar>x\<bar>) * pow2 (-52)" by (simp add: pow2_add [symmetric])
  moreover have "pow2 (floor_log2 \<bar>x\<bar>) * pow2 (-52) \<le> \<bar>x\<bar> * pow2 (-52)"
    using False by (intro mult_right_mono floor_log2_le) auto
  ultimately have e: "pow2 e \<le> \<bar>x\<bar> * pow2 (-52) + pow2 (-1074)" by linarith
  have half: "pow2 (-52) = 2 * ulp_half" "pow2 (-1074) = 2 * tiny"
    using pow2_add [of 1 "-53"] pow2_add [of 1 "-1075"] by (simp_all add: ulp_half_def tiny_def pow2_def)
  have err: "\<bar>v - x\<bar> \<le> ulp_half * \<bar>x\<bar> + tiny"
    using round_to_grid_error [of e x] e unfolding v_def half by (simp add: algebra_simps)
  have small: "ulp_half \<le> 1 / 4" "tiny \<le> 1 / 4" "0 < ulp_half" by (simp_all add: ulp_half_def tiny_def pow2_def)
  have "ulp_half * \<bar>x\<bar> \<le> 1 / 4 * \<bar>x\<bar>" using small by (intro mult_right_mono) auto
  with err small have "\<bar>v\<bar> \<le> 2 * \<bar>x\<bar> + 1" by linarith
  moreover have "pow2 1024 = 4 * pow2 1022" using pow2_add [of 2 1022] by (simp add: pow2_def)
  moreover have "1 < pow2 1022" using pow2_mono [of 1 1022] by (simp add: pow2_def)
  ultimately have "\<bar>v\<bar> < pow2 1024" using assms by linarith
  then have "fl x = JFin v" using False by (simp add: fl_def Let_def v_def e_def [symmetric] abs_less_iff) 
  then show ?thesis using err by blast
qed

section \<open>Sums of quotients\<close>

lemma roundoff_bounds: "0 < ulp_half" "ulp_half \<le> 1 / 2 ^ 53" "0 < tiny" "tiny \<le> 1 / 2 ^ 100"
proof -
  show "0 < ulp_half" "0 < tiny" "ulp_half \<le> 1 / 2 ^ 53" by (simp_all add: ulp_half_def tiny_def, simp add: pow2_def)
  have "tiny \<le> pow2 (- 100)" unfolding tiny_def by (rule pow2_mono) simp
  then show "tiny \<le> 1 / 2 ^ 100" by (simp add: pow2_def)
qed

lemma in_range: "\<bar>x\<bar> \<le> 2 ^ 60 \<Longrightarrow> \<bar>x\<bar> \<le> pow2 1022"
proof -
  have "pow2 60 \<le> pow2 1022" by (rule pow2_mono) simp
  then show "\<bar>x\<bar> \<le> 2 ^ 60 \<Longrightarrow> \<bar>x\<bar> \<le> pow2 1022" by (simp add: pow2_def [of 60])
qed

text \<open>One addition of a rounded term to a running sum with error \<open>E\<close>.\<close>

lemma sum_step:
  fixes u t E S w x s y q y' :: rat
  assumes "\<bar>y - s\<bar> \<le> E" "\<bar>q - x\<bar> \<le> u * \<bar>x\<bar> + t" "\<bar>y' - (y + q)\<bar> \<le> u * \<bar>y + q\<bar> + t"
    and "\<bar>s\<bar> + \<bar>x\<bar> \<le> S" "w = u * S + t" "u * E \<le> w / 8" "0 < u" "u \<le> 1 / 8" "0 < t"
  shows "\<bar>y' - (s + x)\<bar> \<le> E + 4 * w"
proof -
  have ux: "u * \<bar>x\<bar> \<le> u * S" using assms(4,7) by (intro mult_left_mono) auto
  have "u * \<bar>x\<bar> + t \<le> w" using ux assms(5) by simp
  then have "u * (u * \<bar>x\<bar> + t) \<le> 1 / 8 * w" using assms(7,8,9) by (intro mult_mono) auto
  then have uq: "u * (u * \<bar>x\<bar> + t) \<le> w / 8" by simp
  have "\<bar>y + q\<bar> \<le> E + S + (u * \<bar>x\<bar> + t)" using assms(1,2,4) by linarith
  then have "u * \<bar>y + q\<bar> \<le> u * (E + S + (u * \<bar>x\<bar> + t))" using assms(7) by (intro mult_left_mono) auto
  also have "\<dots> = u * E + u * S + u * (u * \<bar>x\<bar> + t)" by (simp add: distrib_left)
  finally have "u * \<bar>y + q\<bar> \<le> w / 8 + u * S + w / 8" using assms(6) uq by linarith
  then show ?thesis using assms(1,2,3,5,9) ux by linarith
qed

definition quotients :: "int \<Rightarrow> int list \<Rightarrow> js_number list" where
  "quotients d ns = map (\<lambda>n. js_div (JFin (of_int n)) (JFin (of_int d))) ns"

lemma float_sum:
  assumes "length ns \<le> 1024" "0 < d" "sum_list (map abs ns) \<le> 2 ^ 38"
  shows "\<exists>y. foldl js_add (JFin 0) (quotients d ns) = JFin y \<and>
    \<bar>y - of_int (sum_list ns) / of_int d\<bar>
      \<le> of_nat (length ns) * (4 * (ulp_half * (of_int (sum_list (map abs ns)) / of_int d) + tiny))"
proof -
  have "\<exists>y. foldl js_add (JFin 0) (quotients d ns) = JFin y \<and>
      \<bar>y - of_int (sum_list ns) / of_int d\<bar> \<le> of_nat (length ns) * (4 * (ulp_half * S + tiny))"
    if "length ns \<le> 1024" "of_int (sum_list (map abs ns)) / of_int d \<le> S" "S \<le> 2 ^ 38" for S ns
    using that
  proof (induction ns rule: rev_induct)
    case Nil
    then show ?case by (simp add: quotients_def)
  next
    case (snoc n ns)
    define x :: rat where "x = of_int n / of_int d"
    define s :: rat where "s = of_int (sum_list ns) / of_int d"
    define w where "w = ulp_half * S + tiny"
    define E where "E = of_nat (length ns) * (4 * w)"
    have d1: "(1::rat) \<le> of_int d" using assms(2) by simp
    have split: "of_int (sum_list (map abs (ns @ [n]))) / of_int d = of_int (sum_list (map abs ns)) / of_int d + \<bar>x\<bar>"
      using assms(2) by (simp add: x_def add_divide_distrib of_int_abs)
    have abs_s: "\<bar>s\<bar> \<le> of_int (sum_list (map abs ns)) / of_int d"
    proof -
      have "\<bar>sum_list ns\<bar> \<le> sum_list (map abs ns)" by (rule sum_list_abs)
      then have "\<bar>of_int (sum_list ns) :: rat\<bar> \<le> of_int (sum_list (map abs ns))" by (metis of_int_abs of_int_le_iff)
      then show ?thesis using assms(2) by (simp add: s_def divide_right_mono)
    qed
    have sx: "\<bar>s\<bar> + \<bar>x\<bar> \<le> S" using abs_s split snoc.prems(2) by linarith
    obtain y where y: "foldl js_add (JFin 0) (quotients d ns) = JFin y" "\<bar>y - s\<bar> \<le> E"
    proof -
      have "length ns \<le> 1024" "of_int (sum_list (map abs ns)) / of_int d \<le> S"
        using snoc.prems(1,2) split by simp_all
      from snoc.IH [OF this snoc.prems(3)] show ?thesis using that by (auto simp: s_def E_def w_def)
    qed
    have uS: "ulp_half * S \<le> 1 / 2 ^ 53 * 2 ^ 38"
      using roundoff_bounds snoc.prems(3) sx by (intro mult_mono) auto
    then have w: "0 < w" "w \<le> 1" using roundoff_bounds sx
      by (auto simp: w_def intro!: add_nonneg_pos mult_nonneg_nonneg)
    have E: "E \<le> 1024 * (4 * w)" unfolding E_def using snoc.prems(1) w(1) by (intro mult_right_mono) auto
    have "ulp_half * E \<le> 1 / 2 ^ 53 * (1024 * (4 * w))"
      using roundoff_bounds E w(1) by (intro mult_mono) (auto simp: E_def)
    then have uE: "ulp_half * E \<le> w / 8" using w(1) by simp
    obtain q where q: "js_div (JFin (of_int n)) (JFin (of_int d)) = JFin q" "\<bar>q - x\<bar> \<le> ulp_half * \<bar>x\<bar> + tiny"
    proof -
      have "\<bar>x\<bar> \<le> 2 ^ 60" using sx snoc.prems(3) by simp
      from fl_error [OF in_range [OF this]] obtain q where "fl x = JFin q" "\<bar>q - x\<bar> \<le> ulp_half * \<bar>x\<bar> + tiny" by blast
      then show ?thesis using that [of q] assms(2) by (simp add: x_def)
    qed
    have "ulp_half * \<bar>x\<bar> \<le> 1 / 2 ^ 53 * 2 ^ 38"
      using roundoff_bounds snoc.prems(3) sx by (intro mult_mono) auto
    then have "ulp_half * \<bar>x\<bar> \<le> 1" "tiny \<le> 1" "S \<le> 274877906944" using roundoff_bounds snoc.prems(3) by simp_all
    then have "\<bar>y + q\<bar> \<le> 1152921504606846976" using y(2) q(2) sx E w(2) by linarith
    then have "\<bar>y + q\<bar> \<le> 2 ^ 60" by simp
    then obtain y' where y': "fl (y + q) = JFin y'" "\<bar>y' - (y + q)\<bar> \<le> ulp_half * \<bar>y + q\<bar> + tiny"
      using fl_error [OF in_range] by blast
    have "\<bar>y' - (s + x)\<bar> \<le> E + 4 * w"
      using sum_step [OF y(2) q(2) y'(2) sx w_def uE] roundoff_bounds by simp
    moreover have "s + x = of_int (sum_list (ns @ [n])) / of_int d" by (simp add: s_def x_def add_divide_distrib)
    moreover have "E + 4 * w = of_nat (length (ns @ [n])) * (4 * w)" by (simp add: E_def algebra_simps)
    ultimately show ?case using y(1) q(1) y'(1) by (auto simp: quotients_def w_def)
  qed
  moreover have "of_int (sum_list (map abs ns)) / of_int d \<le> (2 ^ 38 :: rat)"
  proof -
    have "(of_int (sum_list (map abs ns)) :: rat) \<le> of_int (2 ^ 38)" using assms(3) by (simp only: of_int_le_iff)
    moreover have "0 \<le> sum_list (map abs ns)" by (rule sum_list_nonneg) auto
    then have "(0::rat) \<le> of_int (sum_list (map abs ns))" by (simp only: of_int_0_le_iff)
    moreover have "(1::rat) \<le> of_int d" using assms(2) by simp
    ultimately show ?thesis by (simp add: divide_le_eq mult_le_cancel_left1)  
  qed
  ultimately show ?thesis using assms(1) by blast
qed

text \<open>Scaled back by the denominator and rounded, the sum is the exact integer.\<close>

lemma round_near_int:
  fixes y :: rat
  assumes "\<bar>y * of_int d - of_int n\<bar> \<le> 1 / 4" "\<bar>n\<bar> \<le> 2 ^ 38"
  shows "js_round (js_mul (JFin y) (JFin (of_int d))) = JFin (of_int n)"
proof -
  have n: "\<bar>of_int n :: rat\<bar> \<le> 274877906944"
    using of_int_le_iff [of "\<bar>n\<bar>" "274877906944", where ?'a = rat] assms(2) by simp
  then have yd: "\<bar>y * of_int d\<bar> \<le> 274877906945" using assms(1) by linarith
  then obtain z where z: "fl (y * of_int d) = JFin z" "\<bar>z - y * of_int d\<bar> \<le> ulp_half * \<bar>y * of_int d\<bar> + tiny"
    using fl_error [OF in_range, of "y * of_int d"] by auto
  have "ulp_half * \<bar>y * of_int d\<bar> \<le> 1 / 2 ^ 53 * 274877906945"
    using roundoff_bounds yd by (intro mult_mono) auto
  then have "ulp_half * \<bar>y * of_int d\<bar> \<le> 1 / 8" by simp
  moreover have tiny_quarter: "tiny < 1 / 8" using roundoff_bounds by simp
  ultimately have "\<bar>z - of_int n\<bar> < 1 / 2" using z(2) assms(1) tiny_quarter by linarith
  then have "\<lfloor>z + 1 / 2\<rfloor> = n" by linarith
  then show ?thesis using z(1) by simp
qed

lemma float_sum_tight:
  assumes "length ns \<le> 1024" "0 < d" "d \<le> 2 ^ 38" "sum_list (map abs ns) \<le> 2 ^ 38"
  shows "\<exists>y. foldl js_add (JFin 0) (quotients d ns) = JFin y \<and> \<bar>y * of_int d - of_int (sum_list ns)\<bar> \<le> 1 / 8 + 1 / 2 ^ 20"
proof -
  let ?a = "of_int (sum_list (map abs ns)) :: rat" and ?m = "of_nat (length ns) :: rat"
  obtain y where y: "foldl js_add (JFin 0) (quotients d ns) = JFin y"
    "\<bar>y - of_int (sum_list ns) / of_int d\<bar> \<le> ?m * (4 * (ulp_half * (?a / of_int d) + tiny))"
    using float_sum [OF assms(1,2,4)] by blast
  have d: "(0::rat) < of_int d" using assms(2) by simp
  have dle: "(of_int d :: rat) \<le> 274877906944"
    using of_int_le_iff [of d "274877906944", where ?'a = rat] assms(3) by simp
  have ale: "?a \<le> 274877906944"
    using of_int_le_iff [of "sum_list (map abs ns)" "274877906944", where ?'a = rat] assms(4) by simp
  have "0 \<le> sum_list (map abs ns)" by (rule sum_list_nonneg) auto
  then have a0: "0 \<le> ?a" by (simp only: of_int_0_le_iff)
  have "\<bar>y * of_int d - of_int (sum_list ns)\<bar> = \<bar>y - of_int (sum_list ns) / of_int d\<bar> * of_int d"
  proof -
    have "y * of_int d - of_int (sum_list ns) = (y - of_int (sum_list ns) / of_int d) * of_int d"
      using d by (simp add: left_diff_distrib)
    then show ?thesis using d by (simp only: abs_mult abs_of_pos)
  qed
  also have "\<dots> \<le> ?m * (4 * (ulp_half * (?a / of_int d) + tiny)) * of_int d"
    using y(2) d by (intro mult_right_mono) auto
  also have "\<dots> = ?m * (4 * (ulp_half * ?a + tiny * of_int d))" using d by (simp add: field_simps)
  also have "\<dots> \<le> 1024 * (4 * (1 / 2 ^ 53 * 274877906944 + 1 / 2 ^ 100 * 274877906944))"
    using assms(1) a0 d ale dle roundoff_bounds by (intro mult_mono add_mono add_nonneg_nonneg mult_nonneg_nonneg) auto
  also have "\<dots> \<le> 1 / 8 + 1 / 2 ^ 20" by simp
  finally show ?thesis using y(1) by blast
qed

lemma float_sum_scaled:
  assumes "length ns \<le> 1024" "0 < d" "d \<le> 2 ^ 38" "sum_list (map abs ns) \<le> 2 ^ 38"
  shows "\<exists>y. foldl js_add (JFin 0) (quotients d ns) = JFin y \<and> \<bar>y * of_int d - of_int (sum_list ns)\<bar> \<le> 1 / 4"
proof -
  have "(1 / 8 + 1 / 2 ^ 20 :: rat) \<le> 1 / 4" by simp
  then show ?thesis using float_sum_tight [OF assms] by (blast intro: order_trans)
qed

lemma abs_sum_le: "sum_list (map abs ns) \<le> b \<Longrightarrow> \<bar>sum_list ns\<bar> \<le> b" for ns :: "int list"
  using sum_list_abs [of ns] by linarith

lemma float_sum_round:
  assumes "length ns \<le> 1024" "0 < d" "d \<le> 2 ^ 38" "sum_list (map abs ns) \<le> 2 ^ 38"
  shows "js_round (js_mul (foldl js_add (JFin 0) (quotients d ns)) (JFin (of_int d))) = JFin (of_int (sum_list ns))"
    and "js_round (js_mul (js_neg (foldl js_add (JFin 0) (quotients d ns))) (JFin (of_int d))) = JFin (of_int (- sum_list ns))"
proof -
  obtain y where y: "foldl js_add (JFin 0) (quotients d ns) = JFin y" "\<bar>y * of_int d - of_int (sum_list ns)\<bar> \<le> 1 / 4"
    using float_sum_scaled [OF assms] by blast
  have b: "\<bar>sum_list ns\<bar> \<le> 2 ^ 38" by (rule abs_sum_le [OF assms(4)])
  from round_near_int [OF y(2) b] show "js_round (js_mul (foldl js_add (JFin 0) (quotients d ns)) (JFin (of_int d))) = JFin (of_int (sum_list ns))"
    unfolding y(1) .
  have "\<bar>- y * of_int d - of_int (- sum_list ns)\<bar> \<le> 1 / 4" using y(2) by (simp add: abs_minus_commute)
  from round_near_int [OF this] b
  show "js_round (js_mul (js_neg (foldl js_add (JFin 0) (quotients d ns))) (JFin (of_int d))) = JFin (of_int (- sum_list ns))"
    unfolding y(1) js_neg.simps by simp
qed

section \<open>Amounts in units of a fraction\<close>

text \<open>The double of \<open>k\<close> units of \<open>1/d\<close>, and the doubles within \<open>e\<close> units of it.\<close>

definition money :: "int \<Rightarrow> int \<Rightarrow> js_number" where
  "money d k = js_div (JFin (of_int k)) (JFin (of_int d))"

definition near :: "int \<Rightarrow> rat \<Rightarrow> js_number \<Rightarrow> int \<Rightarrow> bool" where
  "near d e x k \<longleftrightarrow> (\<exists>q. x = JFin q \<and> \<bar>q * of_int d - of_int k\<bar> \<le> e)"

text \<open>One rounded operation on amounts below \<open>2\<^sup>4\<^sup>1\<close> units moves them by less than a thousandth of a unit.\<close>

lemma fl_near:
  assumes d: "0 < d" "d \<le> 2 ^ 38" and x: "\<bar>x * of_int d\<bar> \<le> 2 ^ 41"
  shows "\<exists>y. fl x = JFin y \<and> \<bar>y * of_int d - x * of_int d\<bar> \<le> 1 / 2 ^ 10"
proof -
  have d1: "(1::rat) \<le> of_int d" "(of_int d :: rat) \<le> 2 ^ 38"
    using d of_int_le_iff [of 1 d, where ?'a = rat] of_int_le_iff [of d "2 ^ 38", where ?'a = rat] by simp_all
  have "\<bar>x\<bar> * 1 \<le> \<bar>x\<bar> * of_int d" using d1 by (intro mult_left_mono) auto
  then have "\<bar>x\<bar> \<le> 2 ^ 60" using x d1(1) by (simp add: abs_mult)
  from fl_error [OF in_range [OF this]] obtain y where y: "fl x = JFin y" "\<bar>y - x\<bar> \<le> ulp_half * \<bar>x\<bar> + tiny" by blast
  have "\<bar>y * of_int d - x * of_int d\<bar> = \<bar>y - x\<bar> * of_int d"
    using d1(1) by (simp add: left_diff_distrib [symmetric] abs_mult)
  also have "\<dots> \<le> (ulp_half * \<bar>x\<bar> + tiny) * of_int d" using y(2) d1(1) by (intro mult_right_mono) auto
  also have "\<dots> = ulp_half * \<bar>x * of_int d\<bar> + tiny * of_int d" using d1(1) by (simp add: algebra_simps abs_mult)
  also have "\<dots> \<le> 1 / 2 ^ 53 * 2 ^ 41 + 1 / 2 ^ 100 * 2 ^ 38"
    using roundoff_bounds x d1 by (intro add_mono mult_mono) auto
  also have "\<dots> \<le> 1 / 2 ^ 10" by simp
  finally show ?thesis using y(1) by blast
qed

lemma near_money:
  assumes "0 < d" "d \<le> 2 ^ 38" "\<bar>k\<bar> \<le> 2 ^ 40"
  shows "near d (1 / 2 ^ 10) (money d k) k"
proof -
  have "\<bar>of_int k :: rat\<bar> \<le> 2 ^ 40" using of_int_le_iff [of "\<bar>k\<bar>" "2 ^ 40", where ?'a = rat] assms(3) by simp
  then show ?thesis using fl_near [OF assms(1,2), of "of_int k / of_int d"] assms(1)
    by (auto simp: near_def money_def)
qed

lemma near_mono: "near d e x k \<Longrightarrow> e \<le> f \<Longrightarrow> near d f x k"
  by (auto simp: near_def)

lemma near_neg: "near d e x k \<Longrightarrow> near d e (js_neg x) (- k)"
  by (auto simp: near_def abs_minus_commute) 

lemma near_add:
  assumes "0 < d" "d \<le> 2 ^ 38" "near d e x a" "near d f y b" "e \<le> 1" "f \<le> 1" "\<bar>a\<bar> \<le> 2 ^ 39" "\<bar>b\<bar> \<le> 2 ^ 39"
  shows "near d (e + f + 1 / 2 ^ 10) (js_add x y) (a + b)"
proof -
  obtain q r where q: "x = JFin q" "\<bar>q * of_int d - of_int a\<bar> \<le> e" and r: "y = JFin r" "\<bar>r * of_int d - of_int b\<bar> \<le> f"
    using assms(3,4) by (auto simp: near_def)
  have ab: "\<bar>of_int a :: rat\<bar> \<le> 2 ^ 39" "\<bar>of_int b :: rat\<bar> \<le> 2 ^ 39"
    using of_int_le_iff [of "\<bar>a\<bar>" "2 ^ 39", where ?'a = rat] of_int_le_iff [of "\<bar>b\<bar>" "2 ^ 39", where ?'a = rat] assms(7,8)
    by simp_all
  have e: "(q + r) * of_int d = q * of_int d + r * of_int d" by (simp add: distrib_right)
  have "\<bar>(q + r) * of_int d\<bar> \<le> 2 ^ 41" unfolding e using q(2) r(2) ab assms(5,6) by simp
  from fl_near [OF assms(1,2) this] obtain z where "fl (q + r) = JFin z" "\<bar>z * of_int d - (q + r) * of_int d\<bar> \<le> 1 / 2 ^ 10" by blast
  moreover from this(2) have "\<bar>z * of_int d - of_int (a + b)\<bar> \<le> e + f + 1 / 2 ^ 10"
    unfolding e of_int_add using q(2) r(2) by linarith
  ultimately show ?thesis using q r by (auto simp: near_def)
qed

lemma near_sub:
  assumes "0 < d" "d \<le> 2 ^ 38" "near d e x a" "near d f y b" "e \<le> 1" "f \<le> 1" "\<bar>a\<bar> \<le> 2 ^ 39" "\<bar>b\<bar> \<le> 2 ^ 39"
  shows "near d (e + f + 1 / 2 ^ 10) (js_sub x y) (a - b)"
  using near_add [OF assms(1-3) near_neg [OF assms(4)] assms(5,6,7)] assms(8) by (simp add: js_sub_def)

lemma near_sum:
  assumes "0 < d" "d \<le> 2 ^ 38" "length ks \<le> 1024" "sum_list (map abs ks) \<le> 2 ^ 38"
  shows "near d (1 / 4) (foldl js_add (JFin 0) (map (money d) ks)) (sum_list ks)"
proof -
  have "quotients d ks = map (money d) ks" by (simp add: quotients_def money_def [abs_def])
  then show ?thesis using float_sum_scaled [OF assms(3,1,2,4)] by (auto simp: near_def)
qed

lemma near_sum_tight:
  assumes "0 < d" "d \<le> 2 ^ 38" "length ks \<le> 1024" "sum_list (map abs ks) \<le> 2 ^ 38"
  shows "near d (1 / 8 + 1 / 2 ^ 20) (foldl js_add (JFin 0) (map (money d) ks)) (sum_list ks)"
proof -
  have "quotients d ks = map (money d) ks" by (simp add: quotients_def money_def [abs_def])
  then show ?thesis using float_sum_tight [OF assms(3,1,2,4)] by (auto simp: near_def)
qed

text \<open>A change of sign.\<close>

lemma near_sign:
  assumes "0 < d" "d \<le> 2 ^ 38" "near d e x k" "e \<le> 1" "\<bar>k\<bar> \<le> 2 ^ 40" "s = 1 \<or> s = -1"
  shows "near d (e + 1 / 2 ^ 10) (js_mul (JFin (of_int s)) x) (s * k)"
proof -
  obtain q where q: "x = JFin q" "\<bar>q * of_int d - of_int k\<bar> \<le> e" using assms(3) by (auto simp: near_def)
  have k: "\<bar>of_int k :: rat\<bar> \<le> 2 ^ 40" using of_int_le_iff [of "\<bar>k\<bar>" "2 ^ 40", where ?'a = rat] assms(5) by simp
  have "\<bar>of_int s * q * of_int d\<bar> \<le> 2 ^ 41" using q(2) k assms(4,6) by (auto simp: abs_minus_commute)
  from fl_near [OF assms(1,2) this] obtain z where z: "fl (of_int s * q) = JFin z"
    "\<bar>z * of_int d - of_int s * q * of_int d\<bar> \<le> 1 / 2 ^ 10" by blast
  have "\<bar>of_int s * q * of_int d - of_int (s * k)\<bar> \<le> e"
    using assms(6) q(2) by (auto simp: abs_minus_commute)
  then have "\<bar>z * of_int d - of_int (s * k)\<bar> \<le> e + 1 / 2 ^ 10" using z(2) by linarith
  then show ?thesis using q z(1) by (auto simp: near_def)
qed

lemma money_0 [simp]: "0 < d \<Longrightarrow> money d 0 = JFin 0"
  by (simp add: money_def fl_def)

lemma money_eq_0:
  assumes "0 < d" "d \<le> 2 ^ 38" "\<bar>k\<bar> \<le> 2 ^ 40"
  shows "js_eq (money d k) (JFin 0) \<longleftrightarrow> k = 0"
proof -
  have "k = 0" if "money d k = JFin 0"
  proof -
    have "\<bar>of_int k :: rat\<bar> \<le> 1 / 2 ^ 10" using near_money [OF assms] that by (simp add: near_def)
    then have "\<bar>of_int k :: rat\<bar> < of_int 1" by simp
    then have "\<bar>k\<bar> < 1" by (metis of_int_abs of_int_less_iff)
    then show ?thesis by simp
  qed
  then show ?thesis using assms(1) by (auto simp: js_eq_def)
qed

lemma near_round:
  assumes "0 < d" "near d (1 / 4) x k" "\<bar>k\<bar> \<le> 2 ^ 38"
  shows "js_round (js_mul x (JFin (of_int d))) = JFin (of_int k)"
  using assms round_near_int by (auto simp: near_def)

section \<open>Evaluating a rounding\<close>

lemma floor_log2_less:
  assumes "0 < x"
  shows "x < pow2 (floor_log2 x + 1)"
proof -
  obtain n d where q: "quotient_of x = (n, d)" by fastforce
  then have d: "0 < d" and x: "x = of_int n / of_int d"
    using quotient_of_denom_pos quotient_of_div by blast+
  have n: "0 < n" using assms d by (simp add: x zero_less_divide_iff)
  define e where "e = bitlen n - bitlen d"
  have bn: "1 \<le> bitlen n" and bd: "1 \<le> bitlen d" using n d by (simp_all add: bitlen_ge_iff_power)
  have "n < 2 ^ nat (bitlen n)" using n bitlen_bounds [of n] by simp
  then have high: "of_int n < pow2 (bitlen n)" using bn by (simp add: pow2_def)
  have "2 ^ nat (bitlen d - 1) \<le> d" using d bitlen_bounds [of d] by simp
  then have low: "pow2 (bitlen d - 1) \<le> of_int d" using bd by (simp add: pow2_def)
  have "pow2 (bitlen n) = pow2 (e + 1) * pow2 (bitlen d - 1)" by (simp add: pow2_add [symmetric] e_def)
  also have "\<dots> \<le> pow2 (e + 1) * of_int d" using low by (intro mult_left_mono) auto
  finally have "x < pow2 (e + 1)" using high d by (simp add: x pos_divide_less_eq)
  then show ?thesis using q by (simp add: floor_log2_def Let_def e_def)
qed

lemma floor_log2_eqI:
  assumes "pow2 l \<le> x" "x < pow2 (l + 1)"
  shows "floor_log2 x = l"
proof -
  have x: "0 < x" using assms(1) pow2_pos [of l] by linarith
  have strict: "i < j" if "pow2 i < pow2 j" for i j using that pow2_mono [of j i] by (meson leD not_le)
  have "pow2 (floor_log2 x) < pow2 (l + 1)" "pow2 l < pow2 (floor_log2 x + 1)"
    using floor_log2_le [OF x] floor_log2_less [OF x] assms by linarith+
  from this [THEN strict] show ?thesis by linarith
qed

lemma round_half_even_near: "\<bar>y - of_int k\<bar> < 1 / 2 \<Longrightarrow> round_half_even y = k"
proof -
  assume near: "\<bar>y - of_int k\<bar> < 1 / 2"
  have r: "\<bar>of_int (round_half_even y) - y\<bar> \<le> 1 / 2" by (rule round_half_even_error)
  have "\<bar>of_int (round_half_even y) - of_int k :: rat\<bar> < 1" using near r by linarith
  then have "\<bar>of_int (round_half_even y - k) :: rat\<bar> < of_int 1" by simp
  then show "round_half_even y = k" by (metis of_int_abs of_int_less_iff zabs_less_one_iff eq_iff_diff_eq_0)
qed

text \<open>The double of a positive fraction whose binary exponent is \<open>l\<close>.\<close>

lemma fl_eval:
  assumes "pow2 l \<le> x" "x < pow2 (l + 1)" "-1000 \<le> l" "l \<le> 1000" "\<bar>x / pow2 (l - 52) - of_int k\<bar> < 1 / 2"
    "\<bar>k\<bar> \<le> 2 ^ 53"
  shows "fl x = JFin (of_int k * pow2 (l - 52))"
proof -
  have x: "0 < x" using assms(1) pow2_pos [of l] by linarith
  have "\<bar>of_int k :: rat\<bar> \<le> 2 ^ 53" using of_int_le_iff [of "\<bar>k\<bar>" "2 ^ 53", where ?'a = rat] assms(6) by simp
  then have k: "\<bar>of_int k\<bar> \<le> pow2 53" by (simp add: pow2_def)
  have "\<bar>of_int k * pow2 (l - 52)\<bar> \<le> pow2 53 * pow2 (l - 52)" unfolding abs_mult using k by (intro mult_mono) auto
  also have "\<dots> = pow2 (l + 1)" by (simp add: pow2_add [symmetric] add.commute)
  also have "\<dots> < pow2 1024"
  proof -
    have "pow2 (l + 1) \<le> pow2 1001" using assms(4) by (intro pow2_mono) simp
    also have "\<dots> < pow2 1024" by (simp add: pow2_def)
    finally show ?thesis .
  qed
  finally have "\<bar>of_int k * pow2 (l - 52)\<bar> < pow2 1024" .
  then have "of_int k * pow2 (l - 52) < pow2 1024" "- pow2 1024 < of_int k * pow2 (l - 52)" by linarith+
  moreover have "max (floor_log2 \<bar>x\<bar> - 52) (- 1074) = l - 52"
    using floor_log2_eqI [OF assms(1,2)] x assms(3) by simp
  ultimately show ?thesis using x round_half_even_near [OF assms(5)]
    by (simp add: fl_def round_to_grid_def)
qed

end
