(* ===== verification/Ledger_Balance.thy ===== *)
theory Ledger_Balance
  imports Js_Number
begin

text \<open>
  The validation of a transaction before it is written (src/lib/validation.ts and
  \<open>isValidGuid\<close> of src/lib/guid.ts): the exact balance check over rational split
  values, and the list of field errors both write paths return. The abstract reading
  of a list of splits is \<open>ledger_sum\<close>, the rational sum of the split values.
\<close>

section \<open>Inputs\<close>

text \<open>
  A value field as it arrives at run time: absent, null, a number or a BigInt. The type
  annotation of the source promises one of the last two, the checks cover all four.
\<close>

datatype jsval = JUndefined | JNull | JNum js_number | JBig int

record balance_split =
  value_num :: jsval
  value_denom :: jsval

text \<open>A string field that may be absent is an option.\<close>

record split_input = balance_split +
  account_guid :: "string option"
  quantity_denom :: jsval
  reconcile_state :: "string option"

record transaction_input =
  currency_guid :: "string option"
  post_date :: "string option"
  description :: "string option"
  splits :: "split_input list option"

datatype balance_error = NotSafeInteger string | ZeroDenominator | Unbalanced int int

definition balance_message :: "balance_error \<Rightarrow> string" where
  "balance_message e = (case e of
      NotSafeInteger field \<Rightarrow> ''Split value '' @ field @ '' must be a safe integer''
    | ZeroDenominator \<Rightarrow> ''Split value denominator must be non-zero''
    | Unbalanced n d \<Rightarrow> ''Splits must sum to zero exactly (current sum: '' @ int_str n @ ''/''
        @ int_str d @ '')'')"

section \<open>The balance check\<close>

function bgcd :: "int \<Rightarrow> int \<Rightarrow> int" where
  "bgcd a b = (if b \<noteq> 0 then bgcd b (a smod b) else if a < 0 then - a else a)"
  by pat_completeness auto
termination
  by (relation "measure (\<lambda>(a, b). nat \<bar>b\<bar>)") (auto simp: abs_smod_less)

declare bgcd.simps [simp del]

definition toBigInt :: "jsval \<Rightarrow> string \<Rightarrow> balance_error + int" where
  "toBigInt v field = (case v of
      JBig i \<Rightarrow> Inr i
    | JNum (JFin q) \<Rightarrow>
        if is_safe_integer (JFin q) then Inr \<lfloor>q\<rfloor> else Inl (NotSafeInteger field)
    | _ \<Rightarrow> Inl (NotSafeInteger field))"

fun common_denominator :: "int \<Rightarrow> 'a balance_split_scheme list \<Rightarrow> balance_error + int" where
  "common_denominator commonDenominator [] = Inr commonDenominator"
| "common_denominator commonDenominator (split # rest) =
     bind_result (toBigInt (value_denom split) ''denominator'') (\<lambda>denominator.
       if denominator = 0 then Inl ZeroDenominator
       else let absoluteDenominator = (if denominator < 0 then - denominator else denominator)
         in common_denominator
           ((commonDenominator sdiv bgcd commonDenominator absoluteDenominator)
              * absoluteDenominator) rest)"

fun scaled_total ::
    "int \<Rightarrow> int \<Rightarrow> 'a balance_split_scheme list \<Rightarrow> balance_error + int" where
  "scaled_total commonDenominator acc [] = Inr acc"
| "scaled_total commonDenominator acc (split # rest) =
     bind_result (toBigInt (value_num split) ''numerator'') (\<lambda>numerator.
       bind_result (toBigInt (value_denom split) ''denominator'') (\<lambda>denominator.
         scaled_total commonDenominator
           (acc + numerator * (commonDenominator sdiv denominator)) rest))"

definition assertBalanced :: "'a balance_split_scheme list \<Rightarrow> balance_error + unit" where
  "assertBalanced ss =
     bind_result (common_denominator 1 ss) (\<lambda>commonDenominator.
       bind_result (scaled_total commonDenominator 0 ss) (\<lambda>sum.
         if sum \<noteq> 0
         then let divisor = bgcd sum commonDenominator
           in Inl (Unbalanced (sum sdiv divisor) (commonDenominator sdiv divisor))
         else Inr ()))"

section \<open>Field errors\<close>

definition is_hex :: "char \<Rightarrow> bool" where
  "is_hex c \<longleftrightarrow> is_digit c \<or> (97 \<le> (of_char c :: nat) \<and> (of_char c :: nat) \<le> 102)
     \<or> (65 \<le> (of_char c :: nat) \<and> (of_char c :: nat) \<le> 70)"

definition isValidGuid :: "string \<Rightarrow> bool" where
  "isValidGuid guid \<longleftrightarrow> length guid = 32 \<and> list_all is_hex guid"

text \<open>JavaScript's falsy values of the two kinds of field.\<close>

definition missing :: "string option \<Rightarrow> bool" where
  "missing s \<longleftrightarrow> s = None \<or> s = Some []"

definition falsy :: "jsval \<Rightarrow> bool" where
  "falsy v \<longleftrightarrow> v \<in> {JUndefined, JNull, JNum JNaN, JNum (JFin 0), JBig 0}"

definition is_number_zero :: "jsval \<Rightarrow> bool" where
  "is_number_zero v \<longleftrightarrow> v = JNum (JFin 0)"

type_synonym validation_error = "string \<times> string"

definition split_field :: "nat \<Rightarrow> string \<Rightarrow> string" where
  "split_field index name = ''splits['' @ nat_str index @ '']'' @ ''.'' @ name"

definition split_message :: "nat \<Rightarrow> string \<Rightarrow> string" where
  "split_message index msg = ''Split '' @ nat_str (index + 1) @ '': '' @ msg"

definition split_errors :: "nat \<Rightarrow> split_input \<Rightarrow> validation_error list" where
  "split_errors index split =
     (if missing (account_guid split)
      then [(split_field index ''account_guid'', split_message index ''Account is required'')]
      else if \<not> isValidGuid (the (account_guid split))
      then [(split_field index ''account_guid'', split_message index ''Invalid account GUID format'')]
      else [])
   @ (if value_num split = JUndefined \<or> value_num split = JNull
      then [(split_field index ''value_num'', split_message index ''Value is required'')] else [])
   @ (if falsy (value_denom split) \<or> is_number_zero (value_denom split)
      then [(split_field index ''value_denom'',
             split_message index ''Value denominator must be non-zero'')] else [])
   @ (if \<not> falsy (quantity_denom split) \<and> is_number_zero (quantity_denom split)
      then [(split_field index ''quantity_denom'',
             split_message index ''Quantity denominator must be non-zero'')] else [])
   @ (if \<not> missing (reconcile_state split)
         \<and> the (reconcile_state split) \<notin> {''n'', ''c'', ''y''}
      then [(split_field index ''reconcile_state'',
             split_message index ''Invalid reconcile state'')] else [])"

fun all_split_errors :: "nat \<Rightarrow> split_input list \<Rightarrow> validation_error list" where
  "all_split_errors index [] = []"
| "all_split_errors index (split # rest) =
     split_errors index split @ all_split_errors (Suc index) rest"

text \<open>
  \<open>validateTransaction\<close>; \<open>valid_date\<close> stands for the date test \<open>!isNaN(new Date(s).getTime())\<close>,
  which the language leaves to the implementation outside the ISO formats.
\<close>

definition transaction_errors ::
    "(string \<Rightarrow> bool) \<Rightarrow> transaction_input \<Rightarrow> validation_error list" where
  "transaction_errors valid_date tx =
     (if missing (currency_guid tx) then [(''currency_guid'', ''Currency is required'')]
      else if \<not> isValidGuid (the (currency_guid tx))
      then [(''currency_guid'', ''Invalid currency GUID format'')] else [])
   @ (if missing (post_date tx) then [(''post_date'', ''Post date is required'')]
      else if \<not> valid_date (the (post_date tx))
      then [(''post_date'', ''Invalid post date format'')] else [])
   @ (if missing (description tx) \<or> trim (the (description tx)) = []
      then [(''description'', ''Description is required'')] else [])
   @ (case splits tx of
        None \<Rightarrow> [(''splits'', ''Splits are required'')]
      | Some ss \<Rightarrow>
          (if length ss < 2
           then [(''splits'', ''At least 2 splits are required (double-entry)'')] else [])
        @ all_split_errors 0 ss
        @ (if length ss \<ge> 2
           then (case assertBalanced ss of
               Inl e \<Rightarrow> [(''splits'', balance_message e)] | Inr _ \<Rightarrow> [])
           else []))"

definition validateTransaction ::
    "(string \<Rightarrow> bool) \<Rightarrow> transaction_input \<Rightarrow> bool \<times> validation_error list" where
  "validateTransaction valid_date tx =
     (let errors = transaction_errors valid_date tx in (errors = [], errors))"

definition summarizeValidationErrors :: "validation_error list \<Rightarrow> string" where
  "summarizeValidationErrors errors = join_with ''; '' (map snd errors)"

section \<open>The abstract meaning: a rational sum\<close>

definition exact_int :: "jsval \<Rightarrow> int option" where
  "exact_int v = (case v of
      JBig i \<Rightarrow> Some i
    | JNum (JFin q) \<Rightarrow> if is_safe_integer (JFin q) then Some \<lfloor>q\<rfloor> else None
    | _ \<Rightarrow> None)"

definition split_value :: "'a balance_split_scheme \<Rightarrow> rat option" where
  "split_value s = (case (exact_int (value_num s), exact_int (value_denom s)) of
      (Some n, Some d) \<Rightarrow> if d = 0 then None else Some (of_int n / of_int d)
    | _ \<Rightarrow> None)"

fun ledger_sum :: "'a balance_split_scheme list \<Rightarrow> rat option" where
  "ledger_sum [] = Some 0"
| "ledger_sum (s # ss) = (case (split_value s, ledger_sum ss) of
      (Some v, Some t) \<Rightarrow> Some (v + t) | _ \<Rightarrow> None)"

lemma toBigInt_Inr_iff [simp]: "toBigInt v field = Inr i \<longleftrightarrow> exact_int v = Some i"
  by (auto simp: toBigInt_def exact_int_def split: jsval.splits js_number.splits)

lemma bgcd_eq_gcd [simp]: "bgcd a b = gcd a b"
proof (induction a b rule: bgcd.induct)
  case (1 a b)
  show ?case
  proof (cases "b = 0")
    case True
    then show ?thesis by (subst bgcd.simps) simp
  next
    case False
    with 1 have "bgcd b (a smod b) = gcd a b" by (simp only: gcd_smod not_False_eq_True)
    with False show ?thesis by (subst bgcd.simps) simp
  qed
qed

lemma lcm_step: "0 < a \<Longrightarrow> 0 < b \<Longrightarrow> (a sdiv gcd a b) * b = lcm a (b::int)"
  by (simp add: sdiv_dvd lcm_gcd div_mult_swap dvd_div_mult pos_imp_zdiv_nonneg_iff gcd_pos_int)

definition good_denominators :: "'a balance_split_scheme list \<Rightarrow> bool" where
  "good_denominators ss \<longleftrightarrow> list_all (\<lambda>s. \<exists>d. exact_int (value_denom s) = Some d \<and> d \<noteq> 0) ss"

definition denominators_divide :: "int \<Rightarrow> 'a balance_split_scheme list \<Rightarrow> bool" where
  "denominators_divide L ss \<longleftrightarrow> list_all (\<lambda>s. \<exists>d. exact_int (value_denom s) = Some d \<and> d \<noteq> 0 \<and> d dvd L) ss"

lemma common_denominator_Cons:
  assumes "0 < c" "exact_int (value_denom s) = Some d" "d \<noteq> 0"
  shows "common_denominator c (s # ss) = common_denominator (lcm c \<bar>d\<bar>) ss"
proof -
  have "toBigInt (value_denom s) ''denominator'' = Inr d" using assms(2) by simp
  moreover have "(c sdiv gcd c \<bar>d\<bar>) * \<bar>d\<bar> = lcm c \<bar>d\<bar>"
    by (rule lcm_step) (use assms in simp_all)
  ultimately show ?thesis
    using assms(3) by (simp only: common_denominator.simps bind_result_simps Let_def
        abs_if [symmetric] bgcd_eq_gcd if_False)
qed

lemma common_denominator_Inr:
  assumes "common_denominator c ss = Inr L" "0 < c"
  shows "0 < L \<and> c dvd L \<and> denominators_divide L ss"
  using assms
proof (induction ss arbitrary: c)
  case (Cons s ss)
  then obtain d where d: "exact_int (value_denom s) = Some d" "d \<noteq> 0"
    by (auto simp: bind_result_Inr_iff split: if_splits)
  note step = common_denominator_Cons [OF Cons.prems(2) d]
  have "0 < lcm c \<bar>d\<bar>" using d(2) Cons.prems(2) by (simp add: lcm_pos_int)
  moreover have "common_denominator (lcm c \<bar>d\<bar>) ss = Inr L" using Cons.prems(1) step by simp
  ultimately have "0 < L \<and> lcm c \<bar>d\<bar> dvd L \<and> denominators_divide L ss"
    by (intro Cons.IH)
  then show ?case using d by (auto simp: denominators_divide_def)
qed (simp add: denominators_divide_def)

lemma common_denominator_total:
  "good_denominators ss \<Longrightarrow> \<exists>L. common_denominator c ss = Inr L"
proof (induction ss arbitrary: c)
  case (Cons s ss)
  then obtain d where "exact_int (value_denom s) = Some d" "d \<noteq> 0" "good_denominators ss"
    by (auto simp: good_denominators_def)
  with Cons.IH show ?case by (fastforce simp: bind_result_Inr_iff)
qed simp

lemma scaled_total_Inr_iff:
  assumes "0 < L" "denominators_divide L ss"
  shows "scaled_total L acc ss = Inr t \<longleftrightarrow>
    (\<exists>v. ledger_sum ss = Some v \<and> of_int t = of_int acc + of_int L * v)"
  using assms(2)
proof (induction ss arbitrary: acc)
  case (Cons s ss)
  then obtain d where d: "exact_int (value_denom s) = Some d" "d \<noteq> 0" "d dvd L"
    and ss: "denominators_divide L ss"
    by (auto simp: denominators_divide_def)
  show ?case
  proof (cases "exact_int (value_num s)")
    case None
    then show ?thesis by (auto simp: bind_result_Inr_iff split_value_def)
  next
    case (Some n)
    have "(of_int (L sdiv d) :: rat) = of_int L / of_int d"
      using d by (simp add: sdiv_dvd of_int_div)
    then have "(of_int (acc + n * (L sdiv d)) :: rat) = of_int acc + of_int L * (of_int n / of_int d)"
      by simp
    with Some d Cons.IH [OF ss, of "acc + n * (L sdiv d)"] show ?thesis
      by (auto simp: bind_result_Inr_iff split_value_def algebra_simps split: option.splits)
  qed
qed auto

lemma ledger_sum_good: "ledger_sum ss = Some v \<Longrightarrow> good_denominators ss"
  by (induction ss arbitrary: v)
    (auto simp: good_denominators_def split_value_def split: option.splits if_splits)

lemma assertBalanced_cases:
  obtains (bad) e where "assertBalanced ss = Inl e" "\<And>n d. e \<noteq> Unbalanced n d" "ledger_sum ss = None"
  | (sum) L t v where "0 < L" "ledger_sum ss = Some v" "of_int t = of_int L * v"
      "assertBalanced ss = (if t \<noteq> 0
         then Inl (Unbalanced (t sdiv gcd t L) (L sdiv gcd t L)) else Inr ())"
proof -
  have no_unb: "toBigInt v f = Inl e \<Longrightarrow> e \<noteq> Unbalanced n d" for v f e n d
    by (auto simp: toBigInt_def split: jsval.splits js_number.splits if_splits)
  show thesis
  proof (cases "common_denominator 1 ss")
    case (Inl e)
    then have "\<not> good_denominators ss" using common_denominator_total [of ss 1] by auto
    then have "ledger_sum ss = None" using ledger_sum_good by (metis not_None_eq)
    moreover have "common_denominator c ss = Inl e \<Longrightarrow> e \<noteq> Unbalanced n d" for c n d
      by (induction ss arbitrary: c)
        (auto simp: bind_result_def Let_def split: sum.splits if_splits dest: no_unb)
    ultimately show thesis using Inl by (intro bad [of e]) (auto simp: assertBalanced_def)
  next
    case (Inr L)
    then have L: "0 < L" "denominators_divide L ss" using common_denominator_Inr [OF Inr] by simp_all
    note st = scaled_total_Inr_iff [OF L, of 0]
    show thesis
    proof (cases "scaled_total L 0 ss")
      case (Inl e)
      then have "ledger_sum ss = None"
      proof (rule_tac ccontr)
        assume "scaled_total L 0 ss = Inl e" "ledger_sum ss \<noteq> None"
        then obtain v where v: "ledger_sum ss = Some v" by blast
        have "\<exists>t. scaled_total L acc ss = Inr t" for acc
          using L(2) v
        proof (induction ss arbitrary: acc v)
          case (Cons s ss)
          then show ?case
            by (fastforce simp: denominators_divide_def split_value_def bind_result_Inr_iff
                split: option.splits if_splits)
        qed simp
        then show False using \<open>scaled_total L 0 ss = Inl e\<close> by (metis Inl_Inr_False)
      qed
      moreover have "scaled_total L acc ss = Inl e \<Longrightarrow> e \<noteq> Unbalanced n d" for acc n d
        by (induction ss arbitrary: acc)
          (auto simp: bind_result_def split: sum.splits dest: no_unb)
      ultimately show thesis using \<open>common_denominator 1 ss = Inr L\<close> Inl
        by (intro bad [of e]) (auto simp: assertBalanced_def)
    next
      case inr: (Inr t)
      with st [of t] obtain v where "ledger_sum ss = Some v" "of_int t = of_int L * v" by auto
      with Inr inr L(1) show thesis
        by (intro sum [of L v t]) (simp_all add: assertBalanced_def Let_def)
    qed
  qed
qed

lemma assertBalanced_Inr_iff: "assertBalanced ss = Inr () \<longleftrightarrow> ledger_sum ss = Some 0"
  by (rule assertBalanced_cases [of ss]) (auto simp: less_le)

text \<open>
  C1. The double-entry gate: a list of splits passes exactly when every value is an exact
  fraction and the fractions sum to zero as rational numbers.
\<close>

theorem assertBalanced_iff_zero_sum:
  "assertBalanced ss = Inr () \<longleftrightarrow> ledger_sum ss = Some 0"
  by (rule assertBalanced_Inr_iff)

text \<open>
  When the gate rejects an exact but unbalanced list, the fraction in its message is the
  sum in lowest terms.
\<close>

theorem assertBalanced_reports_sum:
  "assertBalanced ss = Inl (Unbalanced n d) \<longleftrightarrow>
     (\<exists>v. ledger_sum ss = Some v \<and> v \<noteq> 0 \<and> quotient_of v = (n, d))"
proof (rule assertBalanced_cases [of ss])
  fix L t v
  assume L: "0 < L" and v: "ledger_sum ss = Some v" "of_int t = of_int L * v"
    and eq: "assertBalanced ss = (if t \<noteq> 0
      then Inl (Unbalanced (t sdiv gcd t L) (L sdiv gcd t L)) else Inr ())"
  let ?g = "gcd t L"
  have g: "0 < ?g" using L by (simp add: gcd_pos_int)
  have "v = Fract t L" using L v(2) by (simp add: Fract_of_int_quotient)
  then have "quotient_of v = (t div ?g, L div ?g)"
    using L by (simp add: quotient_of_Fract Rat.normalize_def Let_def)
  moreover have "t sdiv ?g = t div ?g" "L sdiv ?g = L div ?g" using g by (simp_all add: sdiv_dvd)
  moreover have "t = 0 \<longleftrightarrow> v = 0" using L v(2) by auto
  ultimately show ?thesis using eq v(1) by auto
qed auto

section \<open>Field validation\<close>

text \<open>The abstract condition under which a transaction is accepted.\<close>

definition split_ok :: "split_input \<Rightarrow> bool" where
  "split_ok s \<longleftrightarrow> (\<exists>g. account_guid s = Some g \<and> isValidGuid g)
     \<and> value_num s \<noteq> JUndefined \<and> value_num s \<noteq> JNull
     \<and> \<not> falsy (value_denom s)
     \<and> (missing (reconcile_state s) \<or> the (reconcile_state s) \<in> {''n'', ''c'', ''y''})"

definition transaction_ok :: "(string \<Rightarrow> bool) \<Rightarrow> transaction_input \<Rightarrow> bool" where
  "transaction_ok valid_date tx \<longleftrightarrow>
     (\<exists>g. currency_guid tx = Some g \<and> isValidGuid g)
     \<and> (\<exists>d. post_date tx = Some d \<and> d \<noteq> [] \<and> valid_date d)
     \<and> (\<exists>t. description tx = Some t \<and> trim t \<noteq> [])
     \<and> (\<exists>ss. splits tx = Some ss \<and> 2 \<le> length ss \<and> list_all split_ok ss
            \<and> ledger_sum ss = Some 0)"

lemma valid_guid_not_missing: "isValidGuid g \<Longrightarrow> g \<noteq> []"
  by (auto simp: isValidGuid_def)

lemma trim_Nil [simp]: "trim [] = []"
  by (simp add: trim_def)

lemma split_errors_Nil_iff: "split_errors i s = [] \<longleftrightarrow> split_ok s"
proof -
  have "\<not> (\<not> falsy v \<and> is_number_zero v)" "is_number_zero v \<Longrightarrow> falsy v" for v
    by (auto simp: falsy_def is_number_zero_def)
  then show ?thesis
    by (auto simp: split_errors_def split_ok_def missing_def dest: valid_guid_not_missing)
qed

lemma all_split_errors_Nil_iff: "all_split_errors i ss = [] \<longleftrightarrow> list_all split_ok ss"
  by (induction ss arbitrary: i) (auto simp: split_errors_Nil_iff)

lemma balance_errors_Nil_iff:
  "(case assertBalanced ss of Inl e \<Rightarrow> [f e] | Inr _ \<Rightarrow> []) = [] \<longleftrightarrow> ledger_sum ss = Some 0"
  using assertBalanced_Inr_iff [of ss] by (cases "assertBalanced ss") auto

lemma transaction_errors_Nil_iff: "transaction_errors valid_date tx = [] \<longleftrightarrow> transaction_ok valid_date tx"
  by (auto simp: transaction_errors_def transaction_ok_def missing_def
      all_split_errors_Nil_iff balance_errors_Nil_iff Let_def
      split: option.splits if_splits dest: valid_guid_not_missing)

text \<open>
  C2. A transaction is accepted exactly when its currency and every account are valid GUIDs,
  its date and description are there, it has at least two well-formed splits, and the split
  values sum to zero as rationals.
\<close>

theorem validateTransaction_iff:
  "fst (validateTransaction valid_date tx) \<longleftrightarrow> transaction_ok valid_date tx"
  by (simp add: validateTransaction_def transaction_errors_Nil_iff)

text \<open>
  The quantity denominator of a split never influences the outcome: the code's test for a
  zero quantity denominator can not fire, since a zero is falsy.
\<close>

theorem quantity_denominator_unchecked:
  "transaction_errors valid_date (tx\<lparr>splits := Some (map (\<lambda>s. s\<lparr>quantity_denom := q\<rparr>) ss)\<rparr>)
   = transaction_errors valid_date (tx\<lparr>splits := Some ss\<rparr>)"
proof -
  have e: "split_errors i (s\<lparr>quantity_denom := q\<rparr>) = split_errors i s" for i and s :: split_input
    by (auto simp: split_errors_def falsy_def is_number_zero_def)
  have a: "all_split_errors i (map (\<lambda>s. s\<lparr>quantity_denom := q\<rparr>) ss) = all_split_errors i ss" for i
    by (induction ss arbitrary: i) (simp_all add: e)
  have c: "common_denominator L (map (\<lambda>s. s\<lparr>quantity_denom := q\<rparr>) ss) = common_denominator L ss" for L
    by (induction ss arbitrary: L) (simp_all add: Let_def cong: if_cong)
  have t: "scaled_total L x (map (\<lambda>s. s\<lparr>quantity_denom := q\<rparr>) ss) = scaled_total L x ss" for L x
    by (induction ss arbitrary: x) simp_all
  show ?thesis by (simp add: transaction_errors_def assertBalanced_def a c t)
qed

end
