(* ===== verification/Lock_Order.thy ===== *)
theory Lock_Order
  imports Folio_Prelude
begin

text \<open>
  The acquisition order of account sibling-name locks (src/lib/account-lock-order.ts,
  the key functions and the client test of src/lib/book-lock.ts, the row-write guard of
  src/lib/prisma.ts). The first part is the code: the comparison, the scope of one
  transaction and its operations. The second part puts many transactions beside one
  another, with the database granting keys and rows, and shows that no cycle of
  waiting transactions passes through a name lock.
\<close>

section \<open>The total order\<close>

record lock_order =
  book_root :: string
  path :: "string list"

fun compare_paths :: "string list \<Rightarrow> string list \<Rightarrow> int" where
  "compare_paths (a # as) (b # bs) =
     (if a \<noteq> b then (if a < b then -1 else 1) else compare_paths as bs)"
| "compare_paths as bs = int (length as) - int (length bs)"

definition compareLockOrder :: "lock_order \<Rightarrow> lock_order \<Rightarrow> int" where
  "compareLockOrder a b =
     (if book_root a \<noteq> book_root b then (if book_root a < book_root b then -1 else 1)
      else compare_paths (path a) (path b))"

definition sortByLockOrder :: "('a \<Rightarrow> lock_order) \<Rightarrow> 'a list \<Rightarrow> 'a list" where
  "sortByLockOrder orderOf items = stable_sort (\<lambda>a b. compareLockOrder (orderOf a) (orderOf b)) items"

section \<open>Keys and clients\<close>

definition ACCOUNT_KEY_PREFIX :: string where
  "ACCOUNT_KEY_PREFIX = ''account:''"

definition accountNameLockKey :: "string \<Rightarrow> string \<Rightarrow> string" where
  "accountNameLockKey parentGuid name = ''account:'' @ parentGuid @ '':'' @ name"

definition bookLockKey :: "string \<Rightarrow> string" where
  "bookLockKey bookGuid = ''book:'' @ bookGuid"

text \<open>
  The client a lock is asked on: a test double without raw queries, the top-level client,
  or a transaction whose statement succeeds or fails.
\<close>

datatype raw_client = TestDouble | TopLevel | Transaction bool

datatype lock_error =
    UnknownSite string | PathMismatch | AfterSoleClaim string string
  | OutOfOrder lock_order lock_order | SoleBesideOthers string
  | OutsideTransaction string | StatementFailed | AccountKeyRefused string
  | RowLockUnderNameLock string | RowWriteUnderNameLock

definition acquireAccountKeyLockUnchecked :: "raw_client \<Rightarrow> string \<Rightarrow> lock_error + bool" where
  "acquireAccountKeyLockUnchecked tx key = (case tx of
      TestDouble \<Rightarrow> Inr False
    | TopLevel \<Rightarrow> Inl (OutsideTransaction key)
    | Transaction ok \<Rightarrow> if ok then Inr True else Inl StatementFailed)"

definition acquireNamedXactLock :: "raw_client \<Rightarrow> string \<Rightarrow> lock_error + bool" where
  "acquireNamedXactLock tx key =
     (if take (length ACCOUNT_KEY_PREFIX) key = ACCOUNT_KEY_PREFIX then Inl (AccountKeyRefused key)
      else acquireAccountKeyLockUnchecked tx key)"

section \<open>The scope of one transaction\<close>

text \<open>
  A held lock is an object with an identity, since the rollback of a failed claim removes
  exactly the entry that claim added.
\<close>

record held_lock =
  ident :: nat
  key :: string
  order :: "lock_order option"

record lock_scope =
  held :: "held_lock list"
  inserted :: "string set"
  rowLocked :: "string set"

definition newScope :: lock_scope where
  "newScope = \<lparr>held = [], inserted = {}, rowLocked = {}\<rparr>"

definition holds_key :: "lock_scope \<Rightarrow> string \<Rightarrow> bool" where
  "holds_key scope k \<longleftrightarrow> list_ex (\<lambda>h. key h = k) (held scope)"

definition push_held :: "held_lock \<Rightarrow> lock_scope \<Rightarrow> lock_scope" where
  "push_held h scope = scope\<lparr>held := held scope @ [h]\<rparr>"

fun remove_entry :: "nat \<Rightarrow> held_lock list \<Rightarrow> held_lock list" where
  "remove_entry i [] = []"
| "remove_entry i (h # hs) = (if ident h = i then hs else h # remove_entry i hs)"

text \<open>
  \<open>claimReserved\<close> records the claim at once (\<open>push_held\<close>) and awaits the database; when the
  statement throws it takes its own entry back.
\<close>

definition settleClaim ::
    "raw_client \<Rightarrow> nat \<Rightarrow> string \<Rightarrow> lock_scope \<Rightarrow> (lock_error + bool) \<times> lock_scope" where
  "settleClaim tx i k scope = (case acquireAccountKeyLockUnchecked tx k of
      Inr locked \<Rightarrow> (Inr locked, scope)
    | Inl e \<Rightarrow> (Inl e, scope\<lparr>held := remove_entry i (held scope)\<rparr>))"

definition claimReserved ::
    "raw_client \<Rightarrow> lock_scope \<Rightarrow> held_lock \<Rightarrow> (lock_error + bool) \<times> lock_scope" where
  "claimReserved tx scope h = settleClaim tx (ident h) (key h) (push_held h scope)"

definition UNORDERED_CLAIM_SITES :: "string list" where
  "UNORDERED_CLAIM_SITES = [''lot-scrub:capital-gains'']"

text \<open>\<open>unorderedSite in UNORDERED_CLAIM_SITES\<close> also finds the inherited names.\<close>

definition known_site :: "string \<Rightarrow> bool" where
  "known_site s \<longleftrightarrow> s \<in> set UNORDERED_CLAIM_SITES \<or> s \<in> set object_prototype_names"

fun check_order :: "string \<Rightarrow> lock_order \<Rightarrow> bool \<Rightarrow> held_lock list \<Rightarrow> lock_error option" where
  "check_order k ord waived [] = None"
| "check_order k ord waived (h # hs) = (case order h of
      None \<Rightarrow> Some (AfterSoleClaim (key h) k)
    | Some o' \<Rightarrow>
        if compareLockOrder ord o' < 0 \<and> \<not> waived then Some (OutOfOrder ord o')
        else check_order k ord waived hs)"

text \<open>
  The synchronous part of \<open>acquireAccountNameLock\<close>: its checks and, when they pass, the
  record of the claim. A registered site's violation is only logged.
\<close>

definition startOrderedClaim ::
    "nat \<Rightarrow> string \<Rightarrow> string \<Rightarrow> lock_order \<Rightarrow> string option \<Rightarrow> lock_scope \<Rightarrow> lock_error + lock_scope" where
  "startOrderedClaim i parentGuid name ord unorderedSite scope =
     (if unorderedSite \<noteq> None \<and> \<not> known_site (the unorderedSite)
      then Inl (UnknownSite (the unorderedSite))
      else if path ord = [] \<or> last (path ord) \<noteq> name then Inl PathMismatch
      else let k = accountNameLockKey parentGuid name; h = \<lparr>ident = i, key = k, order = Some ord\<rparr>
      in if holds_key scope k then Inr (push_held h scope)
      else (case check_order k ord (unorderedSite \<noteq> None) (held scope) of
          Some e \<Rightarrow> Inl e
        | None \<Rightarrow> Inr (push_held h scope)))"

definition startSoleClaim :: "nat \<Rightarrow> string \<Rightarrow> string \<Rightarrow> lock_scope \<Rightarrow> lock_error + lock_scope" where
  "startSoleClaim i parentGuid name scope =
     (let k = accountNameLockKey parentGuid name; h = \<lparr>ident = i, key = k, order = None\<rparr>
      in if holds_key scope k then Inr (push_held h scope)
      else if held scope \<noteq> [] then Inl (SoleBesideOthers k)
      else Inr (push_held h scope))"

text \<open>The two functions, run to the end with nothing else in flight.\<close>

definition acquireAccountNameLock ::
    "raw_client \<Rightarrow> nat \<Rightarrow> string \<Rightarrow> string \<Rightarrow> lock_order \<Rightarrow> string option \<Rightarrow> lock_scope
      \<Rightarrow> (lock_error + bool) \<times> lock_scope" where
  "acquireAccountNameLock tx i parentGuid name ord unorderedSite scope =
     (case startOrderedClaim i parentGuid name ord unorderedSite scope of
        Inl e \<Rightarrow> (Inl e, scope)
      | Inr scope' \<Rightarrow> settleClaim tx i (accountNameLockKey parentGuid name) scope')"

definition acquireSoleAccountNameLock ::
    "raw_client \<Rightarrow> nat \<Rightarrow> string \<Rightarrow> string \<Rightarrow> lock_scope \<Rightarrow> (lock_error + bool) \<times> lock_scope" where
  "acquireSoleAccountNameLock tx i parentGuid name scope =
     (case startSoleClaim i parentGuid name scope of
        Inl e \<Rightarrow> (Inl e, scope)
      | Inr scope' \<Rightarrow> settleClaim tx i (accountNameLockKey parentGuid name) scope')"

section \<open>Rows of the account table\<close>

text \<open>Outside a transaction there is no scope and nothing is recorded (\<open>None\<close>).\<close>

definition noteAccountRowInserted :: "string \<Rightarrow> lock_scope option \<Rightarrow> lock_scope option" where
  "noteAccountRowInserted guid = map_option (\<lambda>scope. scope\<lparr>inserted := insert guid (inserted scope)\<rparr>)"

definition noteAccountRowLocked :: "string \<Rightarrow> lock_scope option \<Rightarrow> lock_error + lock_scope option" where
  "noteAccountRowLocked guid st = (case st of
      None \<Rightarrow> Inr None
    | Some scope \<Rightarrow>
        if held scope \<noteq> [] then Inl (RowLockUnderNameLock guid)
        else Inr (Some (scope\<lparr>rowLocked := insert guid (rowLocked scope)\<rparr>)))"

text \<open>
  The \<open>where\<close> argument of a Prisma call, as far as the guard looks into it: no object, or
  an object whose \<open>guid\<close> is a string, an object with an \<open>in\<close> list (\<open>None\<close> for an element
  that is no string), or anything else.
\<close>

datatype guid_filter = GuidIs string | GuidIn "string option list" | GuidOther

datatype where_arg = NoObject | WhereGuid guid_filter

definition guidsTargetedBy :: "where_arg \<Rightarrow> string list option" where
  "guidsTargetedBy w = (case w of
      NoObject \<Rightarrow> None
    | WhereGuid (GuidIs g) \<Rightarrow> Some [g]
    | WhereGuid (GuidIn gs) \<Rightarrow> if list_all (\<lambda>g. g \<noteq> None) gs then Some (map the gs) else None
    | WhereGuid GuidOther \<Rightarrow> None)"

definition assertAccountRowWriteAllowed :: "where_arg \<Rightarrow> lock_scope option \<Rightarrow> lock_error + unit" where
  "assertAccountRowWriteAllowed w st = (case st of
      None \<Rightarrow> Inr ()
    | Some scope \<Rightarrow>
        if held scope = [] then Inr ()
        else (case guidsTargetedBy w of
            Some gs \<Rightarrow>
              if list_all (\<lambda>g. g \<in> inserted scope \<or> g \<in> rowLocked scope) gs then Inr ()
              else Inl RowWriteUnderNameLock
          | None \<Rightarrow> Inl RowWriteUnderNameLock))"

datatype guard_mode = GuardThrow | GuardWarn | GuardOff

definition rowWriteGuardMode :: "string option \<Rightarrow> string option \<Rightarrow> guard_mode" where
  "rowWriteGuardMode override node_env =
     (if override = Some ''throw'' then GuardThrow
      else if override = Some ''warn'' then GuardWarn
      else if override = Some ''off'' then GuardOff
      else if node_env = Some ''production'' then GuardWarn else GuardThrow)"

text \<open>A warning lets the write go on.\<close>

definition guardAccountRowWrite :: "guard_mode \<Rightarrow> where_arg \<Rightarrow> lock_scope option \<Rightarrow> lock_error + unit" where
  "guardAccountRowWrite mode w st =
     (if mode = GuardOff then Inr ()
      else (case assertAccountRowWriteAllowed w st of
          Inr u \<Rightarrow> Inr u
        | Inl e \<Rightarrow> if mode = GuardThrow \<or> e \<noteq> RowWriteUnderNameLock then Inl e else Inr ()))"

section \<open>The order is a total order on positions\<close>

lemma compare_paths_sign:
  "compare_paths as bs < 0 \<longleftrightarrow> as < bs" "compare_paths as bs = 0 \<longleftrightarrow> as = bs"
proof (induction as arbitrary: bs)
  case Nil
  { case 1 then show ?case by (cases bs) auto }
  { case 2 then show ?case by (cases bs) auto }
next
  case (Cons a as)
  { case 1 then show ?case using Cons.IH by (cases bs) (auto dest: less_asym) }
  { case 2 then show ?case using Cons.IH by (cases bs) auto }
qed

lemma compareLockOrder_le:
  "compareLockOrder a b \<le> 0 \<longleftrightarrow>
     book_root a < book_root b \<or> book_root a = book_root b \<and> path a \<le> path b"
  using compare_paths_sign [of "path a" "path b"]
  by (auto simp: compareLockOrder_def le_less dest: less_asym)

lemma compareLockOrder_eq: "compareLockOrder a b = 0 \<longleftrightarrow> a = (b :: lock_order)"
  by (cases a; cases b) (simp add: compareLockOrder_def compare_paths_sign)

lemma compareLockOrder_total: "compareLockOrder a b \<le> 0 \<or> compareLockOrder b a \<le> 0"
  using less_linear [of "book_root a" "book_root b"] linear [of "path a" "path b"]
  by (auto simp: compareLockOrder_le)

lemma compareLockOrder_trans:
  "compareLockOrder a b \<le> 0 \<Longrightarrow> compareLockOrder b c \<le> 0 \<Longrightarrow> compareLockOrder a c \<le> 0"
  by (auto simp: compareLockOrder_le intro: order_trans less_trans)

lemma compareLockOrder_antisym:
  "compareLockOrder a b \<le> 0 \<Longrightarrow> compareLockOrder b a \<le> 0 \<Longrightarrow> a = (b :: lock_order)"
  by (cases a; cases b) (auto simp: compareLockOrder_le dest: less_asym)

lemma compareLockOrder_neg:
  "compareLockOrder a b < 0 \<longleftrightarrow> \<not> compareLockOrder b a \<le> 0"
  for a b :: lock_order
  using compareLockOrder_antisym [of a b] compareLockOrder_eq [of a b] compareLockOrder_eq [of b a]
    compareLockOrder_total [of a b] by auto

interpretation lock_cmp: comparison compareLockOrder
proof unfold_locales
  show "0 < compareLockOrder x y \<Longrightarrow> compareLockOrder y x \<le> 0" for x y
    using compareLockOrder_total [of x y] by auto
qed (rule compareLockOrder_trans)

interpretation lock_cmp_by: comparison "\<lambda>a b. compareLockOrder (f a) (f b)" for f :: "'a \<Rightarrow> lock_order"
  by unfold_locales (auto intro: lock_cmp.swap lock_cmp.trans)

lemma prefix_first: "compareLockOrder \<lparr>book_root = r, path = p\<rparr> \<lparr>book_root = r, path = p @ q\<rparr> \<le> 0"
proof -
  have "p \<le> p @ q" by (induction p) auto
  then show ?thesis by (simp add: compareLockOrder_le)
qed

section \<open>What a granted claim tells\<close>

lemma check_order_None_iff:
  "check_order k ord waived hs = None \<longleftrightarrow>
     list_all (\<lambda>h. \<exists>o'. order h = Some o' \<and> (waived \<or> \<not> compareLockOrder ord o' < 0)) hs"
  by (induction hs) (auto split: option.splits)

lemma holds_key_iff: "holds_key sc k \<longleftrightarrow> k \<in> key ` set (held sc)"
  by (auto simp: holds_key_def list_ex_iff)

lemma held_push [simp]: "held (push_held h sc) = held sc @ [h]"
  "inserted (push_held h sc) = inserted sc" "rowLocked (push_held h sc) = rowLocked sc"
  by (simp_all add: push_held_def)

lemma startOrderedClaim_Inr:
  "startOrderedClaim i p n ord site sc = Inr sc' \<Longrightarrow>
     sc' = push_held \<lparr>ident = i, key = accountNameLockKey p n, order = Some ord\<rparr> sc \<and>
     path ord \<noteq> [] \<and> last (path ord) = n \<and>
     (accountNameLockKey p n \<in> key ` set (held sc) \<or>
      (\<forall>h \<in> set (held sc). \<exists>o'. order h = Some o' \<and> (site \<noteq> None \<or> \<not> compareLockOrder ord o' < 0)))"
  by (auto simp: startOrderedClaim_def Let_def check_order_None_iff holds_key_iff list_all_iff
      split: if_splits option.splits)

lemma startSoleClaim_Inr:
  "startSoleClaim i p n sc = Inr sc' \<Longrightarrow>
     sc' = push_held \<lparr>ident = i, key = accountNameLockKey p n, order = None\<rparr> sc \<and>
     (accountNameLockKey p n \<in> key ` set (held sc) \<or> held sc = [])"
  by (auto simp: startSoleClaim_def Let_def holds_key_iff split: if_splits)

lemma accountNameLockKey_inj:
  assumes "CHR '':'' \<notin> set p" "CHR '':'' \<notin> set q"
  shows "accountNameLockKey p n = accountNameLockKey q m \<longleftrightarrow> p = q \<and> n = m"
proof
  assume "accountNameLockKey p n = accountNameLockKey q m"
  then have "p @ '':'' @ n = q @ '':'' @ m" by (simp add: accountNameLockKey_def)
  then show "p = q \<and> n = m" using assms
    by (auto simp: append_eq_append_conv2 Cons_eq_append_conv append_eq_Cons_conv)
qed auto

section \<open>Many transactions\<close>

text \<open>
  A transaction of the database: its scope, the statements sent and not yet answered (one
  connection answers them in the order sent), and the keys and rows it owns until it ends.
\<close>

datatype request = NameReq string | RowReq string

record txn =
  t_scope :: lock_scope
  t_pending :: "request list"
  t_names :: "string set"
  t_rows :: "string set"

definition idle_txn :: txn where
  "idle_txn = \<lparr>t_scope = newScope, t_pending = [], t_names = {}, t_rows = {}\<rparr>"

definition send :: "lock_scope \<Rightarrow> request list \<Rightarrow> txn \<Rightarrow> txn" where
  "send sc rs t = t\<lparr>t_scope := sc, t_pending := t_pending t @ rs\<rparr>"

text \<open>
  The steps of the system. \<open>hash\<close> is the database's key hash, \<open>pos\<close> the position of a key in
  the account tree and \<open>K\<close> the keys in use. Ordered claims pass their true position and no
  waiver, the row guard throws, and a transaction ends by commit or rollback at any moment
  (a failed statement aborts it).
\<close>

inductive sys_step ::
    "(string \<Rightarrow> int) \<Rightarrow> (string \<Rightarrow> lock_order) \<Rightarrow> string set \<Rightarrow> (nat \<Rightarrow> txn) \<Rightarrow> (nat \<Rightarrow> txn) \<Rightarrow> bool"
  for hash pos K where
  ordered_claim:
    "startOrderedClaim i p n (pos (accountNameLockKey p n)) None (t_scope (s T)) = Inr sc \<Longrightarrow>
     accountNameLockKey p n \<in> K \<Longrightarrow>
     sys_step hash pos K s (s(T := send sc [NameReq (accountNameLockKey p n)] (s T)))"
| sole_claim:
    "startSoleClaim i p n (t_scope (s T)) = Inr sc \<Longrightarrow> accountNameLockKey p n \<in> K \<Longrightarrow>
     sys_step hash pos K s (s(T := send sc [NameReq (accountNameLockKey p n)] (s T)))"
| row_lock:
    "noteAccountRowLocked g (Some (t_scope (s T))) = Inr (Some sc) \<Longrightarrow>
     sys_step hash pos K s (s(T := send sc [RowReq g] (s T)))"
| row_write:
    "guardAccountRowWrite GuardThrow w (Some (t_scope (s T))) = Inr () \<Longrightarrow>
     guidsTargetedBy w = Some gs \<Longrightarrow>
     sys_step hash pos K s (s(T := send (t_scope (s T)) (map RowReq gs) (s T)))"
| row_insert:
    "noteAccountRowInserted g (Some (t_scope (s T))) = Some sc \<Longrightarrow>
     (\<forall>U. U \<noteq> T \<longrightarrow> g \<notin> t_rows (s U)) \<Longrightarrow>
     sys_step hash pos K s (s(T := send sc [] (s T)\<lparr>t_rows := insert g (t_rows (s T))\<rparr>))"
| grant_name:
    "t_pending (s T) = NameReq k # rs \<Longrightarrow>
     (\<forall>U. U \<noteq> T \<longrightarrow> hash k \<notin> hash ` t_names (s U)) \<Longrightarrow>
     sys_step hash pos K s (s(T := s T\<lparr>t_pending := rs, t_names := insert k (t_names (s T))\<rparr>))"
| grant_row:
    "t_pending (s T) = RowReq g # rs \<Longrightarrow> (\<forall>U. U \<noteq> T \<longrightarrow> g \<notin> t_rows (s U)) \<Longrightarrow>
     sys_step hash pos K s (s(T := s T\<lparr>t_pending := rs, t_rows := insert g (t_rows (s T))\<rparr>))"
| finish: "sys_step hash pos K s (s(T := idle_txn))"

inductive sys_reachable ::
    "(string \<Rightarrow> int) \<Rightarrow> (string \<Rightarrow> lock_order) \<Rightarrow> string set \<Rightarrow> (nat \<Rightarrow> txn) \<Rightarrow> bool"
  for hash pos K where
  start: "sys_reachable hash pos K (\<lambda>T. idle_txn)"
| step: "sys_reachable hash pos K s \<Longrightarrow> sys_step hash pos K s s' \<Longrightarrow> sys_reachable hash pos K s'"

text \<open>\<open>T\<close> waits for \<open>U\<close>: the statement at the head of its queue asks for what \<open>U\<close> owns.\<close>

definition waits :: "(string \<Rightarrow> int) \<Rightarrow> (nat \<Rightarrow> txn) \<Rightarrow> nat \<Rightarrow> nat \<Rightarrow> bool" where
  "waits hash s T U \<longleftrightarrow> T \<noteq> U \<and> (case t_pending (s T) of
       [] \<Rightarrow> False
     | NameReq k # _ \<Rightarrow> hash k \<in> hash ` t_names (s U)
     | RowReq g # _ \<Rightarrow> g \<in> t_rows (s U))"

section \<open>The invariant\<close>

definition before :: "lock_order \<Rightarrow> lock_order \<Rightarrow> bool" where
  "before a b \<longleftrightarrow> compareLockOrder a b < 0"

lemma before_trans: "before a b \<Longrightarrow> before b c \<Longrightarrow> before a c"
  using compareLockOrder_trans [of c a b] compareLockOrder_total [of a b] by (auto simp: before_def compareLockOrder_neg)

lemma before_irrefl: "\<not> before a a"
  using compareLockOrder_eq [of a a] by (simp add: before_def)

fun req_names :: "request list \<Rightarrow> string set" where
  "req_names [] = {}"
| "req_names (NameReq k # rs) = insert k (req_names rs)"
| "req_names (RowReq g # rs) = req_names rs"

fun req_rows :: "request list \<Rightarrow> string set" where
  "req_rows [] = {}"
| "req_rows (NameReq k # rs) = req_rows rs"
| "req_rows (RowReq g # rs) = insert g (req_rows rs)"

text \<open>
  With the keys \<open>N\<close> and the rows \<open>R\<close> owned, every queued key request asks for a key already
  owned by then or for one after all of them, and every queued row request that comes after
  a key asks for a row already owned by then.
\<close>

fun pending_ok :: "(string \<Rightarrow> lock_order) \<Rightarrow> string set \<Rightarrow> string set \<Rightarrow> request list \<Rightarrow> bool" where
  "pending_ok pos N R [] = True"
| "pending_ok pos N R (NameReq k # rs) =
     ((k \<in> N \<or> (\<forall>k' \<in> N. before (pos k') (pos k))) \<and> pending_ok pos (insert k N) R rs)"
| "pending_ok pos N R (RowReq g # rs) =
     ((N \<noteq> {} \<longrightarrow> g \<in> R) \<and> pending_ok pos N (insert g R) rs)"

lemma pending_ok_append:
  "pending_ok pos N R (rs @ qs) \<longleftrightarrow>
     pending_ok pos N R rs \<and> pending_ok pos (N \<union> req_names rs) (R \<union> req_rows rs) qs"
  by (induction pos N R rs rule: pending_ok.induct) auto

lemma pending_ok_rows:
  "N = {} \<or> set gs \<subseteq> R \<Longrightarrow> pending_ok pos N R (map RowReq gs)"
  by (induction gs arbitrary: R) (auto, meson subset_insertI2)

lemma req_append [simp]: "req_names (rs @ qs) = req_names rs \<union> req_names qs"
  "req_rows (rs @ qs) = req_rows rs \<union> req_rows qs"
  by (induction rs rule: req_names.induct) auto

lemma req_map_RowReq [simp]: "req_names (map RowReq gs) = {}" "req_rows (map RowReq gs) = set gs"
  by (induction gs) auto

definition txn_ok :: "(string \<Rightarrow> lock_order) \<Rightarrow> string set \<Rightarrow> txn \<Rightarrow> bool" where
  "txn_ok pos K t \<longleftrightarrow>
     (\<forall>h \<in> set (held (t_scope t)). key h \<in> K \<and> (\<forall>o'. order h = Some o' \<longrightarrow> o' = pos (key h))) \<and>
     key ` set (held (t_scope t)) = t_names t \<union> req_names (t_pending t) \<and>
     pending_ok pos (t_names t) (t_rows t) (t_pending t) \<and>
     inserted (t_scope t) \<subseteq> t_rows t \<and>
     rowLocked (t_scope t) \<subseteq> t_rows t \<union> req_rows (t_pending t)"

lemma txn_ok_idle: "txn_ok pos K idle_txn"
  by (simp add: txn_ok_def idle_txn_def newScope_def)

lemma txn_ok_claim:
  assumes "txn_ok pos K t" "k \<in> K" "ord = None \<or> ord = Some (pos k)"
    and "k \<in> key ` set (held (t_scope t)) \<or>
      (\<forall>h \<in> set (held (t_scope t)). key h \<noteq> k \<and> before (pos (key h)) (pos k))"
  shows "txn_ok pos K (send (push_held \<lparr>ident = i, key = k, order = ord\<rparr> (t_scope t)) [NameReq k] t)"
proof -
  have "k \<in> t_names t \<union> req_names (t_pending t) \<or>
      (\<forall>k' \<in> t_names t \<union> req_names (t_pending t). before (pos k') (pos k))"
    using assms(1,4) unfolding txn_ok_def by (metis imageE)
  then show ?thesis using assms
    by (auto simp: txn_ok_def send_def pending_ok_append)
qed

lemma txn_ok_rows:
  assumes "txn_ok pos K t"
    and "held (t_scope t) = [] \<or> set gs \<subseteq> inserted (t_scope t) \<union> rowLocked (t_scope t)"
    and "held sc = held (t_scope t)" "inserted sc = inserted (t_scope t)"
    and "rowLocked sc \<subseteq> rowLocked (t_scope t) \<union> set gs"
  shows "txn_ok pos K (send sc (map RowReq gs) t)"
proof -
  have "t_names t \<union> req_names (t_pending t) = {} \<or> set gs \<subseteq> t_rows t \<union> req_rows (t_pending t)"
    using assms(1,2) unfolding txn_ok_def by auto
  from pending_ok_rows [OF this] show ?thesis using assms
    by (auto simp: txn_ok_def send_def pending_ok_append)
qed

lemma pending_ok_mono: "pending_ok pos N R rs \<Longrightarrow> R \<subseteq> R' \<Longrightarrow> pending_ok pos N R' rs"
  by (induction pos N R rs arbitrary: R' rule: pending_ok.induct) auto

definition sys_ok :: "(string \<Rightarrow> int) \<Rightarrow> (string \<Rightarrow> lock_order) \<Rightarrow> string set \<Rightarrow> (nat \<Rightarrow> txn) \<Rightarrow> bool" where
  "sys_ok hash pos K s \<longleftrightarrow> (\<forall>T. txn_ok pos K (s T)) \<and>
     (\<forall>T U. T \<noteq> U \<longrightarrow> hash ` t_names (s T) \<inter> hash ` t_names (s U) = {} \<and>
       t_rows (s T) \<inter> t_rows (s U) = {})"

lemma sys_ok_update:
  assumes "sys_ok hash pos K s" "txn_ok pos K t"
    and "\<And>U. U \<noteq> T \<Longrightarrow> hash ` t_names t \<inter> hash ` t_names (s U) = {}"
    and "\<And>U. U \<noteq> T \<Longrightarrow> t_rows t \<inter> t_rows (s U) = {}"
  shows "sys_ok hash pos K (s(T := t))"
  using assms unfolding sys_ok_def by (auto simp: Int_commute)

lemma sys_ok_own:
  assumes "sys_ok hash pos K s" "txn_ok pos K t" "t_names t = t_names (s T)" "t_rows t = t_rows (s T)"
  shows "sys_ok hash pos K (s(T := t))"
proof (rule sys_ok_update [OF assms(1,2)])
  fix U assume "U \<noteq> T"
  then show "hash ` t_names t \<inter> hash ` t_names (s U) = {}" "t_rows t \<inter> t_rows (s U) = {}"
    using assms(1) unfolding sys_ok_def assms(3,4) by metis+
qed

lemma send_own [simp]: "t_names (send sc rs t) = t_names t" "t_rows (send sc rs t) = t_rows t"
  by (simp_all add: send_def)

lemma sys_step_ok:
  assumes "sys_step hash pos K s s'" "sys_ok hash pos K s" "inj_on pos K"
  shows "sys_ok hash pos K s'"
proof -
  have t: "txn_ok pos K (s T)" for T using assms(2) by (simp add: sys_ok_def)
  show ?thesis using assms(1)
  proof cases
    case (ordered_claim i p n T sc)
    let ?k = "accountNameLockKey p n"
    note st = startOrderedClaim_Inr [OF ordered_claim(2)]
    have "?k \<in> key ` set (held (t_scope (s T))) \<or>
      (\<forall>h \<in> set (held (t_scope (s T))). key h \<noteq> ?k \<and> before (pos (key h)) (pos ?k))"
    proof (cases "?k \<in> key ` set (held (t_scope (s T)))")
      case False
      have "key h \<noteq> ?k \<and> before (pos (key h)) (pos ?k)" if h: "h \<in> set (held (t_scope (s T)))" for h
      proof -
        have ne: "key h \<noteq> ?k" using False h by (metis imageI)
        have "key h \<in> K" "\<not> compareLockOrder (pos ?k) (pos (key h)) < 0"
          using t [of T] h st False by (fastforce simp: txn_ok_def)+
        then show ?thesis using ne inj_onD [OF assms(3) _ _ ordered_claim(3)]
          by (metis before_def compareLockOrder_antisym compareLockOrder_neg)
      qed
      then show ?thesis by blast
    qed blast
    then show ?thesis using st ordered_claim t [of T]
      by (auto intro!: sys_ok_own [OF assms(2)] txn_ok_claim)
  next
    case (sole_claim i p n T sc)
    then show ?thesis using startSoleClaim_Inr [OF sole_claim(2)] t [of T]
      by (auto intro!: sys_ok_own [OF assms(2)] txn_ok_claim)
  next
    case (row_lock g T sc)
    then have "txn_ok pos K (send sc (map RowReq [g]) (s T))"
      by (intro txn_ok_rows t) (auto simp: noteAccountRowLocked_def split: if_splits)
    then show ?thesis using row_lock by (auto intro: sys_ok_own [OF assms(2)])
  next
    case (row_write w T gs)
    then have "txn_ok pos K (send (t_scope (s T)) (map RowReq gs) (s T))"
      by (intro txn_ok_rows t)
        (auto simp: guardAccountRowWrite_def assertAccountRowWriteAllowed_def list_all_iff
          split: if_splits sum.splits)
    then show ?thesis using row_write by (auto intro: sys_ok_own [OF assms(2)])
  next
    case (row_insert g T sc)
    have "txn_ok pos K (send sc [] (s T)\<lparr>t_rows := insert g (t_rows (s T))\<rparr>)"
      using t [of T] row_insert(2)
      by (auto simp: txn_ok_def send_def noteAccountRowInserted_def intro: pending_ok_mono)
    then show ?thesis unfolding row_insert(1)
      by (rule sys_ok_update [OF assms(2)]) (use row_insert(3) assms(2) in \<open>auto simp: sys_ok_def send_def\<close>)
  next
    case (grant_name T k rs)
    have "txn_ok pos K (s T\<lparr>t_pending := rs, t_names := insert k (t_names (s T))\<rparr>)"
      using t [of T] grant_name(2) by (auto simp: txn_ok_def)
    then show ?thesis unfolding grant_name(1)
      by (rule sys_ok_update [OF assms(2)]) (use grant_name(3) assms(2) in \<open>auto simp: sys_ok_def\<close>)
  next
    case (grant_row T g rs)
    have "txn_ok pos K (s T\<lparr>t_pending := rs, t_rows := insert g (t_rows (s T))\<rparr>)"
      using t [of T] grant_row(2) by (auto simp: txn_ok_def)
    then show ?thesis unfolding grant_row(1)
      by (rule sys_ok_update [OF assms(2)]) (use grant_row(3) assms(2) in \<open>auto simp: sys_ok_def\<close>)
  next
    case (finish T)
    show ?thesis unfolding finish
      by (rule sys_ok_update [OF assms(2) txn_ok_idle]) (simp_all add: idle_txn_def)
  qed
qed

lemma sys_reachable_ok:
  assumes "sys_reachable hash pos K s" "inj_on pos K"
  shows "sys_ok hash pos K s"
  using assms(1)
proof (induction rule: sys_reachable.induct)
  case start
  show ?case by (simp add: sys_ok_def txn_ok_idle) (simp add: idle_txn_def)
next
  case (step s s')
  then show ?case using sys_step_ok assms(2) by blast
qed

section \<open>No cycle through a name lock\<close>

definition waits_name :: "(nat \<Rightarrow> txn) \<Rightarrow> nat \<Rightarrow> string \<Rightarrow> bool" where
  "waits_name s T k \<longleftrightarrow> (\<exists>rs. t_pending (s T) = NameReq k # rs)"

lemma txn_ok_keys: "txn_ok pos K t \<Longrightarrow> t_names t \<union> req_names (t_pending t) \<subseteq> K"
  unfolding txn_ok_def by (metis imageE subsetI)

lemma waits_ascends:
  assumes ok: "sys_ok hash pos K s" and inj: "inj_on hash K"
    and k: "waits_name s T k" and wait: "waits hash s T U" and next_wait: "waits hash s U V"
  obtains k' where "waits_name s U k'" "before (pos k) (pos k')"
proof -
  have tok: "txn_ok pos K (s X)" for X using ok by (simp add: sys_ok_def)
  have disj: "hash ` t_names (s X) \<inter> hash ` t_names (s Y) = {}" "t_rows (s X) \<inter> t_rows (s Y) = {}"
    if "X \<noteq> Y" for X Y using ok that unfolding sys_ok_def by metis+
  have names: "t_names (s X) \<union> req_names (t_pending (s X)) \<subseteq> K" for X
    using txn_ok_keys [OF tok [of X]] .
  obtain rs where rs: "t_pending (s T) = NameReq k # rs" using k by (auto simp: waits_name_def)
  have kK: "k \<in> K" using names [of T] rs by simp
  obtain k1 where "k1 \<in> t_names (s U)" "hash k1 = hash k"
    using wait rs by (auto simp: waits_def)
  then have kU: "k \<in> t_names (s U)" using names [of U] inj_onD [OF inj _ _ kK] by (metis UnCI subsetD)
  show ?thesis
  proof (cases "t_pending (s U)")
    case Nil
    then show ?thesis using next_wait by (simp add: waits_def)
  next
    case (Cons r qs)
    show ?thesis
    proof (cases r)
      case (NameReq k2)
      have "k2 \<notin> t_names (s U)"
        using next_wait Cons NameReq disj(1) [of U V] by (auto simp: waits_def)
      then have "before (pos k) (pos k2)"
        using tok [of U] Cons NameReq kU by (auto simp: txn_ok_def)
      then show ?thesis using that Cons NameReq by (auto simp: waits_name_def)
    next
      case (RowReq g)
      then have "g \<in> t_rows (s U)" using tok [of U] Cons kU by (auto simp: txn_ok_def)
      then show ?thesis using next_wait Cons RowReq disj(2) [of U V] by (auto simp: waits_def)
    qed
  qed
qed

lemma waits_chain_ascends:
  assumes ok: "sys_ok hash pos K s" and inj: "inj_on hash K" and k: "waits_name s T k"
    and chain: "(waits hash s)\<^sup>+\<^sup>+ T V" and next_wait: "waits hash s V W"
  shows "\<exists>k'. waits_name s V k' \<and> before (pos k) (pos k')"
  using chain next_wait
proof (induction arbitrary: W rule: tranclp_induct)
  case (base U)
  then show ?case using waits_ascends [OF ok inj k] by metis
next
  case (step U V)
  from step.IH [OF step.hyps(2)] obtain k1 where k1: "waits_name s U k1" "before (pos k) (pos k1)"
    by blast
  show ?case using waits_ascends [OF ok inj k1(1) step.hyps(2) step.prems] before_trans [OF k1(2)]
    by metis
qed

lemma waits_name_acyclic:
  assumes "sys_ok hash pos K s" "inj_on hash K" "waits_name s T k"
  shows "\<not> (waits hash s)\<^sup>+\<^sup>+ T T"
proof
  assume c: "(waits hash s)\<^sup>+\<^sup>+ T T"
  then obtain W where "waits hash s T W" by (metis tranclpD)
  from waits_chain_ascends [OF assms c this] obtain k' where
    "waits_name s T k'" "before (pos k) (pos k')" by blast
  then show False using assms(3) before_irrefl by (auto simp: waits_name_def)
qed



text \<open>
  RULE 1's other premise does not always hold: one parent may have two keys with the
  same position, since the position does not name the parent. Two transactions may then take
  such keys in opposite orders and neither is refused.
\<close>

theorem same_position_taken_both_ways:
  assumes "accountNameLockKey p n \<noteq> accountNameLockKey q n" "path ord \<noteq> []" "last (path ord) = n"
  shows "(\<exists>sc1 sc2. startOrderedClaim 0 p n ord None newScope = Inr sc1 \<and>
      startOrderedClaim 1 q n ord None sc1 = Inr sc2) \<and>
    (\<exists>sc1 sc2. startOrderedClaim 0 q n ord None newScope = Inr sc1 \<and>
      startOrderedClaim 1 p n ord None sc1 = Inr sc2)"
  using assms compareLockOrder_eq [of ord ord]
  by (simp add: startOrderedClaim_def Let_def holds_key_def newScope_def push_held_def)

theorem same_position_taken_both_ways_witness:
  "\<exists>sc1 sc2. startOrderedClaim 0 ''p'' ''Cash'' \<lparr>book_root = ''r'', path = [''A'', ''Cash'']\<rparr> None newScope = Inr sc1 \<and>
     startOrderedClaim 1 ''q'' ''Cash'' \<lparr>book_root = ''r'', path = [''A'', ''Cash'']\<rparr> None sc1 = Inr sc2"
proof -
  let ?o = "\<lparr>book_root = ''r'', path = [''A'', ''Cash'']\<rparr> :: lock_order"
  have "accountNameLockKey ''p'' ''Cash'' \<noteq> accountNameLockKey ''q'' ''Cash''"
    "path ?o \<noteq> []" "last (path ?o) = ''Cash''"
    by (simp_all add: accountNameLockKey_def)
  from same_position_taken_both_ways [OF this] show ?thesis by blast
qed

section \<open>Sorted claims are accepted, backward claims are not\<close>

text \<open>The callers' loop: sort the whole key set, then claim one key after another.\<close>

record key_claim =
  claim_parent :: string
  claim_name :: string
  claim_order :: lock_order

fun claim_all :: "nat \<Rightarrow> key_claim list \<Rightarrow> lock_scope \<Rightarrow> lock_error + lock_scope" where
  "claim_all i [] scope = Inr scope"
| "claim_all i (c # cs) scope =
     (case acquireAccountNameLock (Transaction True) i (claim_parent c) (claim_name c) (claim_order c) None scope of
        (Inl e, scope') \<Rightarrow> Inl e
      | (Inr b, scope') \<Rightarrow> claim_all (Suc i) cs scope')"

definition claimSorted :: "key_claim list \<Rightarrow> lock_error + lock_scope" where
  "claimSorted cs = claim_all 0 (sortByLockOrder claim_order cs) newScope"

definition claim_ok :: "key_claim \<Rightarrow> bool" where
  "claim_ok c \<longleftrightarrow> path (claim_order c) \<noteq> [] \<and> last (path (claim_order c)) = claim_name c"

lemma acquire_granted:
  assumes "claim_ok c"
    and "\<forall>h \<in> set (held scope). \<exists>o'. order h = Some o' \<and> compareLockOrder o' (claim_order c) \<le> 0"
  shows "acquireAccountNameLock (Transaction True) i (claim_parent c) (claim_name c) (claim_order c) None scope =
    (Inr True, push_held \<lparr>ident = i, key = accountNameLockKey (claim_parent c) (claim_name c),
       order = Some (claim_order c)\<rparr> scope)"
proof -
  have "check_order k (claim_order c) False (held scope) = None" for k
    using assms(2) unfolding check_order_None_iff list_all_iff by (metis compareLockOrder_neg)
  then show ?thesis using assms(1)
    by (auto simp: acquireAccountNameLock_def startOrderedClaim_def claim_ok_def Let_def settleClaim_def
        acquireAccountKeyLockUnchecked_def)
qed

lemma claim_all_sorted:
  assumes "\<forall>c \<in> set cs. claim_ok c"
    and "sorted_wrt (\<lambda>a b. compareLockOrder (claim_order a) (claim_order b) \<le> 0) cs"
    and "\<forall>h \<in> set (held scope). \<exists>o'. order h = Some o' \<and>
      (\<forall>c \<in> set cs. compareLockOrder o' (claim_order c) \<le> 0)"
  shows "\<exists>scope'. claim_all i cs scope = Inr scope' \<and>
    map key (held scope') = map key (held scope) @
      map (\<lambda>c. accountNameLockKey (claim_parent c) (claim_name c)) cs"
  using assms
proof (induction cs arbitrary: i scope)
  case (Cons c cs)
  let ?h = "\<lparr>ident = i, key = accountNameLockKey (claim_parent c) (claim_name c), order = Some (claim_order c)\<rparr>"
  have g: "acquireAccountNameLock (Transaction True) i (claim_parent c) (claim_name c) (claim_order c) None scope =
    (Inr True, push_held ?h scope)"
    by (rule acquire_granted) (use Cons.prems in fastforce)+
  have "\<exists>scope'. claim_all (Suc i) cs (push_held ?h scope) = Inr scope' \<and>
    map key (held scope') = map key (held (push_held ?h scope)) @
      map (\<lambda>c. accountNameLockKey (claim_parent c) (claim_name c)) cs"
  proof (rule Cons.IH)
    show "\<forall>h \<in> set (held (push_held ?h scope)). \<exists>o'. order h = Some o' \<and>
      (\<forall>c \<in> set cs. compareLockOrder o' (claim_order c) \<le> 0)"
      using Cons.prems by fastforce
  qed (use Cons.prems in simp_all)
  then show ?case by (simp add: g)
qed simp

lemma mset_sortByLockOrder: "mset (sortByLockOrder f xs) = mset xs"
  by (simp add: sortByLockOrder_def)

lemma sorted_sortByLockOrder:
  "sorted_wrt (\<lambda>a b. compareLockOrder (f a) (f b) \<le> 0) (sortByLockOrder f xs)"
  unfolding sortByLockOrder_def by (rule lock_cmp_by.sorted_stable_sort)

text \<open>
  A caller that sorts its whole key set before it claims is never refused, and ends
  up holding exactly the keys of its set.
\<close>

theorem sorted_claims_granted:
  assumes "\<forall>c \<in> set cs. claim_ok c"
  shows "\<exists>scope. claimSorted cs = Inr scope \<and>
    image_mset key (mset (held scope)) =
      image_mset (\<lambda>c. accountNameLockKey (claim_parent c) (claim_name c)) (mset cs)"
proof -
  have s: "set (sortByLockOrder claim_order cs) = set cs"
    by (rule mset_eq_setD [OF mset_sortByLockOrder])
  have "\<exists>scope. claim_all 0 (sortByLockOrder claim_order cs) newScope = Inr scope \<and>
    map key (held scope) = map key (held newScope) @
      map (\<lambda>c. accountNameLockKey (claim_parent c) (claim_name c)) (sortByLockOrder claim_order cs)"
    by (rule claim_all_sorted) (unfold s, rule assms, rule sorted_sortByLockOrder, simp add: newScope_def)
  then obtain scope where "claimSorted cs = Inr scope"
    "map key (held scope) =
      map (\<lambda>c. accountNameLockKey (claim_parent c) (claim_name c)) (sortByLockOrder claim_order cs)"
    by (auto simp: claimSorted_def newScope_def)
  then show ?thesis by (metis mset_map mset_sortByLockOrder)
qed

theorem sorted_claims_granted_witness:
  "\<exists>scope. claimSorted
      [\<lparr>claim_parent = ''t'', claim_name = ''USD'', claim_order = \<lparr>book_root = ''r'', path = [''Trading'', ''USD'']\<rparr>\<rparr>,
       \<lparr>claim_parent = ''t'', claim_name = ''EUR'', claim_order = \<lparr>book_root = ''r'', path = [''Trading'', ''EUR'']\<rparr>\<rparr>]
    = Inr scope"
  using sorted_claims_granted
    [of "[\<lparr>claim_parent = ''t'', claim_name = ''USD'', claim_order = \<lparr>book_root = ''r'', path = [''Trading'', ''USD'']\<rparr>\<rparr>,
       \<lparr>claim_parent = ''t'', claim_name = ''EUR'', claim_order = \<lparr>book_root = ''r'', path = [''Trading'', ''EUR'']\<rparr>\<rparr>]"]
  by (auto simp: claim_ok_def)

text \<open>
  A claim that runs backwards past any key of the transaction is refused, and so is any
  second key after a sole claim: the scope is left as it was.
\<close>

theorem backward_claim_refused:
  assumes "\<forall>h \<in> set (held scope). key h \<noteq> accountNameLockKey p n"
    and "h \<in> set (held scope)" "\<forall>o'. order h = Some o' \<longrightarrow> compareLockOrder ord o' < 0"
  shows "\<exists>e. acquireAccountNameLock tx i p n ord None scope = (Inl e, scope)"
proof -
  have "check_order (accountNameLockKey p n) ord False (held scope) \<noteq> None"
    using assms(2,3) unfolding check_order_None_iff list_all_iff by fastforce
  moreover have "\<not> holds_key scope (accountNameLockKey p n)"
    using assms(1) by (auto simp: holds_key_iff)
  ultimately show ?thesis
    by (auto simp: acquireAccountNameLock_def startOrderedClaim_def Let_def)
qed

theorem backward_claim_refused_witness:
  "\<exists>e. acquireAccountNameLock (Transaction True) 1 ''t'' ''EUR'' \<lparr>book_root = ''r'', path = [''EUR'']\<rparr> None
      \<lparr>held = [\<lparr>ident = 0, key = accountNameLockKey ''t'' ''USD'', order = Some \<lparr>book_root = ''r'', path = [''USD'']\<rparr>\<rparr>],
       inserted = {}, rowLocked = {}\<rparr>
    = (Inl e, \<lparr>held = [\<lparr>ident = 0, key = accountNameLockKey ''t'' ''USD'', order = Some \<lparr>book_root = ''r'', path = [''USD'']\<rparr>\<rparr>],
       inserted = {}, rowLocked = {}\<rparr>)"
  by (rule backward_claim_refused [where h = "\<lparr>ident = 0, key = accountNameLockKey ''t'' ''USD'',
        order = Some \<lparr>book_root = ''r'', path = [''USD'']\<rparr>\<rparr>"])
    (simp_all add: accountNameLockKey_def compareLockOrder_def less_char_def)

lemma remove_entry_snoc: "i \<notin> ident ` set hs \<Longrightarrow> ident h = i \<Longrightarrow> remove_entry i (hs @ [h]) = hs"
  by (induction hs) auto

text \<open>
  A claim whose statement fails takes back its own entry and no other: whatever the
  transaction recorded before, re-entrant claims of the same key included, is unchanged.
\<close>

theorem failed_claim_leaves_no_trace:
  assumes "i \<notin> ident ` set (held scope)"
  shows "snd (acquireAccountNameLock (Transaction False) i p n ord site scope) = scope \<and>
    snd (acquireSoleAccountNameLock (Transaction False) i p n scope) = scope"
  using assms
  by (auto simp: acquireAccountNameLock_def acquireSoleAccountNameLock_def settleClaim_def
      acquireAccountKeyLockUnchecked_def remove_entry_snoc dest!: startOrderedClaim_Inr startSoleClaim_Inr
      split: sum.splits)

theorem failed_claim_leaves_no_trace_witness:
  "snd (acquireSoleAccountNameLock (Transaction False) 0 ''p'' ''Cash'' newScope) = newScope"
  using failed_claim_leaves_no_trace [of 0 newScope] by (simp add: newScope_def)

text \<open>
  While a transaction holds a name key, the throwing guard lets an account write through
  exactly when every row it targets was inserted or row-locked by the transaction; the mode a
  production server runs in without an override lets every write through.
\<close>

theorem row_guard_by_mode:
  "(guardAccountRowWrite GuardThrow w (Some scope) = Inr () \<longleftrightarrow>
     held scope = [] \<or>
     (\<exists>gs. guidsTargetedBy w = Some gs \<and> set gs \<subseteq> inserted scope \<union> rowLocked scope)) \<and>
   guardAccountRowWrite (rowWriteGuardMode None (Some ''production'')) w (Some scope) = Inr ()"
  by (auto simp: guardAccountRowWrite_def rowWriteGuardMode_def assertAccountRowWriteAllowed_def
      list_all_iff subset_iff split: option.splits sum.splits)

end
