(* ===== verification/Account_Walk.thy ===== *)
theory Account_Walk
  imports Lock_Order
begin

text \<open>
  Find-or-create of an account path (src/lib/gnucash.ts, \<open>findOrCreateAccount\<close> and what it
  calls). The table is the list of committed and own account rows in storage order. Other
  transactions commit rows while the walk runs: \<open>arrive i\<close> are the rows that try to be
  committed before the look-up of segment \<open>i\<close> and \<open>arrive_wait i\<close> those that try during the
  wait for its lock. They enter the table as the sibling-name lock lets them (\<open>admit\<close>): a row
  whose name key the walk holds cannot appear, and a row is not added beside a sibling of
  its name. Rows with an empty name (template children) are outside that protocol.
\<close>

record account_row =
  acc_guid :: string
  acc_name :: string
  account_type :: string
  commodity_guid :: string
  commodity_scu :: int
  parent_guid :: string
  non_std_scu :: int
  hidden :: int
  placeholder :: int
  acc_code :: string
  acc_description :: string

record lock_order_base =
  base_root :: string
  prefix :: "string list"
  unordered_site :: "string option"

record walk_state =
  rows :: "account_row list"
  scope :: lock_scope
  claims :: nat
  guids_used :: nat

record walk_env =
  arrive :: "nat \<Rightarrow> account_row list"
  arrive_wait :: "nat \<Rightarrow> account_row list"
  newGuids :: "nat \<Rightarrow> string"

definition sibling :: "string \<Rightarrow> string \<Rightarrow> account_row \<Rightarrow> bool" where
  "sibling parent name r \<longleftrightarrow> acc_name r = name \<and> parent_guid r = parent"

definition findAccount :: "string \<Rightarrow> string \<Rightarrow> account_row list \<Rightarrow> account_row option" where
  "findAccount parent name rs = find (sibling parent name) rs"

definition admissible :: "lock_scope \<Rightarrow> account_row list \<Rightarrow> account_row \<Rightarrow> bool" where
  "admissible sc rs r \<longleftrightarrow> acc_name r = '''' \<or>
     \<not> holds_key sc (accountNameLockKey (parent_guid r) (acc_name r)) \<and>
     findAccount (parent_guid r) (acc_name r) rs = None"

fun admit :: "lock_scope \<Rightarrow> account_row list \<Rightarrow> account_row list \<Rightarrow> account_row list" where
  "admit sc rs [] = rs"
| "admit sc rs (r # new) = admit sc (if admissible sc rs r then rs @ [r] else rs) new"

definition new_account :: "string \<Rightarrow> string \<Rightarrow> string \<Rightarrow> string \<Rightarrow> bool \<Rightarrow> account_row" where
  "new_account guid name currency parent isLast =
     \<lparr>acc_guid = guid, acc_name = name, account_type = ''INCOME'', commodity_guid = currency,
      commodity_scu = 100, parent_guid = parent, non_std_scu = 0, hidden = 0,
      placeholder = (if isLast then 0 else 1), acc_code = '''', acc_description = ''''\<rparr>"

text \<open>The claim of one segment and the second look-up when it locked.\<close>

definition claimSegment ::
    "raw_client \<Rightarrow> walk_env \<Rightarrow> lock_order_base \<Rightarrow> nat \<Rightarrow> string \<Rightarrow> string \<Rightarrow> string list \<Rightarrow> walk_state
      \<Rightarrow> (lock_error + account_row option) \<times> walk_state" where
  "claimSegment tx env ord i parent segment walked st =
     (case acquireAccountNameLock tx (claims st) parent segment
         \<lparr>book_root = base_root ord, path = prefix ord @ walked @ [segment]\<rparr> (unordered_site ord) (scope st) of
       (Inl e, sc) \<Rightarrow> (Inl e, st\<lparr>scope := sc\<rparr>)
     | (Inr locked, sc) \<Rightarrow>
         let rs = admit (scope st) (rows st) (arrive_wait env i);
             st' = st\<lparr>rows := rs, scope := sc, claims := Suc (claims st)\<rparr>
         in (Inr (if locked then findAccount parent segment rs else None), st'))"

definition lookupSegment ::
    "raw_client \<Rightarrow> walk_env \<Rightarrow> lock_order_base \<Rightarrow> nat \<Rightarrow> string \<Rightarrow> string \<Rightarrow> string list \<Rightarrow> walk_state
      \<Rightarrow> (lock_error + account_row option) \<times> walk_state" where
  "lookupSegment tx env ord i parent segment walked st =
     (let st1 = st\<lparr>rows := admit (scope st) (rows st) (arrive env i)\<rparr>
      in case findAccount parent segment (rows st1) of
        Some r \<Rightarrow> (Inr (Some r), st1)
      | None \<Rightarrow> claimSegment tx env ord i parent segment walked st1)"

definition createAccount ::
    "walk_env \<Rightarrow> string \<Rightarrow> string \<Rightarrow> string \<Rightarrow> bool \<Rightarrow> walk_state \<Rightarrow> string \<times> walk_state" where
  "createAccount env segment currency parent isLast st =
     (let guid = newGuids env (guids_used st)
      in (guid, st\<lparr>rows := rows st @ [new_account guid segment currency parent isLast],
            scope := (scope st)\<lparr>inserted := insert guid (inserted (scope st))\<rparr>,
            guids_used := Suc (guids_used st)\<rparr>))"

text \<open>The loop over the segments: the leaf's guid and the guids it inserted, in walk order.\<close>

fun walkSegments ::
    "raw_client \<Rightarrow> walk_env \<Rightarrow> lock_order_base \<Rightarrow> string \<Rightarrow> nat \<Rightarrow> string \<Rightarrow> string list \<Rightarrow> string list \<Rightarrow> walk_state
      \<Rightarrow> (lock_error + string \<times> string list) \<times> walk_state" where
  "walkSegments tx env ord currency i parent walked [] st = (Inr (parent, []), st)"
| "walkSegments tx env ord currency i parent walked (seg # segs) st =
     (case lookupSegment tx env ord i parent seg walked st of
        (Inl e, st') \<Rightarrow> (Inl e, st')
      | (Inr (Some r), st') \<Rightarrow>
          walkSegments tx env ord currency (Suc i) (acc_guid r) (walked @ [seg]) segs st'
      | (Inr None, st') \<Rightarrow>
          (case createAccount env seg currency parent (segs = []) st' of
             (guid, st'') \<Rightarrow>
               (case walkSegments tx env ord currency (Suc i) guid (walked @ [seg]) segs st'' of
                  (Inl e, st3) \<Rightarrow> (Inl e, st3)
                | (Inr (leaf, created), st3) \<Rightarrow> (Inr (leaf, guid # created), st3))))"

definition findOrCreateAccountWithin ::
    "raw_client \<Rightarrow> walk_env \<Rightarrow> string \<Rightarrow> string \<Rightarrow> string \<Rightarrow> lock_order_base option \<Rightarrow> walk_state
      \<Rightarrow> (lock_error + string \<times> string list) \<times> walk_state" where
  "findOrCreateAccountWithin db env fullPath bookRoot currency ord st =
     walkSegments db env
       (case ord of None \<Rightarrow> \<lparr>base_root = bookRoot, prefix = [], unordered_site = None\<rparr> | Some b \<Rightarrow> b)
       currency 0 bookRoot [] (split_on (CHR '':'') fullPath) st"

text \<open>
  The top-level client opens a transaction of its own, which starts with a fresh scope and
  rolls back its rows when the walk throws (rows of others stay).
\<close>

definition findOrCreateAccountDetailed ::
    "raw_client \<Rightarrow> walk_env \<Rightarrow> string \<Rightarrow> string \<Rightarrow> string \<Rightarrow> lock_order_base option \<Rightarrow> walk_state
      \<Rightarrow> (lock_error + string \<times> string list) \<times> walk_state" where
  "findOrCreateAccountDetailed client env fullPath bookRoot currency ord st =
     (if client = TopLevel
      then (case findOrCreateAccountWithin (Transaction True) env fullPath bookRoot currency ord
                (st\<lparr>scope := newScope\<rparr>) of
          (Inr res, st') \<Rightarrow> (Inr res, st'\<lparr>scope := scope st\<rparr>)
        | (Inl e, st') \<Rightarrow>
            (Inl e, st'\<lparr>rows := filter (\<lambda>r. acc_guid r \<notin> inserted (scope st')) (rows st'), scope := scope st\<rparr>))
      else findOrCreateAccountWithin client env fullPath bookRoot currency ord st)"

definition findOrCreateAccount ::
    "raw_client \<Rightarrow> walk_env \<Rightarrow> string \<Rightarrow> string \<Rightarrow> string \<Rightarrow> lock_order_base option \<Rightarrow> walk_state
      \<Rightarrow> (lock_error + string) \<times> walk_state" where
  "findOrCreateAccount client env fullPath bookRoot currency ord st =
     (case findOrCreateAccountDetailed client env fullPath bookRoot currency ord st of
        (Inl e, st') \<Rightarrow> (Inl e, st') | (Inr (guid, created), st') \<Rightarrow> (Inr guid, st'))"

section \<open>The table only grows\<close>

lemma findAccount_append:
  "findAccount p n (rs @ qs) = (case findAccount p n rs of None \<Rightarrow> findAccount p n qs | Some r \<Rightarrow> Some r)"
  by (induction rs) (auto simp: findAccount_def)

lemma findAccount_None: "findAccount p n rs = None \<longleftrightarrow> (\<forall>r \<in> set rs. \<not> sibling p n r)"
  by (auto simp: findAccount_def find_None_iff)

lemma findAccount_SomeD: "findAccount p n rs = Some r \<Longrightarrow> r \<in> set rs \<and> sibling p n r"
  by (auto simp: findAccount_def find_Some_iff)

lemma admit_extends: "\<exists>new. admit sc rs qs = rs @ new"
  by (induction sc rs qs rule: admit.induct) (auto split: if_splits)

text \<open>
  Every name key but those with an empty name is in the table at most once. \<open>admit\<close> keeps
  that, and no row of a held key comes in.
\<close>

definition siblings_unique :: "account_row list \<Rightarrow> bool" where
  "siblings_unique rs \<longleftrightarrow>
     distinct (map (\<lambda>r. (parent_guid r, acc_name r)) (filter (\<lambda>r. acc_name r \<noteq> '''') rs))"

lemma siblings_unique_snoc:
  "siblings_unique (rs @ [r]) \<longleftrightarrow> siblings_unique rs \<and>
     (acc_name r = '''' \<or> findAccount (parent_guid r) (acc_name r) rs = None)"
  by (auto simp: siblings_unique_def findAccount_None sibling_def image_iff) metis

lemma admit_unique: "siblings_unique rs \<Longrightarrow> siblings_unique (admit sc rs qs)"
  by (induction sc rs qs rule: admit.induct) (auto simp: admissible_def siblings_unique_snoc)

section \<open>One segment\<close>

lemma lookupSegment_rows:
  "\<exists>new. rows (snd (lookupSegment tx env ord i p n walked st)) = rows st @ new"
  using admit_extends [of "scope st" "rows st" "arrive env i"]
    admit_extends [of "scope st" "admit (scope st) (rows st) (arrive env i)" "arrive_wait env i"]
  by (auto simp: lookupSegment_def claimSegment_def Let_def split: option.splits prod.splits sum.splits)

lemma lookupSegment_found:
  "lookupSegment tx env ord i p n walked st = (Inr (Some r), st') \<Longrightarrow> findAccount p n (rows st') = Some r"
  by (auto simp: lookupSegment_def claimSegment_def Let_def split: option.splits prod.splits sum.splits if_splits)

lemma lookupSegment_unique:
  "siblings_unique (rows st) \<Longrightarrow> siblings_unique (rows (snd (lookupSegment tx env ord i p n walked st)))"
  by (auto simp: lookupSegment_def claimSegment_def Let_def admit_unique
      split: option.splits prod.splits sum.splits)

lemma acquire_locked:
  "acquireAccountNameLock (Transaction ok) i p n ord site sc = (Inr b, sc') \<Longrightarrow> b"
  by (auto simp: acquireAccountNameLock_def settleClaim_def acquireAccountKeyLockUnchecked_def
      split: sum.splits if_splits)

lemma lookupSegment_absent:
  "lookupSegment (Transaction ok) env ord i p n walked st = (Inr None, st') \<Longrightarrow> findAccount p n (rows st') = None"
  by (auto simp: lookupSegment_def claimSegment_def Let_def dest: acquire_locked
      split: option.splits prod.splits sum.splits if_splits)

section \<open>The walk\<close>

lemma walk_rows: "\<exists>new. rows (snd (walkSegments tx env ord cur i p walked segs st)) = rows st @ new"
proof (induction segs arbitrary: i p walked st)
  case (Cons seg segs)
  obtain res st' where l: "lookupSegment tx env ord i p seg walked st = (res, st')" by fastforce
  with lookupSegment_rows [of tx env ord i p seg walked st] obtain new where
    new: "rows st' = rows st @ new" by auto
  show ?case
  proof (cases res)
    case (Inl e)
    then show ?thesis using l new by simp
  next
    case (Inr found)
    show ?thesis
    proof (cases found)
      case None
      obtain g st2 where c: "createAccount env seg cur p (segs = []) st' = (g, st2)" by fastforce
      then have "rows st2 = rows st @ new @ [new_account g seg cur p (segs = [])]"
        using new by (auto simp: createAccount_def Let_def)
      then show ?thesis using Cons.IH [of "Suc i" g "walked @ [seg]" st2] l Inr None c
        by (auto split: prod.splits sum.splits)
    next
      case (Some r)
      then show ?thesis using Cons.IH [of "Suc i" "acc_guid r" "walked @ [seg]" st'] l Inr new by auto
    qed
  qed
qed simp

text \<open>The path as the table stands: every segment's first row, from the root down.\<close>

fun resolve :: "account_row list \<Rightarrow> string \<Rightarrow> string list \<Rightarrow> string option" where
  "resolve rs p [] = Some p"
| "resolve rs p (seg # segs) =
     (case findAccount p seg rs of None \<Rightarrow> None | Some r \<Rightarrow> resolve rs (acc_guid r) segs)"

lemma resolve_append: "resolve rs p segs = Some g \<Longrightarrow> resolve (rs @ new) p segs = Some g"
  by (induction segs arbitrary: p) (auto simp: findAccount_append split: option.splits)

lemma findAccount_extend:
  "findAccount p n rs = Some r \<Longrightarrow> rs' = rs @ new \<Longrightarrow> findAccount p n rs' = Some r"
  by (simp add: findAccount_append)

lemma findAccount_created:
  "findAccount p n rs = None \<Longrightarrow> findAccount p n (rs @ [new_account g n cur p l]) = Some (new_account g n cur p l)"
  by (simp add: findAccount_append) (simp add: findAccount_def sibling_def new_account_def)

lemma walk_resolves:
  assumes "walkSegments (Transaction ok) env ord cur i p walked segs st = (Inr (leaf, created), st')"
  shows "resolve (rows st') p segs = Some leaf"
  using assms
proof (induction segs arbitrary: i p walked st created)
  case (Cons seg segs)
  obtain res st1 where l: "lookupSegment (Transaction ok) env ord i p seg walked st = (res, st1)" by fastforce
  with Cons.prems obtain found where res: "res = Inr found" by (cases res) auto
  show ?case
  proof (cases found)
    case None
    obtain g st2 where c: "createAccount env seg cur p (segs = []) st1 = (g, st2)" by fastforce
    have r2: "rows st2 = rows st1 @ [new_account g seg cur p (segs = [])]"
      using c by (auto simp: createAccount_def Let_def)
    obtain created' where w: "walkSegments (Transaction ok) env ord cur (Suc i) g (walked @ [seg]) segs st2
        = (Inr (leaf, created'), st')"
      using Cons.prems l res None c by (auto split: prod.splits sum.splits)
    have "findAccount p seg (rows st2) = Some (new_account g seg cur p (segs = []))"
      using lookupSegment_absent l res None r2 findAccount_created by simp
    moreover obtain new where "rows st' = rows st2 @ new"
      using walk_rows [of "Transaction ok" env ord cur "Suc i" g "walked @ [seg]" segs st2] w by auto
    ultimately show ?thesis using Cons.IH [OF w]
      by (auto simp: findAccount_append new_account_def)
  next
    case (Some r)
    have w: "walkSegments (Transaction ok) env ord cur (Suc i) (acc_guid r) (walked @ [seg]) segs st1
        = (Inr (leaf, created), st')"
      using Cons.prems l res Some by simp
    moreover obtain new where "rows st' = rows st1 @ new"
      using walk_rows [of "Transaction ok" env ord cur "Suc i" "acc_guid r" "walked @ [seg]" segs st1] w by auto
    moreover have "findAccount p seg (rows st1) = Some r"
      using lookupSegment_found l res Some by simp
    ultimately show ?thesis using Cons.IH [OF w] by (simp add: findAccount_append)
  qed
qed simp

text \<open>A path that resolves is only looked up: nothing is created, claimed or refused.\<close>

lemma lookupSegment_present:
  assumes "findAccount p n (rows st) = Some r"
  shows "lookupSegment tx env ord i p n walked st =
    (Inr (Some r), st\<lparr>rows := admit (scope st) (rows st) (arrive env i)\<rparr>)"
proof -
  obtain new where "admit (scope st) (rows st) (arrive env i) = rows st @ new"
    using admit_extends by blast
  with assms show ?thesis by (simp add: lookupSegment_def findAccount_append)
qed

lemma walk_of_resolved:
  "resolve (rows st) p segs = Some leaf \<Longrightarrow>
     \<exists>st'. walkSegments tx env ord cur i p walked segs st = (Inr (leaf, []), st') \<and> scope st' = scope st"
proof (induction segs arbitrary: i p walked st)
  case (Cons seg segs)
  then obtain r where r: "findAccount p seg (rows st) = Some r" "resolve (rows st) (acc_guid r) segs = Some leaf"
    by (auto split: option.splits)
  let ?st = "st\<lparr>rows := admit (scope st) (rows st) (arrive env i)\<rparr>"
  obtain new where "rows ?st = rows st @ new"
    using admit_extends [of "scope st" "rows st" "arrive env i"] by auto
  then have "resolve (rows ?st) (acc_guid r) segs = Some leaf" using r(2) resolve_append by metis
  from Cons.IH [OF this] show ?case by (simp add: lookupSegment_present [OF r(1)])
qed simp

lemma walk_unique:
  assumes "walkSegments (Transaction ok) env ord cur i p walked segs st = (res, st')"
    and "siblings_unique (rows st)"
  shows "siblings_unique (rows st')"
  using assms
proof (induction segs arbitrary: i p walked st res)
  case (Cons seg segs)
  obtain found st1 where l: "lookupSegment (Transaction ok) env ord i p seg walked st = (found, st1)" by fastforce
  have u: "siblings_unique (rows st1)"
    using lookupSegment_unique [OF Cons.prems(2), of "Transaction ok" env ord i p seg walked] l by simp
  have v: "siblings_unique (rows st1 @ [new_account g seg cur p (segs = [])])" if "found = Inr None" for g
    using u lookupSegment_absent [of ok env ord i p seg walked st st1] l that
    by (simp add: siblings_unique_snoc) (simp add: new_account_def)
  show ?case using l u v Cons.prems(1)
    by (auto simp: createAccount_def Let_def dest!: Cons.IH split: prod.splits sum.splits option.splits)
qed simp

section \<open>The walk is ordered by construction\<close>

text \<open>Every key held so far has a position on the path walked.\<close>

definition held_on_path :: "lock_order_base \<Rightarrow> string list \<Rightarrow> lock_scope \<Rightarrow> bool" where
  "held_on_path ord walked sc \<longleftrightarrow>
     (\<forall>h \<in> set (held sc). \<exists>a q. order h = Some \<lparr>book_root = base_root ord, path = a\<rparr> \<and>
        a @ q = prefix ord @ walked)"

lemma held_on_path_snoc: "held_on_path ord walked sc \<Longrightarrow> held_on_path ord (walked @ [seg]) sc"
  unfolding held_on_path_def by (metis append.assoc)

lemma held_on_path_push:
  "held_on_path ord walked sc \<Longrightarrow>
   held_on_path ord (walked @ [seg]) (push_held \<lparr>ident = i, key = k,
     order = Some \<lparr>book_root = base_root ord, path = prefix ord @ walked @ [seg]\<rparr>\<rparr> sc)"
  using held_on_path_snoc [of ord walked sc seg] by (auto simp: held_on_path_def)

lemma held_on_path_inserted [simp]:
  "held_on_path ord walked (sc\<lparr>inserted := X\<rparr>) \<longleftrightarrow> held_on_path ord walked sc"
  by (simp add: held_on_path_def)

lemma acquire_on_path:
  assumes "held_on_path ord walked sc" "unordered_site ord = None"
  shows "acquireAccountNameLock (Transaction True) i p seg
      \<lparr>book_root = base_root ord, path = prefix ord @ walked @ [seg]\<rparr> (unordered_site ord) sc =
    (Inr True, push_held \<lparr>ident = i, key = accountNameLockKey p seg,
       order = Some \<lparr>book_root = base_root ord, path = prefix ord @ walked @ [seg]\<rparr>\<rparr> sc)"
proof -
  let ?c = "\<lparr>claim_parent = p, claim_name = seg,
    claim_order = \<lparr>book_root = base_root ord, path = prefix ord @ walked @ [seg]\<rparr>\<rparr>"
  have "\<exists>o'. order h = Some o' \<and> compareLockOrder o' (claim_order ?c) \<le> 0" if h: "h \<in> set (held sc)" for h
  proof -
    obtain a q where "order h = Some \<lparr>book_root = base_root ord, path = a\<rparr>" "a @ q = prefix ord @ walked"
      using assms(1) h unfolding held_on_path_def by blast
    then show ?thesis using prefix_first [of "base_root ord" a "q @ [seg]"]
      by (metis append.assoc select_convs(3) key_claim.select_convs(3))
  qed
  then show ?thesis using acquire_granted [of ?c sc i] assms(2) by (simp add: claim_ok_def)
qed

lemma walk_not_refused:
  assumes "held_on_path ord walked (scope st)" "unordered_site ord = None"
  shows "\<exists>res st'. walkSegments (Transaction True) env ord cur i p walked segs st = (Inr res, st') \<and>
    inserted (scope st') = inserted (scope st) \<union> set (snd res)"
  using assms(1)
proof (induction segs arbitrary: i p walked st)
  case (Cons seg segs)
  let ?st = "st\<lparr>rows := admit (scope st) (rows st) (arrive env i)\<rparr>"
  have "\<exists>found st1. claimSegment (Transaction True) env ord i p seg walked ?st = (Inr found, st1) \<and>
      held_on_path ord (walked @ [seg]) (scope st1) \<and> inserted (scope st1) = inserted (scope st)"
    using Cons.prems by (auto simp: claimSegment_def Let_def acquire_on_path [OF _ assms(2)] held_on_path_push)
  then obtain found st1 where l: "lookupSegment (Transaction True) env ord i p seg walked st = (Inr found, st1)"
    "held_on_path ord (walked @ [seg]) (scope st1)" "inserted (scope st1) = inserted (scope st)"
    using that held_on_path_snoc [OF Cons.prems, of seg]
    by (cases "findAccount p seg (rows ?st)") (auto simp: lookupSegment_def)
  show ?case
  proof (cases found)
    case (Some r)
    then show ?thesis using Cons.IH [OF l(2), of "Suc i" "acc_guid r"] l by simp
  next
    case None
    obtain g st2 where c: "createAccount env seg cur p (segs = []) st1 = (g, st2)" by fastforce
    then have "scope st2 = (scope st1)\<lparr>inserted := insert g (inserted (scope st1))\<rparr>"
      by (auto simp: createAccount_def Let_def)
    then show ?thesis using Cons.IH [of "walked @ [seg]" st2 "Suc i" g] l None c by fastforce
  qed
qed simp

lemma within_from_root:
  assumes "held (scope st) = []" "base = (case ord of None \<Rightarrow>
      \<lparr>base_root = anchor, prefix = [], unordered_site = None\<rparr> | Some b \<Rightarrow> b)" "unordered_site base = None"
  obtains leaf created st' where
    "findOrCreateAccountWithin (Transaction True) env p anchor cur ord st = (Inr (leaf, created), st')"
    "resolve (rows st') anchor (split_on (CHR '':'') p) = Some leaf"
    "inserted (scope st') = inserted (scope st) \<union> set created"
proof -
  have "held_on_path base [] (scope st)" by (simp add: held_on_path_def assms(1))
  from walk_not_refused [OF this assms(3), of env cur 0 anchor "split_on (CHR '':'') p"]
  obtain leaf created st' where w: "walkSegments (Transaction True) env base cur 0 anchor [] (split_on (CHR '':'') p) st
      = (Inr (leaf, created), st')" "inserted (scope st') = inserted (scope st) \<union> set created" by auto
  then show ?thesis using that walk_resolves [OF w(1)]
    by (simp add: findOrCreateAccountWithin_def assms(2) [symmetric])
qed

lemma detailed_top_level:
  assumes "ord = None \<or> unordered_site (the ord) = None"
  obtains leaf created st' where
    "findOrCreateAccountDetailed TopLevel env p anchor cur ord st = (Inr (leaf, created), st')"
    "resolve (rows st') anchor (split_on (CHR '':'') p) = Some leaf" "scope st' = scope st"
proof -
  let ?st = "st\<lparr>scope := newScope\<rparr>"
  have h: "held (scope ?st) = []" by (simp add: newScope_def)
  have u: "unordered_site (case ord of None \<Rightarrow>
      \<lparr>base_root = anchor, prefix = [], unordered_site = None\<rparr> | Some b \<Rightarrow> b) = None"
    using assms by (cases ord) auto
  obtain leaf created st' where
    "findOrCreateAccountWithin (Transaction True) env p anchor cur ord ?st = (Inr (leaf, created), st')"
    "resolve (rows st') anchor (split_on (CHR '':'') p) = Some leaf"
    by (rule within_from_root [OF h refl u, where env = env and p = p and cur = cur])
  then show ?thesis using that [of leaf created "st'\<lparr>scope := scope st\<rparr>"]
    by (simp add: findOrCreateAccountDetailed_def)
qed





text \<open>
  Find-or-create is idempotent: asking again for a path it has made returns the same
  account and inserts nothing, whoever asks and whatever else was committed meanwhile.
\<close>

theorem findOrCreateAccount_idempotent:
  assumes "findOrCreateAccountWithin (Transaction ok) env p anchor cur ord st = (Inr (leaf, created), st')"
    and "rows st2 = rows st' @ later"
  shows "\<exists>st3. findOrCreateAccountWithin tx env2 p anchor cur2 ord2 st2 = (Inr (leaf, []), st3)"
proof -
  have "resolve (rows st2) anchor (split_on (CHR '':'') p) = Some leaf"
    using assms walk_resolves resolve_append unfolding findOrCreateAccountWithin_def by metis
  from walk_of_resolved [OF this] show ?thesis unfolding findOrCreateAccountWithin_def by blast
qed

theorem findOrCreateAccount_idempotent_witness:
  "\<exists>st3. findOrCreateAccountWithin TestDouble
      \<lparr>arrive = (\<lambda>i. []), arrive_wait = (\<lambda>i. []), newGuids = (\<lambda>i. ''h'')\<rparr> ''Income'' ''r'' ''eur'' None
      \<lparr>rows = [new_account ''g'' ''Income'' ''usd'' ''r'' True], scope = newScope, claims = 0, guids_used = 1\<rparr>
    = (Inr (''g'', []), st3)"
proof (rule findOrCreateAccount_idempotent [where later = "[]" and st' = "snd (findOrCreateAccountWithin (Transaction True)
      \<lparr>arrive = (\<lambda>i. []), arrive_wait = (\<lambda>i. []), newGuids = (\<lambda>i. ''g'')\<rparr> ''Income'' ''r'' ''usd'' None
      \<lparr>rows = [], scope = newScope, claims = 0, guids_used = 1\<rparr>)"])
  show "findOrCreateAccountWithin (Transaction True)
      \<lparr>arrive = (\<lambda>i. []), arrive_wait = (\<lambda>i. []), newGuids = (\<lambda>i. ''g'')\<rparr> ''Income'' ''r'' ''usd'' None
      \<lparr>rows = [], scope = newScope, claims = 0, guids_used = 1\<rparr> =
    (Inr (''g'', [''g'']), snd (findOrCreateAccountWithin (Transaction True)
      \<lparr>arrive = (\<lambda>i. []), arrive_wait = (\<lambda>i. []), newGuids = (\<lambda>i. ''g'')\<rparr> ''Income'' ''r'' ''usd'' None
      \<lparr>rows = [], scope = newScope, claims = 0, guids_used = 1\<rparr>))"
    by code_simp
qed code_simp

end
