(* ===== verification/Reconcile.thy ===== *)
theory Reconcile
  imports Money_Fractions Js_Number Account_Walk
begin

text \<open>
  Manual reconciliation (src/lib/reconcile.ts and the selection of
  src/lib/reconcile-shared.ts). The database is one record of tables; a finalize runs in
  one transaction, so an error gives no new database. Times are milliseconds since the
  epoch. The walk of the imbalance account is the one of \<open>Account_Walk\<close>; \<open>waited\<close> is what
  other transactions commit while the finalize waits for its locks.
\<close>

section \<open>Tables\<close>

record split_row =
  sp_guid :: string
  sp_tx :: string
  sp_account :: string
  sp_memo :: string
  sp_action :: string
  sp_state :: string
  sp_date :: "int option"
  sp_vnum :: int
  sp_vden :: int
  sp_qnum :: int
  sp_qden :: int

record tx_row =
  tx_guid :: string
  tx_currency :: string
  tx_num :: string
  tx_post :: "int option"
  tx_enter :: "int option"
  tx_desc :: string

record commodity_row =
  cm_guid :: string
  cm_mnemonic :: string
  cm_namespace :: string

record session_row =
  se_id :: string
  se_book :: string
  se_account :: string
  se_user :: int
  se_statement :: "int option"
  se_status :: string
  se_interactions :: int
  se_started :: int
  se_completed :: "int option"
  se_difference :: js_number
  se_ending :: string

record action_row =
  ac_user :: int
  ac_book :: string
  ac_origin :: string
  ac_source :: string
  ac_state :: string
  ac_resolved :: "int option"

record ledger =
  splits :: "split_row list"
  txs :: "tx_row list"
  walk :: walk_state
  commodities :: "commodity_row list"
  books :: "(string \<times> string) list"
  sessions :: "session_row list"
  actions :: "action_row list"
  now :: int

record completion =
  c_book :: string
  c_user :: int
  c_session :: "string option"
  c_delta :: "rat option"

datatype reconcile_error =
    SplitsNotFound "string list" | WrongAccount "string list" | AlreadyReconciled "string list"
  | PostDated "string list" | NotZero int | UnitProblem unit_error | NonIntegralReconciled
  | NoCommodityOrBook | ShareAdjustment | AccountNotFound | LockProblem lock_error | DatabaseProblem

text \<open>\<open>ManualReconcileError.code\<close>, where the error is one.\<close>

definition reconcile_code :: "reconcile_error \<Rightarrow> string option" where
  "reconcile_code e = (case e of
      SplitsNotFound _ \<Rightarrow> Some ''not_found'' | AccountNotFound \<Rightarrow> Some ''not_found''
    | NotZero _ \<Rightarrow> Some ''not_zero''
    | LockProblem _ \<Rightarrow> None | DatabaseProblem \<Rightarrow> None
    | _ \<Rightarrow> Some ''bad_request'')"

definition DAY_MS :: int where
  "DAY_MS = 86400000"

definition statementDateCutoff :: "int \<Rightarrow> int" where
  "statementDateCutoff d = d div DAY_MS * DAY_MS + (DAY_MS - 1)"

section \<open>Reading\<close>

definition fits_bigint :: "int \<Rightarrow> bool" where
  "fits_bigint n \<longleftrightarrow> - (2 ^ 63) \<le> n \<and> n < 2 ^ 63"

definition reconciled_rows :: "string \<Rightarrow> split_row list \<Rightarrow> split_row list" where
  "reconciled_rows acct rs = filter (\<lambda>s. sp_account s = acct \<and> sp_state s = ''y'') rs"

definition max_date :: "int option list \<Rightarrow> int option" where
  "max_date ds = fold (\<lambda>d m. case (d, m) of
      (None, _) \<Rightarrow> m | (Some x, None) \<Rightarrow> Some x | (Some x, Some y) \<Rightarrow> Some (max x y)) ds None"

text \<open>
  The aggregate. A zero denominator stops the statement. The sum is exact when every row is
  integral; otherwise the count refuses the result.
\<close>

definition summarizeReconciled :: "ledger \<Rightarrow> string \<Rightarrow> int \<Rightarrow> reconcile_error + int \<times> int option" where
  "summarizeReconciled l acct scu =
     (let rs = reconciled_rows acct (splits l)
      in if \<not> list_all (\<lambda>s. sp_qden s \<noteq> 0) rs then Inl DatabaseProblem
      else if \<not> list_all (\<lambda>s. (sp_qnum s * scu) smod sp_qden s = 0) rs then Inl NonIntegralReconciled
      else let units = sum_list (map (\<lambda>s. (sp_qnum s * scu) sdiv sp_qden s) rs)
      in if fits_bigint units then Inr (units, max_date (map sp_date rs)) else Inl DatabaseProblem)"

definition txOf :: "ledger \<Rightarrow> string \<Rightarrow> tx_row option" where
  "txOf l g = find (\<lambda>t. tx_guid t = g) (txs l)"

definition postDate :: "ledger \<Rightarrow> split_row \<Rightarrow> int option" where
  "postDate l s = (case txOf l (sp_tx s) of None \<Rightarrow> None | Some t \<Rightarrow> tx_post t)"

fun unique_guids :: "string list \<Rightarrow> string list \<Rightarrow> string list" where
  "unique_guids seen [] = []"
| "unique_guids seen (g # gs) = (if g \<in> set seen then unique_guids seen gs else g # unique_guids (g # seen) gs)"

definition selectedRows :: "ledger \<Rightarrow> string list \<Rightarrow> split_row list" where
  "selectedRows l guids = filter (\<lambda>s. sp_guid s \<in> set guids) (splits l)"

definition lift_unit :: "unit_error + 'a \<Rightarrow> reconcile_error + 'a" where
  "lift_unit r = (case r of Inl e \<Rightarrow> Inl (UnitProblem e) | Inr a \<Rightarrow> Inr a)"

text \<open>The checks on the selection, in their order, and the units it adds.\<close>

definition checkSelection ::
    "ledger \<Rightarrow> string \<Rightarrow> int \<Rightarrow> string list \<Rightarrow> int \<Rightarrow> reconcile_error + int" where
  "checkSelection l acct statementDate guids scu =
     (if guids = [] then Inr 0
      else let sel = selectedRows l guids;
        wrong = filter (\<lambda>s. sp_account s \<noteq> acct) sel;
        already = filter (\<lambda>s. sp_state s = ''y'') sel;
        late = filter (\<lambda>s. case postDate l s of None \<Rightarrow> False | Some d \<Rightarrow> d > statementDateCutoff statementDate) sel
      in if length sel \<noteq> length guids
         then Inl (SplitsNotFound (filter (\<lambda>g. g \<notin> sp_guid ` set sel) guids))
      else if wrong \<noteq> [] then Inl (WrongAccount (map sp_guid wrong))
      else if already \<noteq> [] then Inl (AlreadyReconciled (map sp_guid already))
      else if late \<noteq> [] then Inl (PostDated (map sp_guid late))
      else bind_result (lift_unit (map_result (\<lambda>s. splitToUnits (sp_qnum s) (sp_qden s) scu) sel))
        (\<lambda>us. Inr (sum_list us)))"

section \<open>Writing\<close>

text \<open>The escape hatch: the discrepancy becomes a reconciled split, offset to Imbalance.\<close>

definition adjustment_splits ::
    "string \<Rightarrow> string \<Rightarrow> string \<Rightarrow> string \<Rightarrow> string \<Rightarrow> int \<Rightarrow> int \<Rightarrow> int \<Rightarrow> split_row list" where
  "adjustment_splits g1 g2 tx acct imbalance statementDate diff scu =
     [\<lparr>sp_guid = g1, sp_tx = tx, sp_account = acct, sp_memo = ''Reconciliation adjustment'',
       sp_action = '''', sp_state = ''y'', sp_date = Some statementDate,
       sp_vnum = diff, sp_vden = scu, sp_qnum = diff, sp_qden = scu\<rparr>,
      \<lparr>sp_guid = g2, sp_tx = tx, sp_account = imbalance, sp_memo = ''Reconciliation adjustment'',
       sp_action = '''', sp_state = ''n'', sp_date = None,
       sp_vnum = - diff, sp_vden = scu, sp_qnum = - diff, sp_qden = scu\<rparr>]"

definition take_guid :: "walk_env \<Rightarrow> ledger \<Rightarrow> string \<times> ledger" where
  "take_guid env l =
     (newGuids env (guids_used (walk l)), l\<lparr>walk := (walk l)\<lparr>guids_used := Suc (guids_used (walk l))\<rparr>\<rparr>)"

definition createAdjustment ::
    "raw_client \<Rightarrow> walk_env \<Rightarrow> string \<Rightarrow> int \<Rightarrow> int \<Rightarrow> int \<Rightarrow> completion option \<Rightarrow> ledger \<Rightarrow> reconcile_error + ledger" where
  "createAdjustment tx env acct statementDate diff scu cpl l =
     (case (find (\<lambda>a. acc_guid a = acct) (rows (walk l)),
            map_of (books l) (case cpl of None \<Rightarrow> '''' | Some c \<Rightarrow> c_book c)) of
        (Some source, Some rootGuid) \<Rightarrow>
          if commodity_guid source = '''' \<or> rootGuid = '''' then Inl NoCommodityOrBook
          else let cm = find (\<lambda>c. cm_guid c = commodity_guid source) (commodities l)
          in if (case cm of None \<Rightarrow> False | Some c \<Rightarrow> cm_namespace c \<noteq> '''' \<and> cm_namespace c \<noteq> ''CURRENCY'')
             then Inl ShareAdjustment
          else (case findOrCreateAccount tx env
                (''Imbalance-'' @ (case cm of None \<Rightarrow> ''Adjustment'' | Some c \<Rightarrow> cm_mnemonic c))
                rootGuid (commodity_guid source) None (walk l) of
              (Inl e, _) \<Rightarrow> Inl (LockProblem e)
            | (Inr imbalance, w) \<Rightarrow>
                let (txg, l1) = take_guid env (l\<lparr>walk := w\<rparr>);
                    (g1, l2) = take_guid env l1;
                    (g2, l3) = take_guid env l2
                in if \<not> fits_bigint diff \<or> \<not> fits_bigint (- diff) then Inl DatabaseProblem
                else Inr (l3\<lparr>
                  txs := txs l3 @ [\<lparr>tx_guid = txg, tx_currency = commodity_guid source, tx_num = '''',
                    tx_post = Some statementDate, tx_enter = Some (now l), tx_desc = ''Reconciliation adjustment''\<rparr>],
                  splits := splits l3 @ adjustment_splits g1 g2 txg acct imbalance statementDate diff scu\<rparr>))
      | _ \<Rightarrow> Inl NoCommodityOrBook)"

text \<open>\<open>updateMany\<close> on the selected splits and the bump of their transactions.\<close>

definition markReconciled :: "string \<Rightarrow> int \<Rightarrow> string list \<Rightarrow> ledger \<Rightarrow> nat \<times> ledger" where
  "markReconciled acct statementDate guids l =
     (if guids = [] then (0, l)
      else let hit = (\<lambda>s. sp_guid s \<in> set guids \<and> sp_account s = acct);
        parents = map sp_tx (filter (\<lambda>s. sp_guid s \<in> set guids) (splits l))
      in (length (filter hit (splits l)),
          l\<lparr>splits := map (\<lambda>s. if hit s then s\<lparr>sp_state := ''y'', sp_date := Some statementDate\<rparr> else s) (splits l),
            txs := map (\<lambda>t. if tx_guid t \<in> set parents then t\<lparr>tx_enter := Some (now l)\<rparr> else t) (txs l)\<rparr>))"

definition complete_row :: "int \<Rightarrow> int \<Rightarrow> js_number \<Rightarrow> string \<Rightarrow> session_row \<Rightarrow> session_row" where
  "complete_row t delta d ending s = s\<lparr>se_status := ''completed'', se_completed := Some t,
     se_interactions := se_interactions s + delta, se_difference := d, se_ending := ending\<rparr>"

definition own_session :: "completion \<Rightarrow> string \<Rightarrow> session_row \<Rightarrow> bool" where
  "own_session c acct s \<longleftrightarrow> se_book s = c_book c \<and> se_account s = acct \<and> se_user s = c_user c"

text \<open>\<open>ORDER BY started_at DESC LIMIT 1\<close>: a latest one.\<close>

fun latest_started :: "session_row list \<Rightarrow> session_row option" where
  "latest_started [] = None"
| "latest_started (s # ss) = (case latest_started ss of
      None \<Rightarrow> Some s
    | Some t \<Rightarrow> if se_started t > se_started s then Some t else Some s)"

definition completeSession ::
    "walk_env \<Rightarrow> string \<Rightarrow> int \<Rightarrow> js_number \<Rightarrow> string \<Rightarrow> completion \<Rightarrow> ledger \<Rightarrow> ledger" where
  "completeSession env acct statementDate d ending c l =
     (let delta = max 0 (floor (case c_delta c of None \<Rightarrow> 0 | Some x \<Rightarrow> x));
          given = (\<lambda>s. c_session c = Some (se_id s) \<and> own_session c acct s);
          started = latest_started (filter (\<lambda>s. own_session c acct s \<and> se_statement s = Some statementDate
                      \<and> se_status s = ''started'') (sessions l));
          update = (\<lambda>P. l\<lparr>sessions := map (\<lambda>s. if P s then complete_row (now l) delta d ending s else s) (sessions l)\<rparr>)
      in if c_session c \<noteq> None \<and> c_session c \<noteq> Some '''' \<and> list_ex given (sessions l) then update given
      else case started of
        Some t \<Rightarrow> update (\<lambda>s. se_id s = se_id t)
      | None \<Rightarrow>
          let (g, l') = take_guid env l
          in l'\<lparr>sessions := sessions l' @ [\<lparr>se_id = g, se_book = c_book c, se_account = acct, se_user = c_user c,
               se_statement = Some statementDate, se_status = ''completed'', se_interactions = delta,
               se_started = now l, se_completed = Some (now l), se_difference = d, se_ending = ending\<rparr>]\<rparr>)"

definition resolveActions :: "string \<Rightarrow> completion \<Rightarrow> ledger \<Rightarrow> ledger" where
  "resolveActions acct c l = l\<lparr>actions := map (\<lambda>a.
      if ac_user a = c_user c \<and> ac_book a = c_book c \<and> ac_origin a = ''statement_reconciliation''
        \<and> ac_source a = acct \<and> ac_state a \<in> {''open'', ''snoozed'', ''accepted''}
      then a\<lparr>ac_state := ''resolved'', ac_resolved := Some (now l)\<rparr> else a) (actions l)\<rparr>"

definition recordCompletion ::
    "walk_env \<Rightarrow> string \<Rightarrow> int \<Rightarrow> js_number \<Rightarrow> string \<Rightarrow> completion option \<Rightarrow> ledger \<Rightarrow> ledger" where
  "recordCompletion env acct statementDate d ending cpl l = (case cpl of
      None \<Rightarrow> l
    | Some c \<Rightarrow> resolveActions acct c (completeSession env acct statementDate d ending c l))"

record finalize_result =
  reconciledSplits :: nat
  r_statementDate :: int
  r_endingBalance :: js_number

text \<open>\<open>Number(units) / scu\<close>.\<close>

definition units_number :: "int \<Rightarrow> int \<Rightarrow> js_number" where
  "units_number units scu = js_div ((fl (of_int units))) (JFin (of_int scu))"

definition finalizeReconciliation ::
    "raw_client \<Rightarrow> walk_env \<Rightarrow> (ledger \<Rightarrow> ledger) \<Rightarrow> string \<Rightarrow> int \<Rightarrow> string \<Rightarrow> string list
      \<Rightarrow> completion option \<Rightarrow> bool \<Rightarrow> int \<Rightarrow> ledger \<Rightarrow> reconcile_error + finalize_result \<times> ledger" where
  "finalizeReconciliation tx env waited acct statementDate endingBalance splitGuids cpl adjust scu l0 =
     (let guids = unique_guids [] splitGuids
      in case acquireNamedXactLock tx (''reconcile:'' @ acct) of
        Inl e \<Rightarrow> Inl (LockProblem e)
      | Inr _ \<Rightarrow>
        (let l = waited l0
         in bind_result (checkSelection l acct statementDate guids scu) (\<lambda>selectedUnits.
            bind_result (summarizeReconciled l acct scu) (\<lambda>(reconciledUnits, lastDate).
            bind_result (lift_unit (decimalToUnits endingBalance scu)) (\<lambda>endingUnits.
            let diff = endingUnits - (reconciledUnits + selectedUnits)
            in if diff \<noteq> 0 \<and> \<not> adjust then Inl (NotZero diff)
            else bind_result
              (if diff \<noteq> 0 then createAdjustment tx env acct statementDate diff scu cpl l else Inr l) (\<lambda>l1.
            let (updated, l2) = markReconciled acct statementDate guids l1
            in Inr (\<lparr>reconciledSplits = updated, r_statementDate = statementDate,
                     r_endingBalance = fl (dec_value endingBalance)\<rparr>,
                    recordCompletion env acct statementDate (units_number diff scu) endingBalance cpl l2)))))))"

section \<open>The reconciled quantity of an account\<close>

text \<open>The specification: the exact sum of the quantities of the reconciled splits.\<close>

definition reconciled_quantity :: "string \<Rightarrow> split_row list \<Rightarrow> rat" where
  "reconciled_quantity acct rs = (\<Sum>s \<leftarrow> reconciled_rows acct rs. of_int (sp_qnum s) / of_int (sp_qden s))"

definition tx_value :: "string \<Rightarrow> split_row list \<Rightarrow> rat" where
  "tx_value g rs = (\<Sum>s \<leftarrow> filter (\<lambda>s. sp_tx s = g) rs. of_int (sp_vnum s) / of_int (sp_vden s))"

lemma exact_units:
  assumes "d \<noteq> 0" "(n * scu) smod d = 0" "scu \<noteq> 0"
  shows "of_int ((n * scu) sdiv d) = (of_int n / of_int d :: rat) * of_int scu"
proof -
  have "splitToUnits n d scu = Inr ((n * scu) sdiv d)"
    using assms by (simp add: splitToUnits_def Let_def)
  then have "n * scu = ((n * scu) sdiv d) * d" by (simp only: splitToUnits_Inr_iff)
  then have "of_int (n * scu) = (of_int (((n * scu) sdiv d) * d) :: rat)" by simp
  with assms(1) show ?thesis by (simp add: field_simps)
qed

lemma summarize_exact:
  assumes "summarizeReconciled l acct scu = Inr (u, d)" "scu \<noteq> 0"
  shows "of_int u = reconciled_quantity acct (splits l) * of_int scu"
proof -
  let ?rs = "reconciled_rows acct (splits l)"
  have ok: "\<forall>s \<in> set ?rs. sp_qden s \<noteq> 0 \<and> (sp_qnum s * scu) smod sp_qden s = 0"
    "u = (\<Sum>s \<leftarrow> ?rs. (sp_qnum s * scu) sdiv sp_qden s)"
    using assms(1) by (auto simp: summarizeReconciled_def Let_def list_all_iff split: if_splits)
  have "of_int (\<Sum>s \<leftarrow> rs. (sp_qnum s * scu) sdiv sp_qden s) =
      (\<Sum>s \<leftarrow> rs. of_int (sp_qnum s) / of_int (sp_qden s) :: rat) * of_int scu"
    if "\<forall>s \<in> set rs. sp_qden s \<noteq> 0 \<and> (sp_qnum s * scu) smod sp_qden s = 0" for rs
    using that by (induction rs) (simp_all add: exact_units assms(2) distrib_right)
  from this [OF ok(1)] show ?thesis by (simp add: ok(2) reconciled_quantity_def)
qed

lemma map_units_exact:
  assumes "map_result (\<lambda>s. splitToUnits (sp_qnum s) (sp_qden s) scu) rs = Inr us" "scu \<noteq> 0"
  shows "of_int (sum_list us) = (\<Sum>s \<leftarrow> rs. of_int (sp_qnum s) / of_int (sp_qden s) :: rat) * of_int scu"
  using assms(1)
proof (induction rs arbitrary: us)
  case (Cons s rs)
  then obtain u us' where u: "splitToUnits (sp_qnum s) (sp_qden s) scu = Inr u"
    "map_result (\<lambda>s. splitToUnits (sp_qnum s) (sp_qden s) scu) rs = Inr us'" "us = u # us'"
    by (auto simp: bind_result_Inr_iff)
  have "of_int u = (of_int (sp_qnum s) / of_int (sp_qden s) :: rat) * of_int scu"
    using u(1) exact_units [OF _ _ assms(2)] by (auto simp: splitToUnits_def Let_def split: if_splits)
  then show ?case using Cons.IH [OF u(2)] u(3) by (simp add: algebra_simps)
qed simp

section \<open>Marking\<close>

definition mark :: "string \<Rightarrow> int \<Rightarrow> string list \<Rightarrow> split_row \<Rightarrow> split_row" where
  "mark acct d guids s = (if sp_guid s \<in> set guids \<and> sp_account s = acct
     then s\<lparr>sp_state := ''y'', sp_date := Some d\<rparr> else s)"

lemma mark_fields [simp]: "sp_guid (mark acct d guids s) = sp_guid s"
  "sp_account (mark acct d guids s) = sp_account s" "sp_tx (mark acct d guids s) = sp_tx s"
  "sp_vnum (mark acct d guids s) = sp_vnum s" "sp_vden (mark acct d guids s) = sp_vden s"
  "sp_qnum (mark acct d guids s) = sp_qnum s" "sp_qden (mark acct d guids s) = sp_qden s"
  by (simp_all add: mark_def)

lemma markReconciled_splits: "splits (snd (markReconciled acct d guids l)) = map (mark acct d guids) (splits l)"
proof (cases "guids = []")
  case True
  have "map (mark acct d []) (splits l) = splits l" by (rule map_idI) (simp add: mark_def)
  with True show ?thesis by (simp add: markReconciled_def)
qed (auto simp: markReconciled_def Let_def mark_def)

lemma tx_value_mark: "tx_value g (map (mark acct d guids) rs) = tx_value g rs"
  by (induction rs) (simp_all add: tx_value_def)

lemma quantity_mark:
  assumes "\<forall>s \<in> set rs. sp_guid s \<in> set guids \<longrightarrow> sp_account s = acct \<and> sp_state s \<noteq> ''y''"
  shows "reconciled_quantity acct (map (mark acct d guids) rs) = reconciled_quantity acct rs +
    (\<Sum>s \<leftarrow> filter (\<lambda>s. sp_guid s \<in> set guids) rs. of_int (sp_qnum s) / of_int (sp_qden s))"
  using assms
proof (induction rs)
  case (Cons s rs)
  have "sp_state (mark acct d guids s) = (if sp_guid s \<in> set guids \<and> sp_account s = acct then ''y'' else sp_state s)"
    by (simp add: mark_def)
  then show ?case using Cons by (auto simp: reconciled_quantity_def reconciled_rows_def)
qed (simp add: reconciled_quantity_def reconciled_rows_def)

lemma unique_guids_spec: "distinct (unique_guids seen gs) \<and> set (unique_guids seen gs) = set gs - set seen"
  by (induction seen gs rule: unique_guids.induct) auto

lemma checkSelection_Inr:
  assumes "checkSelection l acct d guids scu = Inr u"
  shows "\<forall>s \<in> set (splits l). sp_guid s \<in> set guids \<longrightarrow>
      sp_account s = acct \<and> sp_state s \<noteq> ''y'' \<and> (\<forall>t. postDate l s = Some t \<longrightarrow> t \<le> statementDateCutoff d)"
    and "length (filter (\<lambda>s. sp_guid s \<in> set guids) (splits l)) = length guids"
    and "scu \<noteq> 0 \<Longrightarrow> of_int u = (\<Sum>s \<leftarrow> filter (\<lambda>s. sp_guid s \<in> set guids) (splits l).
      of_int (sp_qnum s) / of_int (sp_qden s) :: rat) * of_int scu"
proof -
  have c: "\<forall>s \<in> set (splits l). sp_guid s \<in> set guids \<longrightarrow>
      sp_account s = acct \<and> sp_state s \<noteq> ''y'' \<and> (\<forall>t. postDate l s = Some t \<longrightarrow> t \<le> statementDateCutoff d)"
    "length (filter (\<lambda>s. sp_guid s \<in> set guids) (splits l)) = length guids"
    "scu \<noteq> 0 \<longrightarrow> of_int u = (\<Sum>s \<leftarrow> filter (\<lambda>s. sp_guid s \<in> set guids) (splits l).
      of_int (sp_qnum s) / of_int (sp_qden s) :: rat) * of_int scu" if "guids \<noteq> []"
    using assms that map_units_exact [of scu]
    by (auto simp: checkSelection_def Let_def selectedRows_def filter_empty_conv lift_unit_def bind_result_Inr_iff
        linorder_not_less split: if_splits option.splits sum.splits)
  show "\<forall>s \<in> set (splits l). sp_guid s \<in> set guids \<longrightarrow>
      sp_account s = acct \<and> sp_state s \<noteq> ''y'' \<and> (\<forall>t. postDate l s = Some t \<longrightarrow> t \<le> statementDateCutoff d)"
    "length (filter (\<lambda>s. sp_guid s \<in> set guids) (splits l)) = length guids"
    using c by (cases "guids = []"; simp)+
  show "scu \<noteq> 0 \<Longrightarrow> of_int u = (\<Sum>s \<leftarrow> filter (\<lambda>s. sp_guid s \<in> set guids) (splits l).
      of_int (sp_qnum s) / of_int (sp_qden s) :: rat) * of_int scu"
    using c assms by (cases "guids = []") (simp_all add: checkSelection_def)
qed

text \<open>A selection that passes names only splits of the table.\<close>

lemma selection_in_table:
  assumes "distinct (map sp_guid rs)" "distinct guids"
    and "length (filter (\<lambda>s. sp_guid s \<in> set guids) rs) = length guids"
  shows "set guids \<subseteq> sp_guid ` set rs"
proof -
  let ?sel = "map sp_guid (filter (\<lambda>s. sp_guid s \<in> set guids) rs)"
  have "distinct ?sel" using assms(1) by (rule distinct_map_filter)
  then have "card (set ?sel) = length guids" using assms(3) by (metis distinct_card length_map)
  then have "card (set ?sel) = card (set guids)" using assms(2) by (simp add: distinct_card)
  then have "set ?sel = set guids" by (intro card_subset_eq) auto
  then show ?thesis by auto
qed

section \<open>What a finalize does\<close>

text \<open>The rows an adjustment appends, with guids of the supply.\<close>

definition adjusts :: "walk_env \<Rightarrow> string \<Rightarrow> int \<Rightarrow> int \<Rightarrow> int \<Rightarrow> split_row list \<Rightarrow> bool" where
  "adjusts env acct d diff scu new \<longleftrightarrow> (\<exists>i j g imbalance.
     new = adjustment_splits (newGuids env i) (newGuids env j) g acct imbalance d diff scu)"

lemma adjustsI: "adjusts env acct d diff scu
    (adjustment_splits (newGuids env i) (newGuids env j) g acct imbalance d diff scu)"
  unfolding adjusts_def by blast

lemma createAdjustment_splits:
  assumes "createAdjustment tx env acct d diff scu cpl l = Inr l'"
  shows "\<exists>new. splits l' = splits l @ new \<and> adjusts env acct d diff scu new"
  using assms
  by (auto simp: createAdjustment_def take_guid_def Let_def adjustsI
      split: option.splits if_splits prod.splits sum.splits)

lemma adjusts_quantity:
  assumes "adjusts env acct d diff scu new" "scu \<noteq> 0"
  shows "reconciled_quantity acct new = of_int diff / of_int scu" "tx_value g new = 0"
  using assms by (auto simp: adjusts_def adjustment_splits_def reconciled_quantity_def reconciled_rows_def tx_value_def)

lemma adjusts_mark:
  assumes "adjusts env acct d diff scu new" "\<forall>i. newGuids env i \<notin> set guids"
  shows "map (mark acct d guids) new = new"
  using assms by (auto simp: adjusts_def adjustment_splits_def mark_def)

lemma recordCompletion_splits [simp]: "splits (recordCompletion env acct d x ending cpl l) = splits l"
  by (auto simp: recordCompletion_def resolveActions_def completeSession_def take_guid_def Let_def
      split: option.splits)

lemma acquire_reconcile_lock:
  "acquireNamedXactLock tx (''reconcile:'' @ acct) = acquireAccountKeyLockUnchecked tx (''reconcile:'' @ acct)"
  by (simp add: acquireNamedXactLock_def ACCOUNT_KEY_PREFIX_def)

lemma finalize_Inr:
  assumes "finalizeReconciliation tx env waited acct d ending gs cpl adjust scu l0 = Inr (res, l')"
  obtains sel r last units new where
    "checkSelection (waited l0) acct d (unique_guids [] gs) scu = Inr sel"
    "summarizeReconciled (waited l0) acct scu = Inr (r, last)"
    "decimalToScuUnits ending scu = Some units"
    "splits l' = map (mark acct d (unique_guids [] gs)) (splits (waited l0) @ new)"
    "if units = r + sel then new = [] else adjust \<and> adjusts env acct d (units - (r + sel)) scu new"
proof -
  let ?l = "waited l0" and ?g = "unique_guids [] gs"
  obtain sel r last units l1 where s: "checkSelection ?l acct d ?g scu = Inr sel"
    "summarizeReconciled ?l acct scu = Inr (r, last)" "lift_unit (decimalToUnits ending scu) = Inr units"
    "(if units - (r + sel) \<noteq> 0 then createAdjustment tx env acct d (units - (r + sel)) scu cpl ?l else Inr ?l) = Inr l1"
    "units - (r + sel) \<noteq> 0 \<longrightarrow> adjust"
    "l' = recordCompletion env acct d (units_number (units - (r + sel)) scu) ending cpl (snd (markReconciled acct d ?g l1))"
    using assms
    by (auto simp: finalizeReconciliation_def Let_def bind_result_Inr_iff case_prod_beta
        split: sum.splits if_splits)
  from s(3) have u: "decimalToScuUnits ending scu = Some units"
    by (auto simp: lift_unit_def decimalToUnits_Inr_iff split: sum.splits)
  obtain new where n: "splits l1 = splits ?l @ new"
    "if units = r + sel then new = [] else adjusts env acct d (units - (r + sel)) scu new"
    using s(4) createAdjustment_splits by (cases "units = r + sel") fastforce+
  show ?thesis
    by (rule that [OF s(1,2) u]) (use s(5,6) n markReconciled_splits in \<open>auto split: if_splits\<close>)
qed

lemma unique_guids_in_table:
  assumes "checkSelection l acct d (unique_guids [] gs) scu = Inr sel" "distinct (map sp_guid (splits l))"
  shows "set (unique_guids [] gs) \<subseteq> sp_guid ` set (splits l)"
  using selection_in_table [OF assms(2)] checkSelection_Inr(2) [OF assms(1)] unique_guids_spec by blast

lemma finalize_quantity:
  assumes "finalizeReconciliation tx env waited acct d ending gs cpl adjust scu l0 = Inr (res, l')"
    and "distinct (map sp_guid (splits (waited l0)))"
    and "\<forall>i. newGuids env i \<notin> sp_guid ` set (splits (waited l0))"
  shows "reconciled_quantity acct (splits l') = dec_value ending"
proof -
  let ?g = "unique_guids [] gs" and ?rs = "splits (waited l0)"
  from assms(1) obtain sel r last units new where s:
    "checkSelection (waited l0) acct d ?g scu = Inr sel"
    "summarizeReconciled (waited l0) acct scu = Inr (r, last)"
    "decimalToScuUnits ending scu = Some units" "splits l' = map (mark acct d ?g) (?rs @ new)"
    "if units = r + sel then new = [] else adjust \<and> adjusts env acct d (units - (r + sel)) scu new"
    by (rule finalize_Inr)
  have scu: "scu \<noteq> 0" using decimalToScuUnits_value(1) [OF s(3)] by simp
  have app: "reconciled_quantity acct (xs @ ys) = reconciled_quantity acct xs + reconciled_quantity acct ys" for xs ys
    by (simp add: reconciled_quantity_def reconciled_rows_def)
  have fresh: "\<forall>i. newGuids env i \<notin> set ?g"
    using unique_guids_in_table [OF s(1) assms(2)] assms(3) by blast
  have new: "reconciled_quantity acct (map (mark acct d ?g) new) = of_int (units - (r + sel)) / of_int scu"
    using s(5) adjusts_mark [OF _ fresh] adjusts_quantity(1) [OF _ scu]
    by (cases "units = r + sel") (auto simp: reconciled_quantity_def reconciled_rows_def)
  have "reconciled_quantity acct (map (mark acct d ?g) ?rs) = of_int r / of_int scu + of_int sel / of_int scu"
    using quantity_mark [of ?rs ?g acct d] checkSelection_Inr(1) [OF s(1)]
      checkSelection_Inr(3) [OF s(1) scu] summarize_exact [OF s(2) scu] scu by (simp add: field_simps)
  then have "reconciled_quantity acct (splits l') = of_int units / of_int scu"
    by (simp add: s(4) app new add_divide_distrib diff_divide_distrib)
  then show ?thesis using decimalToScuUnits_value(2) [OF s(3)] by simp
qed

lemma finalize_tx_value:
  assumes "finalizeReconciliation tx env waited acct d ending gs cpl adjust scu l0 = Inr (res, l')"
  shows "tx_value g (splits l') = tx_value g (splits (waited l0))"
proof -
  from assms obtain sel r last units new where s: "decimalToScuUnits ending scu = Some units"
    "splits l' = map (mark acct d (unique_guids [] gs)) (splits (waited l0) @ new)"
    "if units = r + sel then new = [] else adjust \<and> adjusts env acct d (units - (r + sel)) scu new"
    by (rule finalize_Inr)
  have app: "tx_value g (xs @ ys) = tx_value g xs + tx_value g ys" for xs ys by (simp add: tx_value_def)
  have "tx_value g new = 0" using s(3) adjusts_quantity(2) decimalToScuUnits_value(1) [OF s(1)]
    by (cases "units = r + sel") (auto simp: tx_value_def)
  then show ?thesis by (simp only: s(2) tx_value_mark app add_0_right)
qed

text \<open>A book with one cleared deposit of 12.50 in the account \<open>a\<close>.\<close>

definition one_deposit :: ledger where
  "one_deposit = \<lparr>splits = [\<lparr>sp_guid = ''s1'', sp_tx = ''t1'', sp_account = ''a'', sp_memo = '''', sp_action = '''',
       sp_state = ''c'', sp_date = None, sp_vnum = 1250, sp_vden = 100, sp_qnum = 1250, sp_qden = 100\<rparr>],
     txs = [\<lparr>tx_guid = ''t1'', tx_currency = ''usd'', tx_num = '''', tx_post = Some 0, tx_enter = None, tx_desc = ''''\<rparr>],
     walk = \<lparr>rows = [], scope = newScope, claims = 0, guids_used = 0\<rparr>,
     commodities = [], books = [], sessions = [], actions = [], now = 5\<rparr>"

definition quiet :: walk_env where
  "quiet = \<lparr>arrive = (\<lambda>i. []), arrive_wait = (\<lambda>i. []), newGuids = (\<lambda>i. CHR ''g'' # replicate i CHR ''g'')\<rparr>"

lemma one_deposit_checks:
  "checkSelection one_deposit ''a'' 0 [''s1''] 100 = Inr 1250"
  "summarizeReconciled one_deposit ''a'' 100 = Inr (0, None)"
  "decimalToUnits ''12.50'' 100 = Inr 1250"
  "acquireNamedXactLock (Transaction True) ''reconcile:a'' = Inr True"
  by code_simp+

lemma one_deposit_finalizes:
  "\<exists>res l'. finalizeReconciliation (Transaction True) quiet id ''a'' 0 ''12.50'' [''s1''] cpl False 100 one_deposit
     = Inr (res, l')"
  by (simp add: finalizeReconciliation_def Let_def
      one_deposit_checks lift_unit_def bind_result_simps case_prod_beta)

text \<open>
  C13. When a finalize returns, the exact sum of the account's reconciled quantities is the
  value of the ending balance, with or without an adjustment and whatever other transactions
  committed before it got its locks.
\<close>

theorem finalize_ties_out:
  assumes "finalizeReconciliation tx env waited acct d ending gs cpl adjust scu l0 = Inr (res, l')"
    and "distinct (map sp_guid (splits (waited l0)))"
    and "\<forall>i. newGuids env i \<notin> sp_guid ` set (splits (waited l0))"
  shows "reconciled_quantity acct (splits l') = dec_value ending"
  by (rule finalize_quantity [OF assms])

theorem finalize_ties_out_witness:
  "\<exists>res l'. finalizeReconciliation (Transaction True) quiet id ''a'' 0 ''12.50'' [''s1''] None False 100 one_deposit = Inr (res, l') \<and>
     reconciled_quantity ''a'' (splits l') = dec_value ''12.50''"
proof -
  obtain res l' where f: "finalizeReconciliation (Transaction True) quiet id ''a'' 0 ''12.50'' [''s1''] None False 100 one_deposit = Inr (res, l')"
    using one_deposit_finalizes by blast
  have t: "reconciled_quantity ''a'' (splits l') = dec_value ''12.50''"
    by (rule finalize_ties_out [OF f]) (auto simp: one_deposit_def quiet_def)
  show ?thesis by (rule exI [of _ res], rule exI [of _ l'], rule conjI [OF f t])
qed

text \<open>
  C14. A finalize keeps the books in balance: the exact value total of every transaction,
  the adjustment's own included, is what it was before.
\<close>

theorem finalize_keeps_balance:
  assumes "finalizeReconciliation tx env waited acct d ending gs cpl adjust scu l0 = Inr (res, l')"
  shows "tx_value g (splits l') = tx_value g (splits (waited l0))"
  by (rule finalize_tx_value [OF assms])

theorem finalize_keeps_balance_witness:
  "\<exists>res l'. finalizeReconciliation (Transaction True) quiet id ''a'' 0 ''12.50'' [''s1''] None False 100 one_deposit = Inr (res, l') \<and>
     tx_value ''t1'' (splits l') = tx_value ''t1'' (splits one_deposit)"
proof -
  obtain res l' where f: "finalizeReconciliation (Transaction True) quiet id ''a'' 0 ''12.50'' [''s1''] None False 100 one_deposit = Inr (res, l')"
    using one_deposit_finalizes by blast
  have t: "tx_value ''t1'' (splits l') = tx_value ''t1'' (splits one_deposit)"
    using finalize_keeps_balance [OF f, of "''t1''"] by simp
  show ?thesis by (rule exI [of _ res], rule exI [of _ l'], rule conjI [OF f t])
qed

text \<open>
  A finalize changes no other split: every split of the table that was not selected is
  the same afterwards, a selected one is only marked and dated, and splits are appended
  only for an adjustment of a non-zero difference.
\<close>

theorem finalize_marks_exactly_selected:
  assumes "finalizeReconciliation tx env waited acct d ending gs cpl adjust scu l0 = Inr (res, l')"
  shows "\<exists>new. splits l' = map (\<lambda>s. if sp_guid s \<in> set gs then s\<lparr>sp_state := ''y'', sp_date := Some d\<rparr> else s)
      (splits (waited l0)) @ new \<and> length new \<in> {0, 2} \<and> (new \<noteq> [] \<longrightarrow> adjust)"
proof -
  from assms obtain sel r last units new where s: "checkSelection (waited l0) acct d (unique_guids [] gs) scu = Inr sel"
    "splits l' = map (mark acct d (unique_guids [] gs)) (splits (waited l0) @ new)"
    "if units = r + sel then new = [] else adjust \<and> adjusts env acct d (units - (r + sel)) scu new"
    by (rule finalize_Inr)
  have "mark acct d (unique_guids [] gs) s = (if sp_guid s \<in> set gs then s\<lparr>sp_state := ''y'', sp_date := Some d\<rparr> else s)"
    if "s \<in> set (splits (waited l0))" for s
    using checkSelection_Inr(1) [OF s(1)] that unique_guids_spec [of "[]" gs] by (auto simp: mark_def)
  moreover have "length new \<in> {0, 2}" "new \<noteq> [] \<longrightarrow> adjust"
    using s(3) by (auto simp: adjusts_def adjustment_splits_def split: if_splits)
  ultimately show ?thesis
    by (intro exI [of _ "map (mark acct d (unique_guids [] gs)) new"]) (simp add: s(2))
qed

theorem finalize_marks_exactly_selected_witness:
  "\<exists>res l'. finalizeReconciliation (Transaction True) quiet id ''a'' 0 ''12.50'' [''s1''] None False 100 one_deposit = Inr (res, l') \<and>
     map sp_state (splits l') = [''y'']"
proof -
  obtain res l' where f: "finalizeReconciliation (Transaction True) quiet id ''a'' 0 ''12.50'' [''s1''] None False 100 one_deposit = Inr (res, l')"
    using one_deposit_finalizes by blast
  have t: "map sp_state (splits l') = [''y'']"
    using finalize_marks_exactly_selected [OF f] by (auto simp: one_deposit_def)
  show ?thesis by (rule exI [of _ res], rule exI [of _ l'], rule conjI [OF f t])
qed


text \<open>
  The aggregate never rounds: a reconciled split that is no whole number of units makes
  it an error, where the comment above it promises rounding half up.
\<close>

theorem nonintegral_reconciled_refused:
  "s \<in> set (reconciled_rows acct (splits l)) \<Longrightarrow> (sp_qnum s * scu) smod sp_qden s \<noteq> 0 \<Longrightarrow>
   summarizeReconciled l acct scu \<in> {Inl DatabaseProblem, Inl NonIntegralReconciled}"
  by (auto simp: summarizeReconciled_def Let_def list_all_iff)

theorem nonintegral_reconciled_refused_witness:
  "summarizeReconciled (one_deposit\<lparr>splits := map (\<lambda>s. s\<lparr>sp_state := ''y'', sp_qnum := 1, sp_qden := 3\<rparr>)
     (splits one_deposit)\<rparr>) ''a'' 100 \<in> {Inl DatabaseProblem, Inl NonIntegralReconciled}"
  by (rule nonintegral_reconciled_refused [of "hd (splits one_deposit)\<lparr>sp_state := ''y'', sp_qnum := 1, sp_qden := 3\<rparr>"])
    (simp_all add: one_deposit_def reconciled_rows_def signed_modulo_int_def)

section \<open>The completed session\<close>

lemma complete_row_own [simp]:
  "own_session c acct (complete_row t n x e s) \<longleftrightarrow> own_session c acct s"
  "se_status (complete_row t n x e s) = ''completed''" "se_difference (complete_row t n x e s) = x"
  "se_ending (complete_row t n x e s) = e"
  by (simp_all add: complete_row_def own_session_def)

lemma latest_started_in: "latest_started ss = Some t \<Longrightarrow> t \<in> set ss"
  by (induction ss arbitrary: t) (auto split: option.splits if_splits)

lemma completed_in_update:
  assumes "s \<in> set ss" "P s" "own_session c acct s"
  shows "\<exists>s \<in> set (map (\<lambda>s. if P s then complete_row t n x e s else s) ss).
     own_session c acct s \<and> se_status s = ''completed'' \<and> se_difference s = x \<and> se_ending s = e"
  using assms by (intro bexI [of _ "complete_row t n x e s"]) (simp, force)

lemma completeSession_completes:
  "\<exists>s \<in> set (sessions (completeSession env acct d x ending c l)).
     own_session c acct s \<and> se_status s = ''completed'' \<and> se_difference s = x \<and> se_ending s = ending"
proof -
  let ?given = "\<lambda>s. c_session c = Some (se_id s) \<and> own_session c acct s"
  let ?fresh = "latest_started (filter (\<lambda>s. own_session c acct s \<and> se_statement s = Some d \<and> se_status s = ''started'') (sessions l))"
  let ?n = "max 0 (floor (case c_delta c of None \<Rightarrow> 0 | Some x \<Rightarrow> x))"
  show ?thesis
  proof (cases "c_session c \<noteq> None \<and> c_session c \<noteq> Some '''' \<and> list_ex ?given (sessions l)")
    case True
    then obtain s where s: "s \<in> set (sessions l)" "?given s" by (auto simp: list_ex_iff)
    have e: "sessions (completeSession env acct d x ending c l) =
        map (\<lambda>s. if ?given s then complete_row (now l) ?n x ending s else s) (sessions l)"
      using True by (simp add: completeSession_def Let_def)
    show ?thesis unfolding e by (rule completed_in_update [OF s(1)]) (use s(2) in auto)
  next
    case False
    show ?thesis
    proof (cases ?fresh)
      case None
      with False show ?thesis
        by (simp add: completeSession_def Let_def take_guid_def own_session_def del: de_Morgan_conj)
    next
      case (Some t)
      then have t: "t \<in> set (sessions l)" "own_session c acct t" using latest_started_in by fastforce+
      have e: "sessions (completeSession env acct d x ending c l) =
          map (\<lambda>s. if se_id s = se_id t then complete_row (now l) ?n x ending s else s) (sessions l)"
        using False Some by (auto simp: completeSession_def Let_def)
      show ?thesis unfolding e by (rule completed_in_update [OF t(1)]) (use t(2) in auto)
    qed
  qed
qed

lemma resolveActions_none:
  "\<forall>a \<in> set (actions (resolveActions acct c l)). ac_user a = c_user c \<longrightarrow> ac_book a = c_book c \<longrightarrow>
     ac_origin a = ''statement_reconciliation'' \<longrightarrow> ac_source a = acct \<longrightarrow>
     ac_state a \<notin> {''open'', ''snoozed'', ''accepted''}"
  "sessions (resolveActions acct c l) = sessions l"
  by (simp_all add: resolveActions_def ball_Un)

text \<open>
  A finalize with a completion record leaves a completed session of that book, account
  and user, with the difference and ending balance it tied out, and no open, snoozed or
  accepted action of the user about the account.
\<close>

theorem finalize_completes_session:
  assumes "finalizeReconciliation tx env waited acct d ending gs (Some c) adjust scu l0 = Inr (res, l')"
  shows "(\<exists>s \<in> set (sessions l'). own_session c acct s \<and> se_status s = ''completed'' \<and> se_ending s = ending) \<and>
    (\<forall>a \<in> set (actions l'). ac_user a = c_user c \<longrightarrow> ac_book a = c_book c \<longrightarrow>
       ac_origin a = ''statement_reconciliation'' \<longrightarrow> ac_source a = acct \<longrightarrow>
       ac_state a \<notin> {''open'', ''snoozed'', ''accepted''})"
proof -
  from assms obtain x l2 where e: "l' = resolveActions acct c (completeSession env acct d x ending c l2)"
    by (auto simp: finalizeReconciliation_def Let_def bind_result_Inr_iff case_prod_beta recordCompletion_def
        split: sum.splits if_splits)
  show ?thesis unfolding e resolveActions_none(2)
    using completeSession_completes [of env acct d x ending c l2] resolveActions_none(1) by blast
qed

theorem finalize_completes_session_witness:
  "\<exists>res l'. finalizeReconciliation (Transaction True) quiet id ''a'' 0 ''12.50'' [''s1'']
     (Some \<lparr>c_book = ''b'', c_user = 1, c_session = None, c_delta = None\<rparr>) False 100 one_deposit = Inr (res, l') \<and>
   (\<exists>s \<in> set (sessions l'). se_status s = ''completed'')"
proof -
  obtain res l' where f: "finalizeReconciliation (Transaction True) quiet id ''a'' 0 ''12.50'' [''s1'']
     (Some \<lparr>c_book = ''b'', c_user = 1, c_session = None, c_delta = None\<rparr>) False 100 one_deposit = Inr (res, l')"
    using one_deposit_finalizes by blast
  have t: "\<exists>s \<in> set (sessions l'). se_status s = ''completed''"
    using conjunct1 [OF finalize_completes_session [OF f]] by auto
  show ?thesis by (rule exI [of _ res], rule exI [of _ l'], rule conjI [OF f t])
qed

section \<open>The workspace\<close>

record candidate =
  cd_guid :: string
  cd_tx :: string
  cd_date :: "int option"
  cd_enter :: "int option"
  cd_num :: string
  cd_desc :: string
  cd_memo :: string
  cd_amount :: "js_number option"
  cd_state :: string

record workspace =
  w_account :: account_row
  w_currency :: "string option"
  w_scu :: int
  w_statement :: int
  w_last :: "int option"
  w_balance :: js_number
  w_candidates :: "candidate list"

text \<open>\<open>ORDER BY post_date, enter_date, guid\<close>, nulls last.\<close>

fun compare_dates :: "int option \<Rightarrow> int option \<Rightarrow> int" where
  "compare_dates (Some a) (Some b) = (if a < b then -1 else if b < a then 1 else 0)"
| "compare_dates (Some a) None = -1"
| "compare_dates None (Some b) = 1"
| "compare_dates None None = 0"

definition compare_candidates :: "candidate \<Rightarrow> candidate \<Rightarrow> int" where
  "compare_candidates a b =
     (if compare_dates (cd_date a) (cd_date b) \<noteq> 0 then compare_dates (cd_date a) (cd_date b)
      else if compare_dates (cd_enter a) (cd_enter b) \<noteq> 0 then compare_dates (cd_enter a) (cd_enter b)
      else if cd_guid a < cd_guid b then -1 else if cd_guid b < cd_guid a then 1 else 0)"

definition toDecimalNumber :: "int \<Rightarrow> int \<Rightarrow> js_number option" where
  "toDecimalNumber num denom = map_option (\<lambda>s. fl (dec_value s)) (toDecimal num denom)"

definition candidate_of :: "split_row \<Rightarrow> tx_row \<Rightarrow> candidate" where
  "candidate_of s t = \<lparr>cd_guid = sp_guid s, cd_tx = sp_tx s, cd_date = tx_post t, cd_enter = tx_enter t,
     cd_num = tx_num t, cd_desc = tx_desc t, cd_memo = sp_memo s,
     cd_amount = toDecimalNumber (sp_qnum s) (sp_qden s),
     cd_state = (if sp_state s = ''c'' then ''c'' else ''n'')\<rparr>"

text \<open>The join of a split with its transaction, if that is posted by the cutoff.\<close>

definition offer :: "ledger \<Rightarrow> int \<Rightarrow> split_row \<Rightarrow> candidate list" where
  "offer l statementDate s = (case txOf l (sp_tx s) of
      None \<Rightarrow> []
    | Some t \<Rightarrow> (case tx_post t of
        None \<Rightarrow> []
      | Some p \<Rightarrow> if p \<le> statementDateCutoff statementDate then [candidate_of s t] else []))"

definition candidates :: "ledger \<Rightarrow> string \<Rightarrow> int \<Rightarrow> candidate list" where
  "candidates l acct statementDate = stable_sort compare_candidates
     (concat (map (offer l statementDate)
       (filter (\<lambda>s. sp_account s = acct \<and> sp_state s \<in> {''n'', ''c''}) (splits l))))"

definition completedThrough :: "ledger \<Rightarrow> string \<Rightarrow> int option" where
  "completedThrough l acct = max_date (map se_statement
     (filter (\<lambda>s. se_account s = acct \<and> se_status s = ''completed'') (sessions l)))"

definition getReconcileWorkspace :: "ledger \<Rightarrow> string \<Rightarrow> int \<Rightarrow> reconcile_error + workspace" where
  "getReconcileWorkspace l acct statementDate =
     (case find (\<lambda>a. acc_guid a = acct) (rows (walk l)) of
        None \<Rightarrow> Inl AccountNotFound
      | Some a \<Rightarrow>
        (let scu = (if commodity_scu a = 0 then 100 else commodity_scu a)
         in bind_result (summarizeReconciled l acct scu) (\<lambda>(units, last).
            let through = completedThrough l acct in
            Inr \<lparr>w_account = a,
              w_currency = map_option cm_mnemonic (find (\<lambda>c. cm_guid c = commodity_guid a) (commodities l)),
              w_scu = scu, w_statement = statementDate,
              w_last = (case (through, last) of
                 (None, _) \<Rightarrow> last | (Some t, None) \<Rightarrow> Some t
               | (Some t, Some r) \<Rightarrow> if t > r then Some t else Some r),
              w_balance = units_number units scu,
              w_candidates = candidates l acct statementDate\<rparr>)))"

lemma compare_dates_swap: "0 < compare_dates a b \<Longrightarrow> compare_dates b a < 0"
  by (cases a; cases b) (auto split: if_splits)

lemma compare_dates_zero: "compare_dates a b = 0 \<longleftrightarrow> a = b"
  by (cases a; cases b) (auto split: if_splits)

lemma compare_dates_less_le: "compare_dates a b < 0 \<Longrightarrow> compare_dates b c \<le> 0 \<Longrightarrow> compare_dates a c < 0"
  by (cases a; cases b; cases c) (auto split: if_splits)

lemma compare_candidates_le:
  "compare_candidates a b \<le> 0 \<longleftrightarrow>
     compare_dates (cd_date a) (cd_date b) < 0 \<or> cd_date a = cd_date b \<and>
       (compare_dates (cd_enter a) (cd_enter b) < 0 \<or>
        cd_enter a = cd_enter b \<and> cd_guid a \<le> cd_guid b)"
  using compare_dates_zero [of "cd_date a" "cd_date b"] compare_dates_zero [of "cd_enter a" "cd_enter b"]
  by (auto simp: compare_candidates_def)

interpretation candidate_cmp: comparison compare_candidates
proof unfold_locales
  show "0 < compare_candidates x y \<Longrightarrow> compare_candidates y x \<le> 0" for x y
    using compare_dates_swap [of "cd_date x" "cd_date y"] compare_dates_swap [of "cd_enter x" "cd_enter y"]
      compare_dates_zero [of "cd_date x" "cd_date y"] compare_dates_zero [of "cd_enter x" "cd_enter y"]
    by (auto simp: compare_candidates_def split: if_splits)
  show "compare_candidates x y \<le> 0 \<Longrightarrow> compare_candidates y z \<le> 0 \<Longrightarrow> compare_candidates x z \<le> 0" for x y z
    using compare_dates_less_le [of "cd_date x" "cd_date y" "cd_date z"]
      compare_dates_less_le [of "cd_enter x" "cd_enter y" "cd_enter z"]
    unfolding compare_candidates_le by (auto intro: order_trans)
qed

lemma offer_iff:
  "c \<in> set (offer l d s) \<longleftrightarrow> (\<exists>t p. txOf l (sp_tx s) = Some t \<and> tx_post t = Some p \<and>
     p \<le> statementDateCutoff d \<and> c = candidate_of s t)"
  by (cases "txOf l (sp_tx s)"; cases "tx_post (the (txOf l (sp_tx s)))") (auto simp: offer_def)

lemma candidates_iff:
  "c \<in> set (candidates l acct d) \<longleftrightarrow> (\<exists>s. s \<in> set (splits l) \<and> sp_account s = acct \<and>
     sp_state s \<in> {''n'', ''c''} \<and> c \<in> set (offer l d s))"
  by (auto simp: candidates_def)

lemma candidate_guid: "c \<in> set (offer l d s) \<Longrightarrow> cd_guid c = sp_guid s"
  by (auto simp: offer_iff candidate_of_def)

text \<open>
  The candidates are offered in date order, and any selection of them is one a finalize
  for the same statement date accepts: it is refused only for a split that is no whole number
  of units.
\<close>

theorem candidates_finalizable:
  assumes "distinct (map sp_guid (splits l))" "distinct guids"
    and "set guids \<subseteq> cd_guid ` set (candidates l acct d)"
  shows "sorted_wrt (\<lambda>a b. compare_candidates a b \<le> 0) (candidates l acct d) \<and>
    ((\<exists>u. checkSelection l acct d guids scu = Inr u) \<or>
     (\<exists>e. checkSelection l acct d guids scu = Inl (UnitProblem e)))"
proof
  show "sorted_wrt (\<lambda>a b. compare_candidates a b \<le> 0) (candidates l acct d)"
    unfolding candidates_def by (rule candidate_cmp.sorted_stable_sort)
  let ?sel = "selectedRows l guids"
  have good: "sp_account s = acct \<and> sp_state s \<noteq> ''y'' \<and>
      (case postDate l s of None \<Rightarrow> True | Some p \<Rightarrow> p \<le> statementDateCutoff d)" if s: "s \<in> set ?sel" for s
  proof -
    have "s \<in> set (splits l)" "sp_guid s \<in> set guids" using s by (auto simp: selectedRows_def)
    moreover obtain c where "c \<in> set (candidates l acct d)" "cd_guid c = sp_guid s"
      using assms(3) calculation(2) by auto
    then obtain s' where s': "s' \<in> set (splits l)" "sp_account s' = acct" "sp_state s' \<in> {''n'', ''c''}"
      "c \<in> set (offer l d s')" "sp_guid s' = sp_guid s"
      unfolding candidates_iff using candidate_guid by metis
    ultimately have "s' = s" using assms(1) by (auto simp: distinct_map inj_on_def)
    with s' show ?thesis by (auto simp: postDate_def offer_iff)
  qed
  have "cd_guid c \<in> sp_guid ` set (splits l)" if "c \<in> set (candidates l acct d)" for c
    using that candidate_guid unfolding candidates_iff by blast
  then have "set guids \<subseteq> sp_guid ` set (splits l)" using assms(3) by auto
  then have "set (map sp_guid ?sel) = set guids" by (auto simp: selectedRows_def)
  moreover have "distinct (map sp_guid ?sel)" unfolding selectedRows_def by (rule distinct_map_filter [OF assms(1)])
  ultimately have len: "length ?sel = length guids"
    using assms(2) by (metis distinct_card length_map)
  have none: "filter (\<lambda>s. sp_account s \<noteq> acct) ?sel = []" "filter (\<lambda>s. sp_state s = ''y'') ?sel = []"
    "filter (\<lambda>s. case postDate l s of None \<Rightarrow> False | Some p \<Rightarrow> p > statementDateCutoff d) ?sel = []"
    using good by (fastforce simp: filter_empty_conv split: option.splits)+
  show "(\<exists>u. checkSelection l acct d guids scu = Inr u) \<or>
     (\<exists>e. checkSelection l acct d guids scu = Inl (UnitProblem e))"
    unfolding checkSelection_def Let_def none len
    by (cases "map_result (\<lambda>s. splitToUnits (sp_qnum s) (sp_qden s) scu) ?sel")
      (auto simp: lift_unit_def)
qed

theorem candidates_finalizable_witness:
  "(\<exists>u. checkSelection one_deposit ''a'' 0 [''s1''] 100 = Inr u) \<or>
   (\<exists>e. checkSelection one_deposit ''a'' 0 [''s1''] 100 = Inl (UnitProblem e))"
proof -
  have "hd (offer one_deposit 0 (hd (splits one_deposit))) \<in> set (candidates one_deposit ''a'' 0)"
    unfolding candidates_iff
    by (rule exI [of _ "hd (splits one_deposit)"])
      (simp add: one_deposit_def offer_def txOf_def statementDateCutoff_def DAY_MS_def)
  moreover have "cd_guid (hd (offer one_deposit 0 (hd (splits one_deposit)))) = ''s1''"
    by (simp add: one_deposit_def offer_def txOf_def statementDateCutoff_def DAY_MS_def candidate_of_def)
  ultimately have "''s1'' \<in> cd_guid ` set (candidates one_deposit ''a'' 0)" by (metis imageI)
  then show ?thesis using candidates_finalizable [of one_deposit "[''s1'']" "''a''" 0 100]
    by (auto simp: one_deposit_def)
qed

section \<open>Ticking candidates\<close>

definition toggleCandidateSelection ::
    "string list \<Rightarrow> string set \<Rightarrow> int \<Rightarrow> int option \<Rightarrow> bool \<Rightarrow> string set" where
  "toggleCandidateSelection cands selected index anchorIndex shiftKey =
     (if index < 0 \<or> index \<ge> int (length cands) then selected
      else let g = cands ! nat index in
        case anchorIndex of
          Some a \<Rightarrow>
            if shiftKey \<and> 0 \<le> a \<and> a < int (length cands)
            then fold (\<lambda>i s. insert (cands ! nat i) s) [min a index..max a index] selected
            else if g \<in> selected then selected - {g} else insert g selected
        | None \<Rightarrow> if g \<in> selected then selected - {g} else insert g selected)"

lemma fold_insert_range: "fold (\<lambda>i s. insert (f i) s) is s = s \<union> f ` set is"
  by (induction "is" arbitrary: s) auto

text \<open>
  A plain click twice on one candidate leaves the selection as it was; a shift-click
  adds exactly the candidates between the anchor and the click, both included, and never
  takes one away.
\<close>

theorem toggle_selection:
  assumes "0 \<le> i" "i < int (length cands)" "0 \<le> a" "a < int (length cands)"
  shows "toggleCandidateSelection cands (toggleCandidateSelection cands sel i None sh) i None sh = sel \<and>
    toggleCandidateSelection cands sel i (Some a) True =
      sel \<union> {cands ! n | n. min a i \<le> int n \<and> int n \<le> max a i}"
proof
  show "toggleCandidateSelection cands (toggleCandidateSelection cands sel i None sh) i None sh = sel"
    using assms by (auto simp: toggleCandidateSelection_def Let_def)
  have "(\<lambda>j. cands ! nat j) ` {min a i..max a i} = {cands ! n | n. min a i \<le> int n \<and> int n \<le> max a i}"
  proof (intro equalityI subsetI)
    fix x assume "x \<in> (\<lambda>j. cands ! nat j) ` {min a i..max a i}"
    then obtain j where "x = cands ! nat j" "min a i \<le> j" "j \<le> max a i" by auto
    then show "x \<in> {cands ! n | n. min a i \<le> int n \<and> int n \<le> max a i}"
      using assms by (intro CollectI exI [of _ "nat j"]) auto
  next
    fix x assume "x \<in> {cands ! n | n. min a i \<le> int n \<and> int n \<le> max a i}"
    then show "x \<in> (\<lambda>j. cands ! nat j) ` {min a i..max a i}" by (auto intro!: image_eqI [of _ _ "int _"])
  qed
  then show "toggleCandidateSelection cands sel i (Some a) True =
      sel \<union> {cands ! n | n. min a i \<le> int n \<and> int n \<le> max a i}"
    using assms by (simp add: toggleCandidateSelection_def Let_def fold_insert_range)
qed

theorem toggle_selection_witness:
  "toggleCandidateSelection [''a'', ''b'', ''c''] {''c''} 0 (Some 1) True =
     {''c''} \<union> {[''a'', ''b'', ''c''] ! n | n. min 1 0 \<le> int n \<and> int n \<le> max 1 0}"
  using toggle_selection [of 0 "[''a'', ''b'', ''c'']" 1] by simp

end
