(* ===== verification/Js_Calendar.thy ===== *)
theory Js_Calendar
  imports Folio_Prelude
begin

text \<open>
  The calendar of ECMAScript's \<open>Date\<close>. A date is a number of milliseconds on the local
  wall clock, counted from the start of 1970, in a zone without clock changes; the limits
  of the time value (100 million days) are not modelled. Months count from 0.
\<close>

definition MS_PER_DAY :: int where
  "MS_PER_DAY = 86400000"

definition leap :: "int \<Rightarrow> bool" where
  "leap y \<longleftrightarrow> y mod 4 = 0 \<and> (y mod 100 \<noteq> 0 \<or> y mod 400 = 0)"

definition day_from_year :: "int \<Rightarrow> int" where
  "day_from_year y = 365 * (y - 1970) + (y - 1969) div 4 - (y - 1901) div 100 + (y - 1601) div 400"

definition month_length :: "int \<Rightarrow> int \<Rightarrow> int" where
  "month_length y m =
     (if m = 1 then (if leap y then 29 else 28)
      else if m = 3 \<or> m = 5 \<or> m = 8 \<or> m = 10 then 30 else 31)"

fun days_before :: "int \<Rightarrow> nat \<Rightarrow> int" where
  "days_before y 0 = 0"
| "days_before y (Suc m) = days_before y m + month_length y (int m)"

definition year_length :: "int \<Rightarrow> int" where
  "year_length y = (if leap y then 366 else 365)"

text \<open>\<open>MakeDay\<close>: the month may lie outside 0 to 11 and the day outside the month.\<close>

definition make_day :: "int \<Rightarrow> int \<Rightarrow> int \<Rightarrow> int" where
  "make_day y m d = day_from_year (y + m div 12) + days_before (y + m div 12) (nat (m mod 12)) + d - 1"

definition year_of_day :: "int \<Rightarrow> int" where
  "year_of_day d = (let y = 1970 + (400 * d) div 146097
     in if d < day_from_year y then y - 1 else if day_from_year (y + 1) \<le> d then y + 1 else y)"

fun month_search :: "int \<Rightarrow> int \<Rightarrow> nat \<Rightarrow> nat" where
  "month_search y k 0 = 0"
| "month_search y k (Suc m) = (if days_before y (Suc m) \<le> k then Suc m else month_search y k m)"

definition month_of_day :: "int \<Rightarrow> int" where
  "month_of_day d = (let y = year_of_day d in int (month_search y (d - day_from_year y) 11))"

definition date_of_day :: "int \<Rightarrow> int" where
  "date_of_day d = (let y = year_of_day d; k = d - day_from_year y
     in k - days_before y (month_search y k 11) + 1)"

definition weekday_of_day :: "int \<Rightarrow> int" where
  "weekday_of_day d = (d + 4) mod 7"

section \<open>The \<open>Date\<close> methods\<close>

text \<open>\<open>new Date(y, m, d)\<close>; a year from 0 to 99 counts from 1900.\<close>

definition newDate :: "int \<Rightarrow> int \<Rightarrow> int \<Rightarrow> int" where
  "newDate y m d = make_day (if 0 \<le> y \<and> y \<le> 99 then 1900 + y else y) m d * MS_PER_DAY"

definition day_number :: "int \<Rightarrow> int" where
  "day_number t = t div MS_PER_DAY"

definition getFullYear :: "int \<Rightarrow> int" where "getFullYear t = year_of_day (day_number t)"
definition getMonth :: "int \<Rightarrow> int" where "getMonth t = month_of_day (day_number t)"
definition getDate :: "int \<Rightarrow> int" where "getDate t = date_of_day (day_number t)"
definition getDay :: "int \<Rightarrow> int" where "getDay t = weekday_of_day (day_number t)"

section \<open>Years\<close>

lemma div_step: "0 < k \<Longrightarrow> (z + 1) div k = z div k + (if (z + 1) mod k = 0 then 1 else 0)" for z k :: int
proof -
  assume k: "0 < k"
  have z: "z = k * (z div k) + z mod k" "0 \<le> z mod k" "z mod k < k" using k by auto
  show ?thesis
  proof (cases "z mod k + 1 = k")
    case True
    then have "z + 1 = k * (z div k) + k" using z(1) by linarith
    then have e: "z + 1 = k * (z div k + 1)" by (simp add: distrib_left)
    show ?thesis unfolding e using k by simp
  next
    case False
    then have b: "0 \<le> z mod k + 1" "z mod k + 1 < k" using z by auto
    have e: "z + 1 = (z mod k + 1) + k * (z div k)" using z(1) by simp
    have "(z + 1) div k = z div k" "(z + 1) mod k = z mod k + 1"
      using int_div_pos_eq [of "z + 1" k "z div k" "z mod k + 1"] int_mod_pos_eq [of "z + 1" k "z div k" "z mod k + 1"]
        e b by (simp_all add: algebra_simps)
    then show ?thesis using z by simp
  qed
qed

lemma div_between: "0 < k \<Longrightarrow> k * (z div k) \<le> z" "0 < k \<Longrightarrow> z < k * (z div k) + k" for z k :: int
  using mult_div_mod_eq [of k z] pos_mod_bound [of k z] pos_mod_sign [of k z] by linarith+

lemma day_from_year_step: "day_from_year (y + 1) = day_from_year y + year_length y"
proof -
  have m: "(y - 1969 + 1) mod 4 = 0 \<longleftrightarrow> y mod 4 = 0" "(y - 1901 + 1) mod 100 = 0 \<longleftrightarrow> y mod 100 = 0"
    "(y - 1601 + 1) mod 400 = 0 \<longleftrightarrow> y mod 400 = 0"
    using mod_mult_self1 [of y "-492" 4] mod_mult_self1 [of y "-19" 100] mod_mult_self1 [of y "-4" 400]
    by simp_all
  have i: "y mod 400 = 0 \<Longrightarrow> y mod 100 = 0" "y mod 100 = 0 \<Longrightarrow> y mod 4 = 0"
    using dvd_trans [of 100 400 y] dvd_trans [of 4 100 y] by (simp_all add: mod_eq_0_iff_dvd)
  have s: "y + 1 - 1969 = y - 1969 + 1" "y + 1 - 1901 = y - 1901 + 1" "y + 1 - 1601 = y - 1601 + 1" by simp_all
  have arith: "365 * (y + 1 - 1970) + (a + p) - (b + q) + (c + r) =
      365 * (y - 1970) + a - b + c + 365 + p - q + r" for a b c p q r :: int by simp
  have e: "day_from_year (y + 1) = day_from_year y + 365 + (if y mod 4 = 0 then 1 else 0)
      - (if y mod 100 = 0 then 1 else 0) + (if y mod 400 = 0 then 1 else 0)"
    unfolding day_from_year_def s div_step [OF zero_less_numeral] m by (rule arith)
  have count: "x + 365 + (if P then 1 else 0) - (if Q then 1 else 0) + (if R then 1 else 0) =
      x + (if P \<and> (\<not> Q \<or> R) then 366 else 365)" if "R \<Longrightarrow> Q" "Q \<Longrightarrow> P" for x :: int and P Q R
    using that by (cases P; cases Q; cases R) auto
  show ?thesis unfolding e year_length_def leap_def by (rule count) (rule i, assumption)+
qed

lemma year_length_pos: "365 \<le> year_length y" "year_length y \<le> 366"
  by (simp_all add: year_length_def)

lemma day_from_year_mono: "y \<le> z \<Longrightarrow> day_from_year y \<le> day_from_year z"
proof (induction z rule: int_ge_induct)
  case (step z)
  then show ?case using day_from_year_step [of z] year_length_pos [of z] by linarith
qed simp

lemma year_bounds:
  "day_from_year (year_of_day d) \<le> d" "d < day_from_year (year_of_day d + 1)"
proof -
  define y where "y = 1970 + (400 * d) div 146097"
  have lower: "146097 * (y - 1970) - 800 \<le> 400 * (365 * (y - 1970) + a - b + c)"
    if "y - 1969 < 4 * a + 4" "100 * b \<le> y - 1901" "y - 1601 < 400 * c + 400" for y a b c :: int
    using that by (simp add: algebra_simps)
  have upper: "400 * (365 * (y - 1970) + a - b + c) \<le> 146097 * (y - 1970) + 800"
    if "4 * a \<le> y - 1969" "y - 1901 < 100 * b + 100" "400 * c \<le> y - 1601" for y a b c :: int
    using that by (simp add: algebra_simps)
  note lower = lower [OF div_between(2) div_between(1) div_between(2), folded day_from_year_def, simplified]
  note upper = upper [OF div_between(1) div_between(2) div_between(1), folded day_from_year_def, simplified]
  have e: "146097 * (y - 1970) \<le> 400 * d" "400 * d < 146097 * (y - 1970) + 146097"
    using div_between [of 146097 "400 * d"] by (simp_all add: y_def)
  have lo: "day_from_year (y - 1) \<le> d" using upper [of "y - 1"] e by (simp add: algebra_simps)
  have hi: "d < day_from_year (y + 2)" using lower [of "y + 2"] e by (simp add: algebra_simps)
  show "day_from_year (year_of_day d) \<le> d" "d < day_from_year (year_of_day d + 1)"
    using lo hi by (auto simp: year_of_day_def Let_def add.assoc y_def [symmetric])
qed

lemma year_of_day_eqI: "day_from_year y \<le> d \<Longrightarrow> d < day_from_year (y + 1) \<Longrightarrow> year_of_day d = y"
  using year_bounds [of d] day_from_year_mono [of "year_of_day d + 1" y]
    day_from_year_mono [of "y + 1" "year_of_day d"] by linarith

section \<open>Months\<close>

lemma month_length_bounds: "28 \<le> month_length y m" "month_length y m \<le> 31"
  by (simp_all add: month_length_def)

lemma days_before_year: "days_before y 12 = year_length y"
  by (simp add: numeral_eq_Suc month_length_def year_length_def)

lemma days_before_mono: "m \<le> n \<Longrightarrow> days_before y m \<le> days_before y n"
proof (induction n rule: dec_induct)
  case (step n)
  then show ?case using month_length_bounds(1) [of y "int n"] by simp
qed simp

lemma days_before_nonneg: "0 \<le> days_before y m"
  using days_before_mono [of 0 m y] by simp

lemma month_search_spec:
  "0 \<le> k \<Longrightarrow> k < days_before y (Suc n) \<Longrightarrow>
     month_search y k n \<le> n \<and> days_before y (month_search y k n) \<le> k \<and>
     k < days_before y (Suc (month_search y k n))"
  by (induction n) auto

lemma month_search_eqI:
  assumes "days_before y m \<le> k" "k < days_before y (Suc m)" "m \<le> n"
  shows "month_search y k n = m"
  using assms(3)
proof (induction n rule: dec_induct)
  case base
  then show ?case using assms(1) by (cases m) auto
next
  case (step n)
  then show ?case using assms(2) days_before_mono [of "Suc m" "Suc n" y] by simp
qed

section \<open>Civil dates and day numbers\<close>

lemma civil_bounds:
  "0 \<le> month_of_day d" "month_of_day d \<le> 11" "1 \<le> date_of_day d"
  "date_of_day d \<le> month_length (year_of_day d) (month_of_day d)"
proof -
  let ?y = "year_of_day d" and ?k = "d - day_from_year (year_of_day d)"
  have k: "0 \<le> ?k" "?k < days_before ?y (Suc 11)"
    using year_bounds [of d] day_from_year_step [of ?y] days_before_year [of ?y] by simp_all
  from month_search_spec [OF k]
  show "0 \<le> month_of_day d" "month_of_day d \<le> 11" "1 \<le> date_of_day d"
    "date_of_day d \<le> month_length (year_of_day d) (month_of_day d)"
    by (simp_all add: month_of_day_def date_of_day_def Let_def)
qed

lemma make_day_civil: "make_day (year_of_day d) (month_of_day d) (date_of_day d) = d"
  using civil_bounds(1,2) [of d]
  by (simp add: make_day_def div_pos_pos_trivial mod_pos_pos_trivial)
    (simp add: month_of_day_def date_of_day_def Let_def)

lemma civil_make_day:
  assumes "1 \<le> d" "d \<le> month_length (y + m div 12) (m mod 12)"
  shows "year_of_day (make_day y m d) = y + m div 12"
    "month_of_day (make_day y m d) = m mod 12" "date_of_day (make_day y m d) = d"
proof -
  let ?y = "y + m div 12" and ?m = "nat (m mod 12)"
  let ?k = "days_before ?y ?m + d - 1"
  have m: "?m \<le> 11" "int ?m = m mod 12" by auto
  have k: "0 \<le> ?k" "days_before ?y ?m \<le> ?k" "?k < days_before ?y (Suc ?m)"
    using assms days_before_nonneg [of ?y ?m] m by simp_all
  have "?k < year_length ?y" using k(3) days_before_mono [of "Suc ?m" 12 ?y] m(1) days_before_year [of ?y] by linarith
  then show y: "year_of_day (make_day y m d) = ?y"
    using k(1) day_from_year_step [of ?y] by (intro year_of_day_eqI) (simp_all add: make_day_def)
  have e: "make_day y m d - day_from_year ?y = ?k" by (simp add: make_day_def)
  have s: "month_search ?y ?k 11 = ?m" by (rule month_search_eqI [OF k(2,3) m(1)])
  show "month_of_day (make_day y m d) = m mod 12" "date_of_day (make_day y m d) = d"
    using s m(2) by (simp_all add: month_of_day_def date_of_day_def Let_def y e)
qed

end
