(* ===== verification/Recurrence.thy ===== *)
theory Recurrence
  imports Js_Calendar
begin

text \<open>
  Scheduled-transaction recurrences (src/lib/recurrence.ts). Dates are the \<open>Date\<close> values of
  \<open>Js_Calendar\<close>. The generator is its state (the loop counter and the dates of the current
  round still to be yielded) and one function that asks it for the next date.
\<close>

datatype period_type = Once | Daily | Weekly | Month | EndOfMonth | NthWeekday | LastWeekday
  | SemiMonthly | Year | OtherPeriod string

datatype weekend_adjust = AdjustNone | AdjustBack | AdjustForward | OtherAdjust string

record recurrence_pattern =
  periodType :: period_type
  mult :: int
  periodStart :: int
  weekendAdjust :: weekend_adjust

definition lastDayOfMonth :: "int \<Rightarrow> int \<Rightarrow> int" where
  "lastDayOfMonth year month = getDate (newDate year (month + 1) 0)"

definition clampDay :: "int \<Rightarrow> int \<Rightarrow> int \<Rightarrow> int" where
  "clampDay year month day = min day (lastDayOfMonth year month)"

definition shiftDays :: "int \<Rightarrow> int \<Rightarrow> int" where
  "shiftDays date n = newDate (getFullYear date) (getMonth date) (getDate date + n)"

definition applyWeekendAdjust :: "int \<Rightarrow> weekend_adjust \<Rightarrow> int" where
  "applyWeekendAdjust date adjust =
     (let dow = getDay date in
      if adjust = AdjustBack then
        (if dow = 0 then shiftDays date (-2) else if dow = 6 then shiftDays date (-1) else date)
      else if adjust = AdjustForward then
        (if dow = 0 then shiftDays date 1 else if dow = 6 then shiftDays date 2 else date)
      else date)"

definition monthDay :: "int \<Rightarrow> int \<Rightarrow> int \<Rightarrow> int" where
  "monthDay year month day =
     (let targetYear = year + month div 12;
          targetMonth = (month smod 12 + 12) smod 12
      in newDate targetYear targetMonth (clampDay targetYear targetMonth day))"

definition addMonths :: "int \<Rightarrow> int \<Rightarrow> int" where
  "addMonths base n = monthDay (getFullYear base) (getMonth base + n) (getDate base)"

text \<open>The loop \<open>while (day > last) day -= 7\<close>.\<close>

function back_weeks :: "int \<Rightarrow> int \<Rightarrow> int" where
  "back_weeks day lastDay = (if day > lastDay then back_weeks (day - 7) lastDay else day)"
  by pat_completeness auto
termination
  by (relation "measure (\<lambda>(day, lastDay). nat (day - lastDay))") auto

declare back_weeks.simps [simp del]

definition nthWeekdayOfMonth :: "int \<Rightarrow> int \<Rightarrow> int \<Rightarrow> int \<Rightarrow> int" where
  "nthWeekdayOfMonth year month weekday nth_occ =
     (let firstDow = getDay (newDate year month 1);
          last = lastDayOfMonth year month
      in newDate year month
          (back_weeks (1 + (weekday - firstDow + 7) smod 7 + (nth_occ - 1) * 7) last))"

definition lastWeekdayOfMonth :: "int \<Rightarrow> int \<Rightarrow> int \<Rightarrow> int" where
  "lastWeekdayOfMonth year month weekday =
     (let last = lastDayOfMonth year month;
          lastDow = getDay (newDate year month last)
      in newDate year month (last - (lastDow - weekday + 7) smod 7))"

definition weekdayAnchor :: "int \<Rightarrow> int \<times> int" where
  "weekdayAnchor start = (getDay start, (getDate start - 1) div 7 + 1)"

definition weekdayOccurrence :: "period_type \<Rightarrow> int \<Rightarrow> int \<Rightarrow> int \<Rightarrow> int" where
  "weekdayOccurrence pt start year month =
     (let (weekday, ordinal) = weekdayAnchor start; base = monthDay year month 1
      in if pt = LastWeekday then lastWeekdayOfMonth (getFullYear base) (getMonth base) weekday
         else nthWeekdayOfMonth (getFullYear base) (getMonth base) weekday ordinal)"

definition endOfMonth :: "int \<Rightarrow> int \<Rightarrow> int" where
  "endOfMonth year month =
     (let base = monthDay year month 1
      in newDate (getFullYear base) (getMonth base) (lastDayOfMonth (getFullYear base) (getMonth base)))"

definition semiMonthlyAnchorDays :: "int \<Rightarrow> int \<Rightarrow> int \<Rightarrow> int list" where
  "semiMonthlyAnchorDays start year month =
     (let first = clampDay year month (getDate start); second = clampDay year month (getDate start + 15)
      in if first = second then [first] else [first, second])"

section \<open>The generator\<close>

text \<open>
  \<open>raw_round p start step\<close>: the dates the generator yields in round \<open>step\<close> of its loop; no
  date means that it has returned.
\<close>

definition raw_round :: "recurrence_pattern \<Rightarrow> int \<Rightarrow> int \<Rightarrow> int list" where
  "raw_round p start step =
     (let y = getFullYear start; m = getMonth start in
      case periodType p of
        Once \<Rightarrow> if step = 0
          then [newDate (getFullYear (periodStart p)) (getMonth (periodStart p)) (getDate (periodStart p))] else []
      | Daily \<Rightarrow> let base = newDate y m (getDate start) in [shiftDays base (step * mult p)]
      | Weekly \<Rightarrow> let base = newDate y m (getDate start) in [shiftDays base (step * mult p * 7)]
      | Month \<Rightarrow> [monthDay y (m + step * mult p) (getDate (periodStart p))]
      | EndOfMonth \<Rightarrow> [endOfMonth y (m + step * mult p)]
      | SemiMonthly \<Rightarrow>
          let totalMonth = m + step * mult p; y' = y + totalMonth div 12; m' = (totalMonth smod 12 + 12) smod 12
          in map (newDate y' m') (semiMonthlyAnchorDays (periodStart p) y' m')
      | Year \<Rightarrow>
          let year = y + step * mult p; am = getMonth (periodStart p)
          in [newDate year am (clampDay year am (getDate (periodStart p)))]
      | NthWeekday \<Rightarrow> [weekdayOccurrence NthWeekday (periodStart p) y (m + step * mult p)]
      | LastWeekday \<Rightarrow> [weekdayOccurrence LastWeekday (periodStart p) y (m + step * mult p)]
      | OtherPeriod _ \<Rightarrow> [])"

type_synonym generator = "int \<times> int list"

definition next_raw :: "recurrence_pattern \<Rightarrow> int \<Rightarrow> generator \<Rightarrow> (int \<times> generator) option" where
  "next_raw p start g = (case g of
      (step, d # ds) \<Rightarrow> Some (d, (step, ds))
    | (step, []) \<Rightarrow> (case raw_round p start step of
        [] \<Rightarrow> None
      | d # ds \<Rightarrow> Some (d, (step + 1, ds))))"

section \<open>Recovering the raw date\<close>

definition sameCalendarDay :: "int \<Rightarrow> int \<Rightarrow> bool" where
  "sameCalendarDay a b \<longleftrightarrow> getFullYear a = getFullYear b \<and> getMonth a = getMonth b \<and> getDate a = getDate b"

definition ANCHORED_PERIOD_TYPES :: "period_type list" where
  "ANCHORED_PERIOD_TYPES = [Month, EndOfMonth, NthWeekday, LastWeekday, SemiMonthly, Year]"

definition MONTHLY_PERIOD_TYPES :: "period_type list" where
  "MONTHLY_PERIOD_TYPES = filter (\<lambda>t. t \<noteq> Year) ANCHORED_PERIOD_TYPES"

definition matchesRawAnchor :: "recurrence_pattern \<Rightarrow> int \<Rightarrow> bool" where
  "matchesRawAnchor p candidate =
     (let year = getFullYear candidate; month = getMonth candidate in
      case periodType p of
        Month \<Rightarrow> getDate candidate = clampDay year month (getDate (periodStart p))
      | EndOfMonth \<Rightarrow> getDate candidate = lastDayOfMonth year month
      | NthWeekday \<Rightarrow> sameCalendarDay candidate (weekdayOccurrence NthWeekday (periodStart p) year month)
      | LastWeekday \<Rightarrow> sameCalendarDay candidate (weekdayOccurrence LastWeekday (periodStart p) year month)
      | SemiMonthly \<Rightarrow> getDate candidate \<in> set (semiMonthlyAnchorDays (periodStart p) year month)
      | Year \<Rightarrow> month = getMonth (periodStart p)
          \<and> getDate candidate = clampDay year month (getDate (periodStart p))
      | _ \<Rightarrow> False)"

definition raw_candidates :: "recurrence_pattern \<Rightarrow> int \<Rightarrow> int list" where
  "raw_candidates p lastOccur =
     filter (\<lambda>c. matchesRawAnchor p c \<and> sameCalendarDay (applyWeekendAdjust c (weekendAdjust p)) lastOccur)
       (map (shiftDays lastOccur) [-2, -1, 0, 1, 2])"

definition rawAnchoredOccurrence :: "recurrence_pattern \<Rightarrow> int \<Rightarrow> int" where
  "rawAnchoredOccurrence p lastOccur =
     (if weekendAdjust p = AdjustNone then lastOccur
      else if raw_candidates p lastOccur = [] then lastOccur
      else hd (stable_sort (\<lambda>a b. \<bar>a - lastOccur\<bar> - \<bar>b - lastOccur\<bar>) (raw_candidates p lastOccur)))"

definition occurrenceBelongsToMonthlyPattern :: "recurrence_pattern \<Rightarrow> int \<Rightarrow> bool" where
  "occurrenceBelongsToMonthlyPattern p occurrence =
     (if periodType p \<notin> set MONTHLY_PERIOD_TYPES then True
      else let raw = rawAnchoredOccurrence p occurrence in
        if \<not> matchesRawAnchor p raw then False
        else let monthDelta = (getFullYear raw - getFullYear (periodStart p)) * 12
                + getMonth raw - getMonth (periodStart p)
          in monthDelta \<ge> 0 \<and> mult p \<noteq> 0 \<and> monthDelta smod mult p = 0)"

definition computeFirstAfterLast :: "recurrence_pattern \<Rightarrow> int \<Rightarrow> int" where
  "computeFirstAfterLast p lastOccur =
     (let rawLast = (if periodType p \<in> set ANCHORED_PERIOD_TYPES then rawAnchoredOccurrence p lastOccur else lastOccur);
          y = getFullYear rawLast; m = getMonth rawLast
      in case periodType p of
        Daily \<Rightarrow> shiftDays lastOccur (mult p)
      | Weekly \<Rightarrow> shiftDays lastOccur (mult p * 7)
      | Month \<Rightarrow> monthDay y (m + mult p) (getDate (periodStart p))
      | EndOfMonth \<Rightarrow> endOfMonth y (m + mult p)
      | NthWeekday \<Rightarrow> weekdayOccurrence NthWeekday (periodStart p) y (m + mult p)
      | LastWeekday \<Rightarrow> weekdayOccurrence LastWeekday (periodStart p) y (m + mult p)
      | SemiMonthly \<Rightarrow>
          (case find (\<lambda>day. day > getDate rawLast) (semiMonthlyAnchorDays (periodStart p) y m) of
             Some nextAnchor \<Rightarrow> newDate y m nextAnchor
           | None \<Rightarrow>
               let next' = addMonths rawLast (mult p)
               in newDate (getFullYear next') (getMonth next')
                   (hd (semiMonthlyAnchorDays (periodStart p) (getFullYear next') (getMonth next'))))
      | Year \<Rightarrow>
          let targetYear = y + mult p; month = getMonth (periodStart p)
          in newDate targetYear month (clampDay targetYear month (getDate (periodStart p)))
      | _ \<Rightarrow> newDate (getFullYear lastOccur) (getMonth lastOccur) (getDate lastOccur))"

section \<open>The occurrences\<close>

text \<open>
  The main loop. \<open>iterations++ > maxIterations\<close> lets it process \<open>maxIterations + 1\<close> dates;
  \<open>got\<close> is the length of \<open>results\<close>.
\<close>

definition maxIterations :: nat where
  "maxIterations = 10000"

fun collect ::
    "recurrence_pattern \<Rightarrow> int \<Rightarrow> int option \<Rightarrow> int \<Rightarrow> int \<Rightarrow> nat \<Rightarrow> generator \<Rightarrow> int option \<Rightarrow> int \<Rightarrow> int list" where
  "collect p start endDate afterDate wanted 0 g remaining got = []"
| "collect p start endDate afterDate wanted (Suc fuel) g remaining got =
     (case next_raw p start g of
        None \<Rightarrow> []
      | Some (raw, g') \<Rightarrow>
          let adjusted = applyWeekendAdjust raw (weekendAdjust p) in
          if (case endDate of None \<Rightarrow> False | Some e \<Rightarrow> adjusted > e) then []
          else if adjusted \<le> afterDate then collect p start endDate afterDate wanted fuel g' remaining got
          else adjusted #
            (if (case remaining of None \<Rightarrow> False | Some r \<Rightarrow> r - 1 \<le> 0) \<or> got + 1 \<ge> wanted then []
             else collect p start endDate afterDate wanted fuel g' (map_option (\<lambda>r. r - 1) remaining) (got + 1)))"

definition startFrom :: "recurrence_pattern \<Rightarrow> int option \<Rightarrow> int" where
  "startFrom p lastOccur = (case lastOccur of
      Some l \<Rightarrow> computeFirstAfterLast p l
    | None \<Rightarrow> newDate (getFullYear (periodStart p)) (getMonth (periodStart p)) (getDate (periodStart p)))"

definition computeNextOccurrences ::
    "recurrence_pattern \<Rightarrow> int option \<Rightarrow> int option \<Rightarrow> int option \<Rightarrow> int \<Rightarrow> int \<Rightarrow> int list" where
  "computeNextOccurrences p lastOccur endDate remaining wanted afterDate =
     (if (case remaining of None \<Rightarrow> False | Some r \<Rightarrow> r \<le> 0) then []
      else if wanted \<le> 0 then []
      else collect p (startFrom p lastOccur) endDate afterDate wanted (Suc maxIterations) (0, []) remaining 0)"

definition computeNextOccurrencesForPatterns ::
    "recurrence_pattern list \<Rightarrow> int option \<Rightarrow> int option \<Rightarrow> int option \<Rightarrow> int \<Rightarrow> int \<Rightarrow> int list" where
  "computeNextOccurrencesForPatterns ps lastOccur endDate remaining wanted afterDate =
     (if ps = [] \<or> wanted \<le> 0 then []
      else let dates = concat (map (\<lambda>p. computeNextOccurrences p
            (case lastOccur of Some l \<Rightarrow> if occurrenceBelongsToMonthlyPattern p l then Some l else None | None \<Rightarrow> None)
            endDate remaining wanted afterDate) ps)
      in take (nat (min wanted (case remaining of None \<Rightarrow> wanted | Some r \<Rightarrow> r)))
          (stable_sort (\<lambda>a b. a - b) (remdups dates)))"

section \<open>Dates built and read\<close>

text \<open>Years from 100 on, which \<open>new Date(y, m, d)\<close> does not shift.\<close>

definition full_year :: "int \<Rightarrow> bool" where
  "full_year y \<longleftrightarrow> 100 \<le> y"

lemma newDate_full: "full_year y \<Longrightarrow> newDate y m d = make_day y m d * MS_PER_DAY"
  by (simp add: newDate_def full_year_def)

lemma day_number_midnight [simp]: "day_number (d * MS_PER_DAY) = d"
  by (simp add: day_number_def MS_PER_DAY_def)

lemma fields_midnight [simp]:
  "getFullYear (d * MS_PER_DAY) = year_of_day d" "getMonth (d * MS_PER_DAY) = month_of_day d"
  "getDate (d * MS_PER_DAY) = date_of_day d" "getDay (d * MS_PER_DAY) = weekday_of_day d"
  by (simp_all add: getFullYear_def getMonth_def getDate_def getDay_def)

lemma make_day_add: "make_day y m (d + n) = make_day y m d + n"
  by (simp add: make_day_def)

lemma shiftDays_eq:
  assumes "full_year (getFullYear t)"
  shows "shiftDays t n = (day_number t + n) * MS_PER_DAY"
  using make_day_civil [of "day_number t"]
  by (simp add: shiftDays_def newDate_full [OF assms] make_day_add)
    (simp add: getFullYear_def getMonth_def getDate_def)

lemma year_of_day_mono: "a \<le> b \<Longrightarrow> year_of_day a \<le> year_of_day b"
  using year_bounds [of a] year_bounds [of b] day_from_year_mono [of "year_of_day b + 1" "year_of_day a"] by linarith

text \<open>Months numbered through: month \<open>i\<close> is month \<open>i mod 12\<close> of year \<open>i div 12\<close>.\<close>

definition month_days :: "int \<Rightarrow> int" where
  "month_days i = month_length (i div 12) (i mod 12)"

definition month_index :: "int \<Rightarrow> int" where
  "month_index d = 12 * year_of_day d + month_of_day d"

lemma make_day_index: "make_day y m d = make_day 0 (12 * y + m) d"
  by (simp add: make_day_def)

lemma month_days_bounds: "28 \<le> month_days i" "month_days i \<le> 31"
  by (simp_all add: month_days_def month_length_bounds)

lemma split_index:
  assumes "0 \<le> r" "r < 12"
  shows "(12 * y + r) div 12 = y" "(12 * y + r) mod 12 = (r :: int)"
  using int_div_pos_eq [of "12 * y + r" 12 y r] int_mod_pos_eq [of "12 * y + r" 12 y r] assms by simp_all

lemma next_month_parts:
  assumes r: "0 \<le> r" "r < 12"
  shows "make_day 0 (12 * y + r + 1) 1 = make_day 0 (12 * y + r) 1 + month_days (12 * y + r)"
proof (cases "r = 11")
  case True
  have e: "12 * y + r + 1 = 12 * (y + 1) + 0" using True by simp
  have "days_before y 11 + month_length y 11 = year_length y"
    using days_before_year [of y] by (simp add: numeral_eq_Suc)
  moreover have "make_day 0 (12 * y + r + 1) 1 = day_from_year (y + 1)"
    unfolding e make_day_def split_index [of 0 "y + 1", simplified] by simp
  ultimately show ?thesis using True day_from_year_step [of y]
    by (simp add: make_day_def month_days_def split_index [OF r])
next
  case False
  then have r': "0 \<le> r + 1" "r + 1 < 12" using r by linarith+
  have "nat (r + 1) = Suc (nat r)" using r by simp
  then show ?thesis using r
    by (simp add: make_day_def month_days_def split_index [OF r] split_index [OF r'] add.assoc
        mod_pos_pos_trivial [OF r'])
qed

lemma next_month: "make_day 0 (i + 1) 1 = make_day 0 i 1 + month_days i"
  using next_month_parts [of "i mod 12" "i div 12"] by simp

lemma make_day_split: "make_day 0 i d = make_day 0 i 1 + (d - 1)"
  using make_day_add [of 0 i 1 "d - 1"] by simp

lemma civil_index:
  assumes "1 \<le> d" "d \<le> month_days i"
  shows "year_of_day (make_day 0 i d) = i div 12" "month_of_day (make_day 0 i d) = i mod 12"
    "date_of_day (make_day 0 i d) = d" "month_index (make_day 0 i d) = i"
  using civil_make_day [of d 0 i] assms by (simp_all add: month_days_def month_index_def)

lemma day_of_index: "make_day 0 (month_index d) (date_of_day d) = d"
  using make_day_civil [of d] by (simp add: month_index_def make_day_index [symmetric])

lemma month_index_parts: "month_index d div 12 = year_of_day d" "month_index d mod 12 = month_of_day d"
  using civil_bounds(1,2) [of d] by (simp_all add: month_index_def)

lemma date_bounds: "1 \<le> date_of_day d" "date_of_day d \<le> month_days (month_index d)"
  using civil_bounds(3,4) [of d] by (simp_all add: month_days_def month_index_parts)

lemma js_mod: "0 < k \<Longrightarrow> (m smod k + k) smod k = m mod k" for m k :: int
proof -
  assume k: "0 < k"
  have "\<bar>m smod k\<bar> < k" using abs_smod_less [of k m] k by simp
  then have "(m smod k + k) smod k = (m smod k + k) mod k" by (intro smod_nonneg) (use k in auto)
  also have "\<dots> = m mod k" using mod_mult_self1 [of m "1 - m sdiv k" k] by (simp add: smod_eq algebra_simps)
  finally show ?thesis .
qed

lemma lastDayOfMonth_eq:
  assumes "full_year y" "0 \<le> m" "m \<le> 11"
  shows "lastDayOfMonth y m = month_days (12 * y + m)"
proof -
  have e: "make_day y (m + 1) 0 = make_day 0 (12 * y + m) (month_days (12 * y + m))"
    using next_month [of "12 * y + m"] make_day_split [of "12 * y + m + 1" 0]
      make_day_split [of "12 * y + m" "month_days (12 * y + m)"]
    by (simp add: make_day_index [of y] add.assoc)
  have "(1::int) \<le> month_days (12 * y + m)" using month_days_bounds(1) [of "12 * y + m"] by simp
  then show ?thesis by (simp add: lastDayOfMonth_def newDate_full [OF assms(1)] e civil_index(3))
qed

text \<open>\<open>monthDay\<close> lands in the month it names, on the day or the last one before it.\<close>

lemma monthDay_eq:
  assumes "full_year (y + m div 12)"
  shows "monthDay y m d = make_day 0 (12 * y + m) (min d (month_days (12 * y + m))) * MS_PER_DAY"
proof -
  have i: "12 * (y + m div 12) + m mod 12 = 12 * y + m" by simp
  have "0 \<le> m mod 12" "m mod 12 \<le> 11" by simp_all
  note l = lastDayOfMonth_eq [OF assms this, unfolded i]
  show ?thesis
    by (simp only: monthDay_def Let_def js_mod zero_less_numeral clampDay_def l newDate_full [OF assms]
        make_day_index [of "y + m div 12"] i)
qed

lemma min_day: "1 \<le> d \<Longrightarrow> 1 \<le> min d (month_days i)" "min d (month_days i) \<le> month_days i"
  using month_days_bounds(1) [of i] by simp_all

section \<open>Weekends\<close>

lemma weekend_adjust_days:
  assumes "100 \<le> year_of_day d"
  obtains n where "applyWeekendAdjust (d * MS_PER_DAY) w = (d + n) * MS_PER_DAY" "- 2 \<le> n" "n \<le> 2"
    "w = AdjustNone \<Longrightarrow> n = 0" "w = AdjustBack \<or> w = AdjustForward \<Longrightarrow> weekday_of_day (d + n) \<notin> {0, 6}"
    "weekday_of_day d \<notin> {0, 6} \<Longrightarrow> n = 0"
proof -
  have s: "shiftDays (d * MS_PER_DAY) n = (d + n) * MS_PER_DAY" for n
    using shiftDays_eq [of "d * MS_PER_DAY" n] assms by (simp add: full_year_def)
  have w: "weekday_of_day (d - 2) = (weekday_of_day d - 2) mod 7" "weekday_of_day (d - 1) = (weekday_of_day d - 1) mod 7"
    "weekday_of_day (d + 1) = (weekday_of_day d + 1) mod 7" "weekday_of_day (d + 2) = (weekday_of_day d + 2) mod 7"
    unfolding weekday_of_day_def mod_add_left_eq mod_diff_left_eq by (simp_all add: ac_simps)
  let ?n = "if w = AdjustBack then (if weekday_of_day d = 0 then -2 else if weekday_of_day d = 6 then -1 else 0)
    else if w = AdjustForward then (if weekday_of_day d = 0 then 1 else if weekday_of_day d = 6 then 2 else 0) else 0"
  show ?thesis
    by (rule that [of ?n]) (auto simp: applyWeekendAdjust_def Let_def s w)
qed

lemma year_near: "101 \<le> year_of_day d \<Longrightarrow> - 4 \<le> n \<Longrightarrow> 100 \<le> year_of_day (d + n)"
proof -
  assume a: "101 \<le> year_of_day d" "- 4 \<le> n"
  have "day_from_year 101 \<le> d" using year_bounds(1) [of d] day_from_year_mono [OF a(1)] by linarith
  moreover have "day_from_year 100 + 4 \<le> day_from_year 101" by (simp add: day_from_year_def)
  ultimately have "day_from_year 100 \<le> d + n" using a(2) by linarith
  then have "year_of_day (day_from_year 100) \<le> year_of_day (d + n)" by (rule year_of_day_mono)
  moreover have "year_of_day (day_from_year 100) = 100"
    using day_from_year_step [of 100] year_length_pos(1) [of 100] by (intro year_of_day_eqI) simp_all
  ultimately show ?thesis by simp
qed

section \<open>Patterns anchored on the calendar\<close>

text \<open>
  What the monthly and yearly patterns share: a sequence of raw days, one for each month (or
  year), far enough apart that a weekend adjustment cannot confuse two of them, and the
  pattern's functions phrased over that sequence.
\<close>

locale anchored =
  fixes p :: recurrence_pattern and anchor :: "int \<Rightarrow> int" and index :: "int \<Rightarrow> int" and lo :: int
  assumes apart: "anchor i + 5 \<le> anchor (i + 1)"
    and late: "lo \<le> i \<Longrightarrow> 101 \<le> year_of_day (anchor i)"
    and index_anchor: "lo \<le> i \<Longrightarrow> index (anchor i) = i"
    and matches: "100 \<le> year_of_day d \<Longrightarrow> matchesRawAnchor p (d * MS_PER_DAY) \<longleftrightarrow> d = anchor (index d)"
    and rounds: "lo \<le> index d + k * mult p \<Longrightarrow>
      raw_round p (d * MS_PER_DAY) k = [anchor (index d + k * mult p) * MS_PER_DAY]"
    and first: "lo \<le> i \<Longrightarrow> lo \<le> i + mult p \<Longrightarrow> rawAnchoredOccurrence p l = anchor i * MS_PER_DAY \<Longrightarrow>
      computeFirstAfterLast p l = anchor (i + mult p) * MS_PER_DAY"
begin

lemma far: "i < j \<Longrightarrow> anchor i + 5 \<le> anchor j"
proof (induction j rule: int_gr_induct)
  case base
  show ?case by (rule apart)
next
  case (step j)
  then show ?case using apart [of j] by linarith
qed

lemma near_unique: "\<bar>anchor i - anchor j\<bar> \<le> 4 \<Longrightarrow> i = j"
  using far [of i j] far [of j i] by linarith

lemma recover:
  assumes "lo \<le> i"
  shows "rawAnchoredOccurrence p (applyWeekendAdjust (anchor i * MS_PER_DAY) (weekendAdjust p)) = anchor i * MS_PER_DAY"
proof -
  have y: "100 \<le> year_of_day (anchor i + n)" if "- 4 \<le> n" for n using year_near [OF late [OF assms] that] .
  obtain n where n: "applyWeekendAdjust (anchor i * MS_PER_DAY) (weekendAdjust p) = (anchor i + n) * MS_PER_DAY"
    "- 2 \<le> n" "n \<le> 2" "weekendAdjust p = AdjustNone \<Longrightarrow> n = 0"
    using weekend_adjust_days [OF y [of 0, simplified]] by metis
  let ?a = "(anchor i + n) * MS_PER_DAY"
  have sh: "shiftDays ?a m = (anchor i + (n + m)) * MS_PER_DAY" for m
    using shiftDays_eq [of ?a m] y [of n] n(2) by (simp add: full_year_def add.assoc)
  have all: "c = anchor i * MS_PER_DAY" if c: "c \<in> set (raw_candidates p ?a)" for c
  proof -
    have "c \<in> shiftDays ?a ` set [-2, -1, 0, 1, 2]" and mc: "matchesRawAnchor p c"
      using c unfolding raw_candidates_def set_filter set_map by (simp_all only: mem_Collect_eq simp_thms)
    then obtain m where "c = shiftDays ?a m" "m \<in> set [-2, -1, 0, 1, 2]" by (elim imageE)
    then have m: "c = (anchor i + (n + m)) * MS_PER_DAY" "- 2 \<le> m" "m \<le> 2" "matchesRawAnchor p c"
      using mc by (auto simp: sh)
    then have "anchor i + (n + m) = anchor (index (anchor i + (n + m)))"
      using matches [OF y [of "n + m"]] n by simp
    then show ?thesis using near_unique [of i "index (anchor i + (n + m))"] m n by auto
  qed
  have "anchor i * MS_PER_DAY \<in> set (raw_candidates p ?a)"
  proof -
    have "shiftDays ?a (- n) = anchor i * MS_PER_DAY" by (simp add: sh)
    moreover have "- n \<in> set [-2, -1, 0, 1, 2]" using n(2,3) by simp linarith
    moreover have "matchesRawAnchor p (anchor i * MS_PER_DAY)"
      using matches [OF y [of 0, simplified]] index_anchor [OF assms] by simp
    moreover have "sameCalendarDay (applyWeekendAdjust (anchor i * MS_PER_DAY) (weekendAdjust p)) ?a"
      unfolding n(1) by (simp add: sameCalendarDay_def)
    moreover have "shiftDays ?a (- n) \<in> shiftDays ?a ` set [-2, -1, 0, 1, 2]"
      using calculation(2) by (rule imageI)
    ultimately show ?thesis unfolding raw_candidates_def set_filter set_map
      by (intro CollectI conjI) simp_all
  qed
  then have ne: "raw_candidates p ?a \<noteq> []" by auto
  show ?thesis
  proof (cases "weekendAdjust p = AdjustNone")
    case True
    then show ?thesis using n(1,4) by (simp add: rawAnchoredOccurrence_def)
  next
    case False
    let ?s = "stable_sort (\<lambda>a b. \<bar>a - ?a\<bar> - \<bar>b - ?a\<bar>) (raw_candidates p ?a)"
    have "?s \<noteq> []" using ne by (metis set_empty set_stable_sort)
    then have "hd ?s \<in> set (raw_candidates p ?a)" by (metis hd_in_set set_stable_sort)
    then have "hd ?s = anchor i * MS_PER_DAY" by (rule all)
    then show ?thesis using False ne unfolding n(1) rawAnchoredOccurrence_def by simp
  qed
qed

text \<open>Advancing from a stored, weekend-adjusted occurrence gives the next raw date.\<close>

lemma advance:
  assumes "lo \<le> i" "lo \<le> i + mult p"
  shows "computeFirstAfterLast p (applyWeekendAdjust (anchor i * MS_PER_DAY) (weekendAdjust p))
    = anchor (i + mult p) * MS_PER_DAY"
  by (rule first [OF assms recover [OF assms(1)]])

text \<open>So the generator started from there goes on where the schedule stood.\<close>

lemma resume:
  assumes "lo \<le> index d" "0 \<le> mult p" "0 \<le> k" "0 \<le> j"
  shows "raw_round p (startFrom p (Some (applyWeekendAdjust (hd (raw_round p (d * MS_PER_DAY) k)) (weekendAdjust p)))) j
    = raw_round p (d * MS_PER_DAY) (k + 1 + j)"
proof -
  let ?i = "index d"
  have i: "lo \<le> ?i + m * mult p" if "0 \<le> m" for m using assms(1,2) that by (simp add: add_increasing2)
  have r: "raw_round p (d * MS_PER_DAY) k = [anchor (?i + k * mult p) * MS_PER_DAY]"
    by (rule rounds) (rule i [OF assms(3)])
  have s: "startFrom p (Some (applyWeekendAdjust (hd (raw_round p (d * MS_PER_DAY) k)) (weekendAdjust p)))
      = anchor (?i + (k + 1) * mult p) * MS_PER_DAY"
  proof -
    have e: "?i + k * mult p + mult p = ?i + (k + 1) * mult p" by (simp add: distrib_right)
    show ?thesis using advance [of "?i + k * mult p", unfolded e] i [of k] i [of "k + 1"] assms(3)
      by (simp add: startFrom_def r)
  qed
  have "index (anchor (?i + (k + 1) * mult p)) = ?i + (k + 1) * mult p"
    using index_anchor i [of "k + 1"] assms(3) by simp
  then show ?thesis unfolding s
    using rounds [of "anchor (?i + (k + 1) * mult p)" j] rounds [of d "k + 1 + j"] i [of "k + 1 + j"] assms(3,4)
    by (simp add: algebra_simps)
qed

end

section \<open>The patterns anchored on a day of the month\<close>

text \<open>
  Every such pattern has a function \<open>occ\<close> from a year and a month, possibly out of range, to
  a date, and picks the day \<open>f i\<close> in month \<open>i\<close>.
\<close>

locale month_pattern =
  fixes p :: recurrence_pattern and f :: "int \<Rightarrow> int" and occ :: "int \<Rightarrow> int \<Rightarrow> int"
  assumes day_in: "1 \<le> f i" "f i \<le> month_days i"
    and spread: "f i + 5 \<le> month_days i + f (i + 1)"
    and occ: "full_year (y + m div 12) \<Longrightarrow> occ y m = make_day 0 (12 * y + m) (f (12 * y + m)) * MS_PER_DAY"
    and matches_day: "full_year (getFullYear c) \<Longrightarrow>
      matchesRawAnchor p c \<longleftrightarrow> getDate c = f (12 * getFullYear c + getMonth c)"
    and round_occ: "raw_round p t k = [occ (getFullYear t) (getMonth t + k * mult p)]"
    and first_occ: "computeFirstAfterLast p l =
      occ (getFullYear (rawAnchoredOccurrence p l)) (getMonth (rawAnchoredOccurrence p l) + mult p)"

sublocale month_pattern \<subseteq> anchored p "\<lambda>i. make_day 0 i (f i)" month_index 1212
proof
  fix i d k l :: int
  show "make_day 0 i (f i) + 5 \<le> make_day 0 (i + 1) (f (i + 1))"
    using spread [of i] next_month [of i] make_day_split [of i "f i"] make_day_split [of "i + 1" "f (i + 1)"] by simp
  show "1212 \<le> i \<Longrightarrow> 101 \<le> year_of_day (make_day 0 i (f i))"
    using civil_index(1) [OF day_in] by simp
  show "1212 \<le> i \<Longrightarrow> month_index (make_day 0 i (f i)) = i" using civil_index(4) [OF day_in] .
  show "100 \<le> year_of_day d \<Longrightarrow>
      matchesRawAnchor p (d * MS_PER_DAY) = (d = make_day 0 (month_index d) (f (month_index d)))"
    using matches_day [of "d * MS_PER_DAY"] day_of_index [of d] make_day_split [of "month_index d" "f (month_index d)"]
      make_day_split [of "month_index d" "date_of_day d"]
    by (auto simp: full_year_def month_index_def)
  show "1212 \<le> month_index d + k * mult p \<Longrightarrow> raw_round p (d * MS_PER_DAY) k =
      [make_day 0 (month_index d + k * mult p) (f (month_index d + k * mult p)) * MS_PER_DAY]"
  proof -
    assume "1212 \<le> month_index d + k * mult p"
    moreover have "year_of_day d + (month_of_day d + k * mult p) div 12 = (month_index d + k * mult p) div 12"
      by (simp add: month_index_def add.assoc)
    ultimately have "full_year (year_of_day d + (month_of_day d + k * mult p) div 12)" by (simp add: full_year_def)
    from occ [OF this] show ?thesis by (simp add: round_occ month_index_def add.assoc)
  qed
  show "computeFirstAfterLast p l = make_day 0 (i + mult p) (f (i + mult p)) * MS_PER_DAY"
    if a: "1212 \<le> i" "1212 \<le> i + mult p" "rawAnchoredOccurrence p l = make_day 0 i (f i) * MS_PER_DAY"
  proof -
    have i: "12 * (i div 12) + (i mod 12 + mult p) = i + mult p" by simp
    have "i div 12 + (i mod 12 + mult p) div 12 = (i + mult p) div 12"
      using i div_mult_self4 [of 12 "i div 12" "i mod 12 + mult p"] by (simp add: i)
    then have "full_year (i div 12 + (i mod 12 + mult p) div 12)" using a(2) by (simp add: full_year_def)
    from occ [OF this] show ?thesis
      by (simp only: first_occ a(3) fields_midnight civil_index(1,2) [OF day_in] i)
  qed
qed

subsection \<open>The same day every month\<close>

definition clamped_day :: "int \<Rightarrow> int \<Rightarrow> int" where
  "clamped_day s i = min (getDate s) (month_days i)"

lemma clamped_day_in: "1 \<le> clamped_day s i" "clamped_day s i \<le> month_days i"
  using date_bounds(1) [of "day_number s"] month_days_bounds(1) [of i] by (simp_all add: clamped_day_def getDate_def)

lemma month_range: "0 \<le> getMonth c" "getMonth c \<le> 11"
  using civil_bounds(1,2) by (simp_all add: getMonth_def)

interpretation same_day: month_pattern "\<lparr>periodType = Month, mult = n, periodStart = s, weekendAdjust = w\<rparr>"
  "clamped_day s" "\<lambda>y m. monthDay y m (getDate s)" for n s w
proof
  show "1 \<le> clamped_day s i" "clamped_day s i \<le> month_days i" for i by (rule clamped_day_in)+
  show "clamped_day s i + 5 \<le> month_days i + clamped_day s (i + 1)" for i
    using month_days_bounds [of i] month_days_bounds [of "i + 1"] by (auto simp: clamped_day_def)
  show "full_year (y + m div 12) \<Longrightarrow> monthDay y m (getDate s) =
      make_day 0 (12 * y + m) (clamped_day s (12 * y + m)) * MS_PER_DAY" for y m
    by (simp add: monthDay_eq clamped_day_def)
  show "full_year (getFullYear c) \<Longrightarrow> matchesRawAnchor \<lparr>periodType = Month, mult = n, periodStart = s, weekendAdjust = w\<rparr> c
      \<longleftrightarrow> getDate c = clamped_day s (12 * getFullYear c + getMonth c)" for c
    by (simp add: matchesRawAnchor_def Let_def clampDay_def lastDayOfMonth_eq month_range clamped_day_def)
qed (simp_all add: raw_round_def computeFirstAfterLast_def Let_def ANCHORED_PERIOD_TYPES_def)

subsection \<open>The last day of the month\<close>

lemma monthDay_first:
  assumes "full_year (y + m div 12)"
  shows "getFullYear (monthDay y m 1) = y + m div 12" "getMonth (monthDay y m 1) = m mod 12"
proof -
  have "monthDay y m 1 = make_day 0 (12 * y + m) 1 * MS_PER_DAY"
    using monthDay_eq [OF assms, of 1] month_days_bounds(1) [of "12 * y + m"] by simp
  then show "getFullYear (monthDay y m 1) = y + m div 12" "getMonth (monthDay y m 1) = m mod 12"
    using civil_index(1,2) [of 1 "12 * y + m"] month_days_bounds(1) [of "12 * y + m"] by simp_all
qed

lemma newDate_index:
  assumes "full_year (y + m div 12)"
  shows "newDate (y + m div 12) (m mod 12) d = make_day 0 (12 * y + m) d * MS_PER_DAY"
    "lastDayOfMonth (y + m div 12) (m mod 12) = month_days (12 * y + m)"
proof -
  have i: "12 * (y + m div 12) + m mod 12 = 12 * y + m" by simp
  show "newDate (y + m div 12) (m mod 12) d = make_day 0 (12 * y + m) d * MS_PER_DAY"
    by (simp only: newDate_full [OF assms] make_day_index [of "y + m div 12"] i)
  show "lastDayOfMonth (y + m div 12) (m mod 12) = month_days (12 * y + m)"
    using lastDayOfMonth_eq [OF assms, of "m mod 12", unfolded i] by simp
qed

lemma endOfMonth_eq:
  "full_year (y + m div 12) \<Longrightarrow>
     endOfMonth y m = make_day 0 (12 * y + m) (month_days (12 * y + m)) * MS_PER_DAY"
  by (simp add: endOfMonth_def Let_def monthDay_first newDate_index)

interpretation month_end: month_pattern "\<lparr>periodType = EndOfMonth, mult = n, periodStart = s, weekendAdjust = w\<rparr>"
  month_days endOfMonth for n s w
proof
  show "1 \<le> month_days i" "month_days i \<le> month_days i" "month_days i + 5 \<le> month_days i + month_days (i + 1)" for i
    using month_days_bounds [of i] month_days_bounds [of "i + 1"] by simp_all
  show "full_year (getFullYear c) \<Longrightarrow>
      matchesRawAnchor \<lparr>periodType = EndOfMonth, mult = n, periodStart = s, weekendAdjust = w\<rparr> c
      \<longleftrightarrow> getDate c = month_days (12 * getFullYear c + getMonth c)" for c
    by (simp add: matchesRawAnchor_def Let_def lastDayOfMonth_eq month_range)
qed (simp_all add: endOfMonth_eq raw_round_def computeFirstAfterLast_def Let_def ANCHORED_PERIOD_TYPES_def)

subsection \<open>A weekday of the month\<close>

definition first_weekday :: "int \<Rightarrow> int \<Rightarrow> int" where
  "first_weekday i wd = 1 + (wd - weekday_of_day (make_day 0 i 1)) mod 7"

definition nth_day :: "int \<Rightarrow> int \<Rightarrow> int \<Rightarrow> int" where
  "nth_day i wd ord = (let day = first_weekday i wd + (ord - 1) * 7
     in if day > month_days i then day - 7 else day)"

definition last_day :: "int \<Rightarrow> int \<Rightarrow> int" where
  "last_day i wd = month_days i - (weekday_of_day (make_day 0 i (month_days i)) - wd) mod 7"

lemma weekday_range: "0 \<le> weekday_of_day d" "weekday_of_day d \<le> 6"
  by (simp_all add: weekday_of_day_def)

lemma js_mod7: "0 \<le> a \<Longrightarrow> a \<le> 6 \<Longrightarrow> 0 \<le> b \<Longrightarrow> b \<le> 6 \<Longrightarrow> (a - b + 7) smod 7 = (a - b) mod 7" for a b :: int
  using smod_nonneg [of "a - b + 7" 7] by simp

lemma back_weeks_once: "day \<le> 35 \<Longrightarrow> 28 \<le> m \<Longrightarrow> back_weeks day m = (if day > m then day - 7 else day)"
  by (simp add: back_weeks.simps [of day] back_weeks.simps [of "day - 7"])

lemma first_weekday_range: "1 \<le> first_weekday i wd" "first_weekday i wd \<le> 7"
  using pos_mod_bound [of 7 "wd - weekday_of_day (make_day 0 i 1)"] by (simp_all add: first_weekday_def)

lemma ordinal_range: "0 \<le> (getDate s - 1) div 7" "(getDate s - 1) div 7 \<le> 4"
  using date_bounds [of "day_number s"] month_days_bounds(2) [of "month_index (day_number s)"]
  by (simp_all add: getDate_def)

lemma nth_day_in:
  assumes "1 \<le> ord" "ord \<le> 5"
  shows "1 \<le> nth_day i wd ord" "nth_day i wd ord \<le> month_days i" "7 * ord - 13 \<le> nth_day i wd ord" "nth_day i wd ord \<le> 7 * ord"
  using first_weekday_range [of i wd] month_days_bounds [of i] assms by (auto simp: nth_day_def Let_def)

lemma last_day_in: "month_days i - 6 \<le> last_day i wd" "last_day i wd \<le> month_days i"
  using pos_mod_bound [of 7 "weekday_of_day (make_day 0 i (month_days i)) - wd"] by (simp_all add: last_day_def)

lemma weekday_make_day: "weekday_of_day (make_day 0 i d) = (weekday_of_day (make_day 0 i 1) + (d - 1)) mod 7"
  using make_day_split [of i d] unfolding weekday_of_day_def mod_add_left_eq by (simp add: ac_simps)

lemma nth_day_weekday:
  assumes "0 \<le> wd" "wd \<le> 6"
  shows "weekday_of_day (make_day 0 i (nth_day i wd ord)) = wd" "weekday_of_day (make_day 0 i (last_day i wd)) = wd"
proof -
  let ?b = "weekday_of_day (make_day 0 i 1)"
  have c: "(?b + (1 + (wd - ?b) mod 7 + k * 7 - 1)) mod 7 = wd" for k
  proof -
    have "(?b + (1 + (wd - ?b) mod 7 + k * 7 - 1)) mod 7 = (?b + (wd - ?b) mod 7 + k * 7) mod 7" by (simp add: ac_simps)
    also have "\<dots> = wd mod 7" by (simp add: mod_add_right_eq)
    finally show ?thesis using assms by simp
  qed
  show "weekday_of_day (make_day 0 i (nth_day i wd ord)) = wd"
    using c [of "ord - 1"] c [of "ord - 2"] unfolding weekday_make_day [of i "nth_day i wd ord"]
    by (simp add: nth_day_def Let_def first_weekday_def algebra_simps)
  let ?l = "weekday_of_day (make_day 0 i (month_days i))"
  have "make_day 0 i (last_day i wd) = make_day 0 i (month_days i) - (?l - wd) mod 7"
    using make_day_split [of i "last_day i wd"] make_day_split [of i "month_days i"] by (simp add: last_day_def)
  then have "weekday_of_day (make_day 0 i (last_day i wd)) = (?l - (?l - wd) mod 7) mod 7"
    unfolding weekday_of_day_def mod_diff_left_eq by (simp add: ac_simps add_diff_eq)
  also have "\<dots> = wd mod 7" by (simp add: mod_diff_right_eq)
  finally show "weekday_of_day (make_day 0 i (last_day i wd)) = wd" using assms by simp
qed

lemma nthWeekdayOfMonth_eq:
  assumes "full_year (y + m div 12)" "0 \<le> wd" "wd \<le> 6" "1 \<le> ord" "ord \<le> 5"
  shows "nthWeekdayOfMonth (y + m div 12) (m mod 12) wd ord =
    make_day 0 (12 * y + m) (nth_day (12 * y + m) wd ord) * MS_PER_DAY"
proof -
  let ?i = "12 * y + m"
  let ?d = "1 + (wd - weekday_of_day (make_day 0 ?i 1)) mod 7 + (ord - 1) * 7"
  have "?d \<le> 35" using first_weekday_range(2) [of ?i wd] assms(5) by (simp add: first_weekday_def)
  then have "back_weeks ?d (month_days ?i) = nth_day ?i wd ord"
    using back_weeks_once month_days_bounds(1) [of ?i] by (simp add: nth_day_def first_weekday_def Let_def)
  then show ?thesis
    by (simp add: nthWeekdayOfMonth_def Let_def newDate_index [OF assms(1)] js_mod7 assms weekday_range)
qed

lemma lastWeekdayOfMonth_eq:
  assumes "full_year (y + m div 12)" "0 \<le> wd" "wd \<le> 6"
  shows "lastWeekdayOfMonth (y + m div 12) (m mod 12) wd =
    make_day 0 (12 * y + m) (last_day (12 * y + m) wd) * MS_PER_DAY"
  by (simp add: lastWeekdayOfMonth_def Let_def newDate_index [OF assms(1)] js_mod7 assms weekday_range last_day_def)

lemma weekdayOccurrence_eq:
  assumes "full_year (y + m div 12)"
  shows "weekdayOccurrence NthWeekday s y m =
      make_day 0 (12 * y + m) (nth_day (12 * y + m) (getDay s) ((getDate s - 1) div 7 + 1)) * MS_PER_DAY"
    "weekdayOccurrence LastWeekday s y m = make_day 0 (12 * y + m) (last_day (12 * y + m) (getDay s)) * MS_PER_DAY"
  using nthWeekdayOfMonth_eq [OF assms] lastWeekdayOfMonth_eq [OF assms] weekday_range [of "day_number s"] ordinal_range [of s]
  by (simp_all add: weekdayOccurrence_def weekdayAnchor_def Let_def monthDay_first [OF assms] getDay_def)

lemma same_day_in_month:
  assumes "full_year (getFullYear c)" "1 \<le> e" "e \<le> month_days (12 * getFullYear c + getMonth c)"
  shows "sameCalendarDay c (make_day 0 (12 * getFullYear c + getMonth c) e * MS_PER_DAY) \<longleftrightarrow> getDate c = e"
proof -
  have "(12 * getFullYear c + getMonth c) div 12 = getFullYear c" "(12 * getFullYear c + getMonth c) mod 12 = getMonth c"
    using split_index [of "getMonth c"] month_range [of c] by simp_all
  then show ?thesis using civil_index [OF assms(2,3)] by (auto simp: sameCalendarDay_def)
qed

interpretation nth_weekday: month_pattern "\<lparr>periodType = NthWeekday, mult = n, periodStart = s, weekendAdjust = w\<rparr>"
  "\<lambda>i. nth_day i (getDay s) ((getDate s - 1) div 7 + 1)" "weekdayOccurrence NthWeekday s" for n s w
proof
  note o = nth_day_in [of "(getDate s - 1) div 7 + 1"]
  show in_month: "1 \<le> nth_day i (getDay s) ((getDate s - 1) div 7 + 1)" "nth_day i (getDay s) ((getDate s - 1) div 7 + 1) \<le> month_days i" for i
    using o(1,2) ordinal_range [of s] by simp_all
  show "nth_day i (getDay s) ((getDate s - 1) div 7 + 1) + 5
      \<le> month_days i + nth_day (i + 1) (getDay s) ((getDate s - 1) div 7 + 1)" for i
    using o(4) [of i "getDay s"] o(3) [of "i + 1" "getDay s"] ordinal_range [of s] month_days_bounds(1) [of i] by simp
  show "full_year (getFullYear c) \<Longrightarrow>
      matchesRawAnchor \<lparr>periodType = NthWeekday, mult = n, periodStart = s, weekendAdjust = w\<rparr> c
      \<longleftrightarrow> getDate c = nth_day (12 * getFullYear c + getMonth c) (getDay s) ((getDate s - 1) div 7 + 1)" for c
    using weekdayOccurrence_eq(1) [of "getFullYear c" "getMonth c" s] month_range [of c] in_month
    by (simp add: matchesRawAnchor_def Let_def same_day_in_month div_pos_pos_trivial)
qed (simp_all add: weekdayOccurrence_eq raw_round_def computeFirstAfterLast_def Let_def ANCHORED_PERIOD_TYPES_def)

interpretation last_weekday: month_pattern "\<lparr>periodType = LastWeekday, mult = n, periodStart = s, weekendAdjust = w\<rparr>"
  "\<lambda>i. last_day i (getDay s)" "weekdayOccurrence LastWeekday s" for n s w
proof
  show in_month: "1 \<le> last_day i (getDay s)" "last_day i (getDay s) \<le> month_days i" for i
    using last_day_in [of i "getDay s"] month_days_bounds(1) [of i] by simp_all
  show "last_day i (getDay s) + 5 \<le> month_days i + last_day (i + 1) (getDay s)" for i
    using last_day_in(2) [of i "getDay s"] last_day_in(1) [of "i + 1" "getDay s"] month_days_bounds(1) [of "i + 1"] by simp
  show "full_year (getFullYear c) \<Longrightarrow>
      matchesRawAnchor \<lparr>periodType = LastWeekday, mult = n, periodStart = s, weekendAdjust = w\<rparr> c
      \<longleftrightarrow> getDate c = last_day (12 * getFullYear c + getMonth c) (getDay s)" for c
    using weekdayOccurrence_eq(2) [of "getFullYear c" "getMonth c" s] month_range [of c] in_month
    by (simp add: matchesRawAnchor_def Let_def same_day_in_month div_pos_pos_trivial)
qed (simp_all add: weekdayOccurrence_eq raw_round_def computeFirstAfterLast_def Let_def ANCHORED_PERIOD_TYPES_def)

subsection \<open>The same day every year\<close>

definition year_anchor :: "int \<Rightarrow> int \<Rightarrow> int" where
  "year_anchor s y = make_day 0 (12 * y + getMonth s) (clamped_day s (12 * y + getMonth s))"

lemma year_anchor_year: "year_of_day (year_anchor s y) = y"
  unfolding year_anchor_def using civil_index(1) [OF clamped_day_in] split_index [of "getMonth s" y] month_range [of s] by simp

interpretation same_date: anchored "\<lparr>periodType = Year, mult = n, periodStart = s, weekendAdjust = w\<rparr>"
  "year_anchor s" year_of_day 101 for n s w
proof
  fix i d k l :: int
  let ?p = "\<lparr>periodType = Year, mult = n, periodStart = s, weekendAdjust = w\<rparr>"
  have m: "0 \<le> getMonth s" "getMonth s \<le> 11" by (rule month_range)+
  have new: "newDate y (getMonth s) (clampDay y (getMonth s) (getDate s)) = year_anchor s y * MS_PER_DAY" if "101 \<le> y" for y
    using that m by (simp add: full_year_def clampDay_def lastDayOfMonth_eq newDate_full year_anchor_def
        make_day_index [of y] clamped_day_def)
  show "year_anchor s i + 5 \<le> year_anchor s (i + 1)"
    using same_day.far [of "12 * i + getMonth s" "12 * (i + 1) + getMonth s" s] by (simp add: year_anchor_def)
  show "101 \<le> i \<Longrightarrow> 101 \<le> year_of_day (year_anchor s i)" "101 \<le> i \<Longrightarrow> year_of_day (year_anchor s i) = i"
    by (simp_all add: year_anchor_year)
  show "matchesRawAnchor ?p (d * MS_PER_DAY) = (d = year_anchor s (year_of_day d))" if "100 \<le> year_of_day d"
  proof -
    have a: "matchesRawAnchor ?p (d * MS_PER_DAY) \<longleftrightarrow>
        month_of_day d = getMonth s \<and> date_of_day d = clamped_day s (month_index d)"
      using that civil_bounds(1,2) [of d] by (auto simp: matchesRawAnchor_def Let_def clampDay_def lastDayOfMonth_eq
          full_year_def clamped_day_def month_index_def m)
    show ?thesis
    proof
      assume "matchesRawAnchor ?p (d * MS_PER_DAY)"
      then show "d = year_anchor s (year_of_day d)" using a day_of_index [of d]
        by (simp add: year_anchor_def month_index_def)
    next
      assume d: "d = year_anchor s (year_of_day d)"
      have "month_index d = 12 * year_of_day d + getMonth s" "date_of_day d = clamped_day s (12 * year_of_day d + getMonth s)"
        using civil_index(3,4) [OF clamped_day_in, of "12 * year_of_day d + getMonth s" s] d [unfolded year_anchor_def] by simp_all
      then show "matchesRawAnchor ?p (d * MS_PER_DAY)" by (simp add: a month_index_def)
    qed
  qed
  show "101 \<le> year_of_day d + k * mult ?p \<Longrightarrow>
      raw_round ?p (d * MS_PER_DAY) k = [year_anchor s (year_of_day d + k * mult ?p) * MS_PER_DAY]"
    using new [of "year_of_day d + k * n"] by (simp add: raw_round_def Let_def)
  show "101 \<le> i \<Longrightarrow> 101 \<le> i + mult ?p \<Longrightarrow> rawAnchoredOccurrence ?p l = year_anchor s i * MS_PER_DAY \<Longrightarrow>
      computeFirstAfterLast ?p l = year_anchor s (i + mult ?p) * MS_PER_DAY"
    using new [of "i + n"] by (simp add: computeFirstAfterLast_def Let_def ANCHORED_PERIOD_TYPES_def year_anchor_year)
qed

section \<open>The generator as a list\<close>

fun gen_list :: "recurrence_pattern \<Rightarrow> int \<Rightarrow> nat \<Rightarrow> generator \<Rightarrow> int list" where
  "gen_list p start 0 g = []"
| "gen_list p start (Suc n) g = (case next_raw p start g of
      None \<Rightarrow> [] | Some (d, g') \<Rightarrow> d # gen_list p start n g')"

definition up_to :: "int option \<Rightarrow> int \<Rightarrow> bool" where
  "up_to endDate a \<longleftrightarrow> (case endDate of None \<Rightarrow> True | Some e \<Rightarrow> a \<le> e)"

definition quota :: "int option \<Rightarrow> int \<Rightarrow> nat" where
  "quota remaining n = nat (case remaining of None \<Rightarrow> n | Some r \<Rightarrow> min r n)"

lemma collect_list:
  assumes "got < n" "\<forall>r. remaining = Some r \<longrightarrow> 0 < r"
  shows "collect p start endDate afterDate n fuel g remaining got =
    take (quota remaining (n - got)) (filter (\<lambda>a. afterDate < a)
      (takeWhile (up_to endDate) (map (\<lambda>d. applyWeekendAdjust d (weekendAdjust p)) (gen_list p start fuel g))))"
  using assms
proof (induction fuel arbitrary: g remaining got)
  case (Suc fuel)
  show ?case
  proof (cases "next_raw p start g")
    case (Some dg)
    obtain d g' where dg: "dg = (d, g')" by (cases dg)
    let ?a = "applyWeekendAdjust d (weekendAdjust p)"
    let ?stop = "(case remaining of None \<Rightarrow> False | Some r \<Rightarrow> r - 1 \<le> 0) \<or> got + 1 \<ge> n"
    have l: "quota remaining (n - got) = Suc (quota (map_option (\<lambda>r. r - 1) remaining) (n - (got + 1)))"
      "?stop \<Longrightarrow> quota (map_option (\<lambda>r. r - 1) remaining) (n - (got + 1)) = 0"
      using Suc.prems by (auto simp: quota_def Suc_nat_eq_nat_zadd1 split: option.splits)
    have r: "collect p start endDate afterDate n fuel g' (map_option (\<lambda>r. r - 1) remaining) (got + 1) =
      take (quota (map_option (\<lambda>r. r - 1) remaining) (n - (got + 1))) (filter (\<lambda>a. afterDate < a)
      (takeWhile (up_to endDate) (map (\<lambda>d. applyWeekendAdjust d (weekendAdjust p)) (gen_list p start fuel g'))))"
      if "\<not> ?stop" by (rule Suc.IH) (use that in \<open>auto split: option.splits\<close>)
    show ?thesis
    proof (cases "up_to endDate ?a")
      case False
      then show ?thesis using Some dg by (auto simp: up_to_def split: option.splits)
    next
      case True
      then have e: "(case endDate of None \<Rightarrow> False | Some e \<Rightarrow> ?a > e) = False"
        by (auto simp: up_to_def split: option.splits)
      show ?thesis
      proof (cases "?a \<le> afterDate")
        case True
        then show ?thesis using Some dg e \<open>up_to endDate ?a\<close> Suc.IH [OF Suc.prems] by (simp add: Let_def)
      next
        case False
        then show ?thesis using Some dg e \<open>up_to endDate ?a\<close> l r by (cases ?stop) (simp_all add: Let_def)
      qed
    qed
  qed simp
qed simp

lemma computeNextOccurrences_list:
  "computeNextOccurrences p lastOccur endDate remaining n afterDate =
    take (quota remaining n) (filter (\<lambda>a. afterDate < a) (takeWhile (up_to endDate)
      (map (\<lambda>d. applyWeekendAdjust d (weekendAdjust p)) (gen_list p (startFrom p lastOccur) 10001 (0, [])))))"
proof (cases "(case remaining of None \<Rightarrow> False | Some r \<Rightarrow> r \<le> 0) \<or> n \<le> 0")
  case True
  then have "quota remaining n = 0" by (auto simp: quota_def split: option.splits)
  with True show ?thesis by (auto simp: computeNextOccurrences_def)
next
  case False
  have f: "Suc maxIterations = 10001" by (simp add: maxIterations_def)
  from False show ?thesis unfolding computeNextOccurrences_def f
    by (subst collect_list) (auto split: option.splits)
qed

text \<open>
  C18. The loop computes what its comment says: of the first 10,001 dates of the generator,
  weekend-adjusted, those up to the end date, of these the ones after \<open>afterDate\<close>, and of
  these the first ones, at most as many as wanted and as remain.
\<close>

theorem computeNextOccurrences_spec:
  "computeNextOccurrences p lastOccur endDate remaining n afterDate =
    take (quota remaining n) (filter (\<lambda>a. afterDate < a) (takeWhile (up_to endDate)
      (map (\<lambda>d. applyWeekendAdjust d (weekendAdjust p)) (gen_list p (startFrom p lastOccur) 10001 (0, [])))))"
  by (rule computeNextOccurrences_list)



text \<open>
  C14. A monthly schedule keeps its day: round \<open>k\<close> falls \<open>k * mult\<close> months on, on the start
  date's day of the month or, where the month is shorter, on its last day, so that a clamped
  month does not move the later ones.
\<close>

theorem monthly_day_kept:
  assumes "periodType p = Month" "1212 \<le> month_index d + k * mult p"
  shows "\<exists>t. raw_round p (d * MS_PER_DAY) k = [t] \<and>
    12 * getFullYear t + getMonth t = month_index d + k * mult p \<and>
    getDate t = min (getDate (periodStart p)) (lastDayOfMonth (getFullYear t) (getMonth t))"
proof -
  obtain n s w where p: "p = \<lparr>periodType = Month, mult = n, periodStart = s, weekendAdjust = w\<rparr>"
    using assms(1) by (cases p) auto
  let ?i = "month_index d + k * n"
  have "raw_round p (d * MS_PER_DAY) k = [make_day 0 ?i (clamped_day s ?i) * MS_PER_DAY]"
    using same_day.rounds [where d = d and n = n and k = k and s = s and w = w] assms(2) unfolding p by simp
  moreover have "lastDayOfMonth (?i div 12) (?i mod 12) = month_days ?i"
    using lastDayOfMonth_eq [of "?i div 12" "?i mod 12"] assms(2) p by (simp add: full_year_def)
  moreover have "min (getDate s) (month_days ?i) = clamped_day s ?i" by (simp add: clamped_day_def)
  ultimately show ?thesis using civil_index(1-3) [OF clamped_day_in, of ?i s] p by simp
qed

theorem monthly_day_kept_witness:
  "\<exists>t. raw_round \<lparr>periodType = Month, mult = 1, periodStart = newDate 2024 0 31, weekendAdjust = AdjustNone\<rparr>
      (19753 * MS_PER_DAY) 2 = [t] \<and>
    12 * getFullYear t + getMonth t = month_index 19753 + 2 * 1 \<and>
    getDate t = min (getDate (newDate 2024 0 31)) (lastDayOfMonth (getFullYear t) (getMonth t))"
proof -
  have "1212 \<le> month_index 19753" by code_simp
  then show ?thesis using monthly_day_kept
    [of "\<lparr>periodType = Month, mult = 1, periodStart = newDate 2024 0 31, weekendAdjust = AdjustNone\<rparr>" 19753 2]
    by simp
qed

text \<open>
  A weekday schedule keeps its weekday: the round's date is on the start date's weekday,
  in the right month, and it is the start date's ordinal one (the third Friday, say), or the
  last one of a month that has no fifth; the last-weekday schedule takes the last one.
\<close>

theorem weekday_kept:
  assumes "periodType p \<in> {NthWeekday, LastWeekday}" "1212 \<le> month_index d + k * mult p"
  shows "\<exists>t. raw_round p (d * MS_PER_DAY) k = [t] \<and>
    12 * getFullYear t + getMonth t = month_index d + k * mult p \<and> getDay t = getDay (periodStart p) \<and>
    ((periodType p = NthWeekday \<and> (getDate t - 1) div 7 = (getDate (periodStart p) - 1) div 7) \<or>
     getDate t + 7 > lastDayOfMonth (getFullYear t) (getMonth t))"
proof -
  obtain ty n s w where p: "p = \<lparr>periodType = ty, mult = n, periodStart = s, weekendAdjust = w\<rparr>"
    by (cases p) auto
  let ?i = "month_index d + k * n" and ?o = "(getDate s - 1) div 7 + 1"
  have ld: "lastDayOfMonth (?i div 12) (?i mod 12) = month_days ?i"
    using lastDayOfMonth_eq [of "?i div 12" "?i mod 12"] assms(2) p by (simp add: full_year_def)
  have wd: "0 \<le> getDay s" "getDay s \<le> 6" using weekday_range by (simp_all add: getDay_def)
  show ?thesis
  proof (cases "ty = NthWeekday")
    case True
    note c = civil_index(1-3) [OF nth_weekday.day_in [where i = ?i and s = s]]
    have "raw_round p (d * MS_PER_DAY) k = [make_day 0 ?i (nth_day ?i (getDay s) ?o) * MS_PER_DAY]"
      using nth_weekday.rounds [where d = d and n = n and k = k and s = s and w = w] assms(2) True unfolding p by simp
    moreover have "(nth_day ?i (getDay s) ?o - 1) div 7 = (getDate s - 1) div 7 \<or>
        nth_day ?i (getDay s) ?o + 7 > month_days ?i"
    proof (cases "first_weekday ?i (getDay s) + (?o - 1) * 7 > month_days ?i")
      case False
      then have "nth_day ?i (getDay s) ?o - 1 = 7 * ((getDate s - 1) div 7) + (first_weekday ?i (getDay s) - 1)"
        by (simp add: nth_day_def Let_def)
      then show ?thesis using first_weekday_range [of ?i "getDay s"]
          int_div_pos_eq [of "nth_day ?i (getDay s) ?o - 1" 7 "(getDate s - 1) div 7" "first_weekday ?i (getDay s) - 1"] by simp
    qed (simp add: nth_day_def Let_def)
    ultimately show ?thesis using c ld nth_day_weekday(1) [OF wd] True p by simp
  next
    case False
    then have ty: "ty = LastWeekday" using assms(1) p by simp
    note c = civil_index(1-3) [OF last_weekday.day_in [where i = ?i and s = s]]
    have "raw_round p (d * MS_PER_DAY) k = [make_day 0 ?i (last_day ?i (getDay s)) * MS_PER_DAY]"
      using last_weekday.rounds [where d = d and n = n and k = k and s = s and w = w] assms(2) ty unfolding p by simp
    then show ?thesis using c ld nth_day_weekday(2) [OF wd] last_day_in(1) [of ?i "getDay s"] ty p by simp
  qed
qed

theorem weekday_kept_witness:
  "\<exists>t. raw_round \<lparr>periodType = NthWeekday, mult = 1, periodStart = 19753 * MS_PER_DAY, weekendAdjust = AdjustNone\<rparr>
      (19753 * MS_PER_DAY) 2 = [t] \<and> getDay t = getDay (19753 * MS_PER_DAY)"
proof -
  have "1212 \<le> month_index 19753" by code_simp
  then show ?thesis using weekday_kept
    [of "\<lparr>periodType = NthWeekday, mult = 1, periodStart = 19753 * MS_PER_DAY, weekendAdjust = AdjustNone\<rparr>" 19753 2]
    by auto
qed

text \<open>
  A weekend adjustment leaves no weekend: a backward or forward adjusted date is on a
  working day, at most two days off in the adjustment's direction, and a working day is
  not moved at all.
\<close>

theorem weekend_adjust_lands_on_weekday:
  assumes "full_year (getFullYear (d * MS_PER_DAY))" "w \<in> {AdjustBack, AdjustForward}"
  shows "\<exists>n. applyWeekendAdjust (d * MS_PER_DAY) w = (d + n) * MS_PER_DAY \<and> - 2 \<le> n \<and> n \<le> 2 \<and>
    getDay ((d + n) * MS_PER_DAY) \<notin> {0, 6} \<and> (getDay (d * MS_PER_DAY) \<notin> {0, 6} \<longrightarrow> n = 0)"
proof -
  have y: "100 \<le> year_of_day d" using assms(1) by (simp add: full_year_def)
  show ?thesis by (rule weekend_adjust_days [OF y, where w = w]) (use assms(2) in auto)
qed

theorem weekend_adjust_lands_on_weekday_witness:
  "\<exists>n. applyWeekendAdjust (19754 * MS_PER_DAY) AdjustBack = (19754 + n) * MS_PER_DAY \<and>
    getDay ((19754 + n) * MS_PER_DAY) \<notin> {0, 6}"
proof -
  have "full_year (getFullYear (19754 * MS_PER_DAY))" by code_simp
  from weekend_adjust_lands_on_weekday [OF this, of AdjustBack] show ?thesis by blast
qed

section \<open>The union of several patterns\<close>

interpretation time_cmp: comparison "\<lambda>a b. a - b :: int"
  by unfold_locales auto

lemma sorted_distinct_strict: "sorted_wrt (\<lambda>a b. a - b \<le> 0) xs \<Longrightarrow> distinct xs \<Longrightarrow> sorted_wrt (<) (xs :: int list)"
  by (induction xs) (auto simp: less_le)

text \<open>What a row of a composite schedule continues from.\<close>

definition row_last :: "int option \<Rightarrow> recurrence_pattern \<Rightarrow> int option" where
  "row_last lastOccur p = (case lastOccur of
     Some l \<Rightarrow> if occurrenceBelongsToMonthlyPattern p l then Some l else None | None \<Rightarrow> None)"

text \<open>
  C20. The union of the rows of a composite schedule is exact: it is the set of dates that any
  of its rows yields, each row going on from the last occurrence where that was its own, in
  increasing order and without repetition, cut to as many dates as wanted and as remain.
\<close>

theorem union_of_patterns:
  "computeNextOccurrencesForPatterns ps lastOccur endDate remaining n afterDate =
   take (quota remaining n) (sorted_list_of_set (\<Union>p \<in> set ps.
     set (computeNextOccurrences p (row_last lastOccur p) endDate remaining n afterDate)))"
proof (cases "ps = [] \<or> n \<le> 0")
  case True
  then show ?thesis by (auto simp: computeNextOccurrencesForPatterns_def quota_def split: option.splits)
next
  case False
  define dates where "dates = concat (map (\<lambda>p. computeNextOccurrences p
    (case lastOccur of Some l \<Rightarrow> if occurrenceBelongsToMonthlyPattern p l then Some l else None | None \<Rightarrow> None)
    endDate remaining n afterDate) ps)"
  let ?s = "stable_sort (\<lambda>a b. a - b) (remdups dates)"
  have q: "quota remaining n = nat (min n (case remaining of None \<Rightarrow> n | Some r \<Rightarrow> r))"
    by (auto simp: quota_def min.commute split: option.splits)
  have r: "computeNextOccurrencesForPatterns ps lastOccur endDate remaining n afterDate = take (quota remaining n) ?s"
    using False by (simp add: computeNextOccurrencesForPatterns_def Let_def dates_def q)
  have "distinct ?s" by (metis distinct_remdups mset_stable_sort mset_eq_imp_distinct_iff)
  then have strict: "sorted_wrt (<) ?s" by (rule sorted_distinct_strict [OF time_cmp.sorted_stable_sort])
  have "set ?s = (\<Union>p \<in> set ps. set (computeNextOccurrences p (row_last lastOccur p) endDate remaining n afterDate))"
    by (auto simp: dates_def row_last_def)
  then show ?thesis unfolding r using strict by (metis sorted_list_of_set.idem_if_sorted_distinct strict_sorted_iff)
qed

section \<open>The semi-monthly pattern starts its month again\<close>

text \<open>
  C24. With the last occurrence on the first of the two anchors and an \<open>afterDate\<close> before it
  (the transaction was entered ahead of time), a semi-monthly schedule yields that same
  occurrence as the next one.
\<close>

theorem semi_monthly_repeats_last:
  "computeNextOccurrences
     \<lparr>periodType = SemiMonthly, mult = 1, periodStart = newDate 2024 0 5, weekendAdjust = AdjustNone\<rparr>
     (Some (newDate 2024 0 5)) None None 1 (newDate 2024 0 3) = [newDate 2024 0 5]"
proof -
  let ?p = "\<lparr>periodType = SemiMonthly, mult = 1, periodStart = newDate 2024 0 5, weekendAdjust = AdjustNone\<rparr>"
  have start: "startFrom ?p (Some (newDate 2024 0 5)) = newDate 2024 0 20"
    and round0: "next_raw ?p (newDate 2024 0 20) (0, []) = Some (newDate 2024 0 5, (1, [newDate 2024 0 20]))"
    and late: "newDate 2024 0 3 < newDate 2024 0 5" by code_simp+
  have "gen_list ?p (newDate 2024 0 20) (Suc 10000) (0, []) =
      newDate 2024 0 5 # gen_list ?p (newDate 2024 0 20) 10000 (1, [newDate 2024 0 20])"
    by (simp only: gen_list.simps round0 option.case prod.case)
  moreover have e: "(10001 :: nat) = Suc 10000" by simp
  ultimately show ?thesis using late unfolding computeNextOccurrences_list start e
    by (simp add: quota_def up_to_def applyWeekendAdjust_def Let_def)
qed

end
