(* ===== verification/Webhook_Idempotency.thy ===== *)
theory Webhook_Idempotency
  imports Folio_Prelude
begin

text \<open>
  Idempotency of the inbound webhooks (src/lib/webhook-idempotency.ts and the write of
  src/app/api/webhooks/inbound/transaction/route.ts). The table maps book, endpoint and key to
  a row; each SQL statement is one function on it at a time in milliseconds. The stored
  result is the JSON text, so the JSON \<open>null\<close> is not the SQL \<open>NULL\<close>. The second part lets
  any number of requests, retries, crashes and operators interleave.
\<close>

section \<open>The key\<close>

definition IDEMPOTENCY_KEY_MAX_LENGTH :: nat where
  "IDEMPOTENCY_KEY_MAX_LENGTH = 200"

text \<open>A raw value of the request: absent or null, a string, or anything else.\<close>

datatype raw_key = KeyNull | KeyString string | KeyOther

text \<open>The body as far as it matters: no object with the field, or the field's value.\<close>

definition readIdempotencyKey :: "string option \<Rightarrow> raw_key option \<Rightarrow> raw_key" where
  "readIdempotencyKey headerValue bodyField = (case headerValue of
      Some h \<Rightarrow> KeyString h
    | None \<Rightarrow> (case bodyField of None \<Rightarrow> KeyNull | Some raw \<Rightarrow> raw))"

datatype key_error = KeyNotString | KeyEmpty | KeyTooLong

definition validateIdempotencyKey :: "raw_key \<Rightarrow> key_error + string option" where
  "validateIdempotencyKey raw = (case raw of
      KeyNull \<Rightarrow> Inr None
    | KeyOther \<Rightarrow> Inl KeyNotString
    | KeyString s \<Rightarrow>
        let key = trim s in
        if length key = 0 then Inl KeyEmpty
        else if length key > IDEMPOTENCY_KEY_MAX_LENGTH then Inl KeyTooLong
        else Inr (Some key))"

section \<open>The table\<close>

datatype hook_state = Processing | Failed | FailedPermanent | Completed

record hook_row =
  hk_result :: "string option"
  hk_state :: hook_state
  hk_attempts :: int
  hk_started :: int
  hk_detail :: "string option"
  hk_completed :: "int option"

type_synonym hook_key = "string \<times> string \<times> string"
type_synonym hook_table = "hook_key \<Rightarrow> hook_row option"

definition WEBHOOK_CLAIM_STALE_MINUTES :: int where "WEBHOOK_CLAIM_STALE_MINUTES = 5"
definition WEBHOOK_MAX_ATTEMPTS :: int where "WEBHOOK_MAX_ATTEMPTS = 3"

definition stale :: "int \<Rightarrow> hook_row \<Rightarrow> bool" where
  "stale t r \<longleftrightarrow> hk_started r < t - WEBHOOK_CLAIM_STALE_MINUTES * 60000"

definition reclaimable :: "int \<Rightarrow> hook_row \<Rightarrow> bool" where
  "reclaimable t r \<longleftrightarrow> hk_result r = None \<and> hk_attempts r < WEBHOOK_MAX_ATTEMPTS \<and>
     (hk_state r = Failed \<or> hk_state r = Processing \<and> stale t r)"

definition terminal_stalled :: "int \<Rightarrow> hook_row \<Rightarrow> bool" where
  "terminal_stalled t r \<longleftrightarrow> hk_state r = Processing \<and> hk_attempts r \<ge> WEBHOOK_MAX_ATTEMPTS \<and> stale t r"

text \<open>\<open>owns r n\<close>: the predicate of lock, complete and release for the attempt \<open>n\<close>.\<close>

definition owns :: "int \<Rightarrow> hook_row \<Rightarrow> bool" where
  "owns n r \<longleftrightarrow> hk_result r = None \<and> hk_state r = Processing \<and> hk_attempts r = n"

datatype webhook_claim = Claimed int | Replay "string option" | Terminal hook_state int "string option"

definition new_row :: "int \<Rightarrow> hook_row" where
  "new_row t = \<lparr>hk_result = None, hk_state = Processing, hk_attempts = 1, hk_started = t,
     hk_detail = None, hk_completed = None\<rparr>"

definition reclaimed_row :: "int \<Rightarrow> hook_row \<Rightarrow> hook_row" where
  "reclaimed_row t r = r\<lparr>hk_state := Processing, hk_attempts := hk_attempts r + 1, hk_started := t,
     hk_detail := Some ''Reclaimed after a stale claim or retryable write failure''\<rparr>"

text \<open>
  The answer for a row the insert did not win. A stored JSON \<open>null\<close> is read back as the
  JavaScript null and counts as absent. \<open>Terminal Processing\<close> is the code's \<open>stalled\<close>.
\<close>

definition classify_claim :: "int \<Rightarrow> hook_row \<Rightarrow> webhook_claim" where
  "classify_claim t r =
     (if hk_result r \<noteq> None \<and> hk_result r \<noteq> Some ''null'' then Replay (hk_result r)
      else if hk_state r = FailedPermanent then Terminal FailedPermanent (hk_attempts r) (hk_detail r)
      else if terminal_stalled t r then Terminal Processing (hk_attempts r) (hk_detail r)
      else Replay None)"

definition claimWebhookIdempotency :: "int \<Rightarrow> hook_key \<Rightarrow> hook_table \<Rightarrow> webhook_claim \<times> hook_table" where
  "claimWebhookIdempotency t k tb = (case tb k of
      None \<Rightarrow> (Claimed 1, tb(k \<mapsto> new_row t))
    | Some r \<Rightarrow>
        if reclaimable t r then (Claimed (hk_attempts r + 1), tb(k \<mapsto> reclaimed_row t r))
        else (classify_claim t r, tb))"

definition completeWebhookIdempotency ::
    "int \<Rightarrow> hook_key \<Rightarrow> int \<Rightarrow> string \<Rightarrow> hook_table \<Rightarrow> bool \<times> hook_table" where
  "completeWebhookIdempotency t k n res tb = (case tb k of
      None \<Rightarrow> (False, tb)
    | Some r \<Rightarrow>
        if owns n r
        then (True, tb(k \<mapsto> r\<lparr>hk_result := Some res, hk_state := Completed, hk_detail := None,
                hk_completed := Some t\<rparr>))
        else (False, tb))"

text \<open>\<open>lockWebhookIdempotencyAttempt\<close> throws unless the attempt still owns the claim.\<close>

definition lockWebhookIdempotencyAttempt :: "hook_key \<Rightarrow> int \<Rightarrow> hook_table \<Rightarrow> bool" where
  "lockWebhookIdempotencyAttempt k n tb \<longleftrightarrow> (case tb k of None \<Rightarrow> False | Some r \<Rightarrow> owns n r)"

definition releaseWebhookIdempotency :: "int \<Rightarrow> hook_key \<Rightarrow> int \<Rightarrow> hook_table \<Rightarrow> hook_table" where
  "releaseWebhookIdempotency t k n tb = (case tb k of
      None \<Rightarrow> tb
    | Some r \<Rightarrow>
        if owns n r
        then tb(k \<mapsto> (if hk_attempts r \<ge> WEBHOOK_MAX_ATTEMPTS
          then r\<lparr>hk_state := FailedPermanent, hk_completed := Some t,
                 hk_detail := Some ''Webhook write failed repeatedly; retry budget exhausted''\<rparr>
          else r\<lparr>hk_state := Failed, hk_detail := Some ''Webhook write failed; eligible for retry''\<rparr>))
        else tb)"

definition rearmWebhookIdempotency :: "int \<Rightarrow> hook_key \<Rightarrow> string \<Rightarrow> hook_table \<Rightarrow> bool \<times> hook_table" where
  "rearmWebhookIdempotency t k remark tb = (case tb k of
      None \<Rightarrow> (False, tb)
    | Some r \<Rightarrow>
        if hk_result r = None \<and> (hk_state r = FailedPermanent \<or> terminal_stalled t r)
        then (True, tb(k \<mapsto> r\<lparr>hk_state := Failed, hk_attempts := 0, hk_started := t,
                hk_completed := None, hk_detail := Some remark\<rparr>))
        else (False, tb))"

text \<open>Whether the operator's list selects a row (its order and limit aside).\<close>

definition needs_attention :: "int \<Rightarrow> hook_row \<Rightarrow> bool" where
  "needs_attention t r \<longleftrightarrow> hk_state r = FailedPermanent \<or> terminal_stalled t r"

definition listWebhookIdempotencyAttention :: "int \<Rightarrow> hook_key list \<Rightarrow> hook_table \<Rightarrow> hook_key list" where
  "listWebhookIdempotencyAttention t keys tb =
     filter (\<lambda>k. case tb k of None \<Rightarrow> False | Some r \<Rightarrow> needs_attention t r) keys"

text \<open>
  The route's write: lock, post, complete, in one database transaction. It gives nothing when
  the attempt is superseded, and then no entry is posted either.
\<close>

definition webhookWrite ::
    "int \<Rightarrow> hook_key \<Rightarrow> int \<Rightarrow> string \<Rightarrow> hook_table \<times> (hook_key \<times> string) list
      \<Rightarrow> (hook_table \<times> (hook_key \<times> string) list) option" where
  "webhookWrite t k n payload s = (case s of (tb, posted) \<Rightarrow>
     if \<not> lockWebhookIdempotencyAttempt k n tb then None
     else (case completeWebhookIdempotency t k n payload tb of
         (True, tb') \<Rightarrow> Some (tb', posted @ [(k, payload)])
       | (False, _) \<Rightarrow> None))"

section \<open>The contract of a claim store\<close>

text \<open>
  What the write relies on: an attempt that owns the claim can complete it once, nobody else
  can, and no other operation touches a stored result.
\<close>

locale claim_store =
  fixes owner :: "'s \<Rightarrow> int option" and stored :: "'s \<Rightarrow> 'r option"
    and complete :: "int \<Rightarrow> 'r \<Rightarrow> 's \<Rightarrow> bool \<times> 's" and others :: "('s \<Rightarrow> 's) set"
  assumes owner_unstored: "owner s \<noteq> None \<Longrightarrow> stored s = None"
    and complete_owner: "owner s = Some n \<Longrightarrow> fst (complete n r s) \<and> stored (snd (complete n r s)) = Some r"
    and complete_other: "owner s \<noteq> Some n \<Longrightarrow> complete n r s = (False, s)"
    and others_keep: "f \<in> others \<Longrightarrow> stored (f s) = stored s"
begin

lemma write_once:
  assumes "posted = (case stored s of None \<Rightarrow> [] | Some r \<Rightarrow> [r])"
  shows "fst (complete n r s) \<Longrightarrow> posted @ [r] = (case stored (snd (complete n r s)) of None \<Rightarrow> [] | Some r \<Rightarrow> [r])"
    and "f \<in> others \<Longrightarrow> posted = (case stored (f s) of None \<Rightarrow> [] | Some r \<Rightarrow> [r])"
proof -
  assume f: "fst (complete n r s)"
  then have o: "owner s = Some n" using complete_other [of s n r] by (metis fst_conv)
  then show "posted @ [r] = (case stored (snd (complete n r s)) of None \<Rightarrow> [] | Some r \<Rightarrow> [r])"
    using owner_unstored [of s] complete_owner [OF o, of r] assms by simp
next
  assume "f \<in> others"
  then show "posted = (case stored (f s) of None \<Rightarrow> [] | Some r \<Rightarrow> [r])" using assms by (simp add: others_keep)
qed

end

definition hook_owner :: "hook_key \<Rightarrow> hook_table \<Rightarrow> int option" where
  "hook_owner k tb = (case tb k of None \<Rightarrow> None
     | Some r \<Rightarrow> if owns (hk_attempts r) r then Some (hk_attempts r) else None)"

definition hook_stored :: "hook_key \<Rightarrow> hook_table \<Rightarrow> string option" where
  "hook_stored k tb = (case tb k of None \<Rightarrow> None | Some r \<Rightarrow> hk_result r)"

text \<open>The other statements, for any key, attempt and time, and a completion of another key.\<close>

inductive_set hook_others :: "hook_key \<Rightarrow> (hook_table \<Rightarrow> hook_table) set" for k where
  claim: "(\<lambda>tb. snd (claimWebhookIdempotency t k' tb)) \<in> hook_others k"
| release: "releaseWebhookIdempotency t k' n \<in> hook_others k"
| rearm: "(\<lambda>tb. snd (rearmWebhookIdempotency t k' remark tb)) \<in> hook_others k"
| complete: "k' \<noteq> k \<Longrightarrow> (\<lambda>tb. snd (completeWebhookIdempotency t k' n res tb)) \<in> hook_others k"

interpretation hook: claim_store "hook_owner k" "hook_stored k"
    "\<lambda>n res. completeWebhookIdempotency t k n res" "hook_others k" for k t
proof
  show "hook_owner k s \<noteq> None \<Longrightarrow> hook_stored k s = None" for s
    by (auto simp: hook_owner_def hook_stored_def owns_def split: option.splits if_splits)
  show "hook_owner k s = Some n \<Longrightarrow> fst (completeWebhookIdempotency t k n r s) \<and>
      hook_stored k (snd (completeWebhookIdempotency t k n r s)) = Some r" for s n r
    by (auto simp: hook_owner_def hook_stored_def completeWebhookIdempotency_def split: option.splits if_splits)
  show "hook_owner k s \<noteq> Some n \<Longrightarrow> completeWebhookIdempotency t k n r s = (False, s)" for s n r
    by (auto simp: hook_owner_def owns_def completeWebhookIdempotency_def split: option.splits if_splits)
  show "f \<in> hook_others k \<Longrightarrow> hook_stored k (f s) = hook_stored k s" for f s
    by (erule hook_others.cases) (auto simp: hook_stored_def claimWebhookIdempotency_def releaseWebhookIdempotency_def
        rearmWebhookIdempotency_def completeWebhookIdempotency_def new_row_def reclaimed_row_def Let_def
        split: option.splits if_splits)
qed

section \<open>Any interleaving\<close>

inductive hook_step ::
    "hook_table \<times> (hook_key \<times> string) list \<Rightarrow> hook_table \<times> (hook_key \<times> string) list \<Rightarrow> bool" where
  claim: "hook_step (tb, posted) (snd (claimWebhookIdempotency t k tb), posted)"
| post: "webhookWrite t k n payload s = Some s' \<Longrightarrow> hook_step s s'"
| release: "hook_step (tb, posted) (releaseWebhookIdempotency t k n tb, posted)"
| rearm: "hook_step (tb, posted) (snd (rearmWebhookIdempotency t k remark tb), posted)"

inductive hook_reachable :: "hook_table \<times> (hook_key \<times> string) list \<Rightarrow> bool" where
  empty: "hook_reachable (\<lambda>k. None, [])"
| step: "hook_reachable s \<Longrightarrow> hook_step s s' \<Longrightarrow> hook_reachable s'"

definition demo_key :: hook_key where
  "demo_key = (''book'', ''transaction'', ''key-1'')"

definition posted_for :: "hook_key \<Rightarrow> (hook_key \<times> string) list \<Rightarrow> string list" where
  "posted_for k posted = map snd (filter (\<lambda>e. fst e = k) posted)"

lemma posted_once:
  assumes "hook_reachable s"
  shows "posted_for k (snd s) = (case hook_stored k (fst s) of None \<Rightarrow> [] | Some r \<Rightarrow> [r])"
  using assms
proof (induction rule: hook_reachable.induct)
  case empty
  show ?case by (simp add: posted_for_def hook_stored_def)
next
  case (step s s')
  note ih = hook.write_once [OF step.IH]
  from step.hyps(2) show ?case
  proof cases
    case (claim tb posted t k')
    from ih(2) [OF hook_others.claim [of t k' k]] show ?thesis using claim by simp
  next
    case (post t k' n payload)
    obtain tb posted where s: "s = (tb, posted)" by (cases s)
    have c: "fst (completeWebhookIdempotency t k' n payload tb)"
      "s' = (snd (completeWebhookIdempotency t k' n payload tb), posted @ [(k', payload)])"
      using post s by (auto simp: webhookWrite_def split: prod.splits if_splits bool.splits)
    show ?thesis
    proof (cases "k' = k")
      case True
      then show ?thesis using ih(1) [of t n payload] c s by (simp add: posted_for_def)
    next
      case False
      from ih(2) [OF hook_others.complete [OF False, of t n payload]] show ?thesis using c s False by (simp add: posted_for_def)
    qed
  next
    case (release tb posted t k' n)
    from ih(2) [OF hook_others.release [of t k' n k]] show ?thesis using release by simp
  next
    case (rearm tb posted t k' remark)
    from ih(2) [OF hook_others.rearm [of t k' remark k]] show ?thesis using rearm by simp
  qed
qed

section \<open>The retry budget\<close>

definition row_ok :: "hook_row \<Rightarrow> bool" where
  "row_ok r \<longleftrightarrow> 0 \<le> hk_attempts r \<and> hk_attempts r \<le> WEBHOOK_MAX_ATTEMPTS \<and>
     (hk_state r = Completed \<longleftrightarrow> hk_result r \<noteq> None) \<and>
     (hk_state r = Failed \<longrightarrow> hk_attempts r < WEBHOOK_MAX_ATTEMPTS) \<and>
     (hk_state r = Processing \<longrightarrow> 1 \<le> hk_attempts r)"

definition rows_ok :: "hook_table \<Rightarrow> bool" where
  "rows_ok tb \<longleftrightarrow> (\<forall>k r. tb k = Some r \<longrightarrow> row_ok r)"

lemma rows_ok_upd: "rows_ok tb \<Longrightarrow> row_ok r \<Longrightarrow> rows_ok (tb(k \<mapsto> r))"
  by (simp add: rows_ok_def)

lemma rows_ok_get: "rows_ok tb \<Longrightarrow> tb k = Some r \<Longrightarrow> row_ok r"
  unfolding rows_ok_def by blast

lemmas hook_row_defs = row_ok_def new_row_def reclaimed_row_def reclaimable_def owns_def terminal_stalled_def
  WEBHOOK_MAX_ATTEMPTS_def

lemma claim_ok: "rows_ok tb \<Longrightarrow> rows_ok (snd (claimWebhookIdempotency t k tb))"
  by (auto simp: claimWebhookIdempotency_def hook_row_defs split: option.splits intro!: rows_ok_upd dest: rows_ok_get)

lemma complete_ok: "rows_ok tb \<Longrightarrow> rows_ok (snd (completeWebhookIdempotency t k n res tb))"
  by (auto simp: completeWebhookIdempotency_def hook_row_defs split: option.splits intro!: rows_ok_upd dest: rows_ok_get)

lemma release_ok: "rows_ok tb \<Longrightarrow> rows_ok (releaseWebhookIdempotency t k n tb)"
  by (auto simp: releaseWebhookIdempotency_def hook_row_defs split: option.splits intro!: rows_ok_upd dest: rows_ok_get)

lemma rearm_ok: "rows_ok tb \<Longrightarrow> rows_ok (snd (rearmWebhookIdempotency t k remark tb))"
  by (auto simp: rearmWebhookIdempotency_def hook_row_defs split: option.splits intro!: rows_ok_upd dest: rows_ok_get)

lemma webhookWrite_Some:
  "webhookWrite t k n payload (tb, posted) = Some s' \<Longrightarrow>
     s' = (snd (completeWebhookIdempotency t k n payload tb), posted @ [(k, payload)])"
  by (auto simp: webhookWrite_def split: prod.splits if_splits bool.splits)

lemma reachable_rows_ok: "hook_reachable s \<Longrightarrow> rows_ok (fst s)"
proof (induction rule: hook_reachable.induct)
  case (step s s')
  from step.hyps(2) show ?case
  proof cases
    case (post t k n payload)
    then show ?thesis using complete_ok [OF step.IH, of t k n payload] by (cases s) (auto dest!: webhookWrite_Some)
  qed (use step.IH claim_ok release_ok rearm_ok in auto)
qed (simp add: rows_ok_def)





end
