(* ===== verification/Quick_Add_Queue.thy ===== *)
theory Quick_Add_Queue
  imports Ledger_Balance
begin

text \<open>
  The offline queue of quick-add transactions (src/lib/quick-add-queue.ts, \<open>toNumDenom\<close> of
  src/lib/validation.ts). The storage is the record of its four functions over an abstract
  state, the server a function that answers a request from a state of its own (\<open>fetch\<close>), and
  \<open>loc\<close> the locale's string comparison. Other tabs are not modelled beside a sync run; what
  they leave behind (items marked syncing) is in the storage it starts from.
\<close>

section \<open>Items, payloads and results\<close>

record request_split = split_input +
  rs_guid :: string
  quantity_num :: jsval

record create_request =
  rq_guid :: string
  rq_currency :: string
  rq_post_date :: string
  rq_description :: string
  rq_splits :: "request_split list"

datatype quick_add_status = Pending | Syncing | SyncFailed

record queued_item =
  localId :: string
  createdAt :: string
  payload :: create_request
  tagNames :: "string list"
  status :: quick_add_status
  q_error :: "string option"

record 's queue_storage =
  st_get :: "string \<Rightarrow> 's \<Rightarrow> queued_item option"
  st_getAll :: "'s \<Rightarrow> queued_item list"
  st_put :: "queued_item \<Rightarrow> 's \<Rightarrow> 's"
  st_delete :: "string \<Rightarrow> 's \<Rightarrow> 's"

record sync_result =
  synced_count :: nat
  failed_count :: nat
  remaining_count :: nat

section \<open>Building a transaction\<close>

definition toNumDenom :: "js_number \<Rightarrow> nat \<Rightarrow> js_number \<times> js_number" where
  "toNumDenom amount precision =
     (let denom = fl (10 ^ precision) in (js_round (js_mul amount denom), denom))"

datatype quick_add_kind = Expense | Income

record quick_add_input =
  qa_kind :: quick_add_kind
  qa_amount :: js_number
  qa_account :: string
  qa_category :: string
  qa_currency :: string
  qa_description :: "string option"
  qa_post_date :: "string option"

datatype build_error = AmountNotPositive | SameAccount

text \<open>\<open>guids\<close> are the three generated guids and \<open>today\<close> the local date.\<close>

definition quick_split :: "string \<Rightarrow> string \<Rightarrow> js_number \<Rightarrow> js_number \<Rightarrow> request_split" where
  "quick_split guid account num denom =
     \<lparr>value_num = JNum num, value_denom = JNum denom, account_guid = Some account,
      quantity_denom = JNum denom, reconcile_state = Some ''n'', rs_guid = guid, quantity_num = JNum num\<rparr>"

definition buildQuickAddTransaction ::
    "string \<times> string \<times> string \<Rightarrow> string \<Rightarrow> quick_add_input \<Rightarrow> build_error + create_request" where
  "buildQuickAddTransaction guids today input =
     (if \<not> js_less (JFin 0) (qa_amount input) then Inl AmountNotPositive
      else if qa_account input = qa_category input then Inl SameAccount
      else let (num, denom) = toNumDenom (qa_amount input) 2;
          assetSign = (if qa_kind input = Expense then JFin (-1) else JFin 1);
          assetNum = js_mul assetSign num;
          categoryNum = js_mul (js_neg assetSign) num;
          (g1, g2, g3) = guids;
          desc = (case qa_description input of None \<Rightarrow> [] | Some d \<Rightarrow> trim d)
      in Inr \<lparr>rq_guid = g1, rq_currency = qa_currency input,
           rq_post_date = (case qa_post_date input of None \<Rightarrow> today | Some d \<Rightarrow> if d = [] then today else d),
           rq_description = (if desc = [] then ''Quick add'' else desc),
           rq_splits = [quick_split g2 (qa_account input) assetNum denom,
                        quick_split g3 (qa_category input) categoryNum denom]\<rparr>)"

section \<open>Posting\<close>

datatype http_request = PostTransaction create_request | PutTags string "string list"

text \<open>A response has a status and a body, unless that cannot be read.\<close>

datatype http_response = NetworkError string | Response nat "string option"

definition res_ok :: "nat \<Rightarrow> bool" where
  "res_ok code \<longleftrightarrow> 200 \<le> code \<and> code \<le> 299"

text \<open>\<open>/duplicate|already exists|unique constraint/i\<close>.\<close>

definition ALREADY_SYNCED_RE :: "string \<Rightarrow> bool" where
  "ALREADY_SYNCED_RE body = (let b = map lower_char body in
     contains_text ''duplicate'' b \<or> contains_text ''already exists'' b \<or> contains_text ''unique constraint'' b)"

datatype post_result = Synced | NotSynced string

definition postQuickAdd ::
    "(http_request \<Rightarrow> 'v \<Rightarrow> http_response \<times> 'v) \<Rightarrow> create_request \<Rightarrow> string list \<Rightarrow> 'v \<Rightarrow> post_result \<times> 'v" where
  "postQuickAdd fetch p tags v = (case fetch (PostTransaction p) v of
      (NetworkError e, v1) \<Rightarrow> (NotSynced e, v1)
    | (Response code body, v1) \<Rightarrow>
        if res_ok code \<or> code = 409 then
          (if tags \<noteq> [] \<and> rq_guid p \<noteq> [] then
             (case fetch (PutTags (rq_guid p) tags) v1 of
                (NetworkError e, v2) \<Rightarrow> (NotSynced e, v2)
              | (Response code2 _, v2) \<Rightarrow>
                  if res_ok code2 then (Synced, v2)
                  else (NotSynced (''Transaction saved but trip tag failed: HTTP '' @ nat_str code2), v2))
           else (Synced, v1))
        else let b = (case body of None \<Rightarrow> [] | Some x \<Rightarrow> x) in
          if ALREADY_SYNCED_RE b then (Synced, v1)
          else (NotSynced (''HTTP '' @ nat_str code @ (if b = [] then [] else '': '' @ take 200 b)), v1))"

section \<open>The queue over a storage\<close>

definition compare_items :: "(string \<Rightarrow> string \<Rightarrow> int) \<Rightarrow> queued_item \<Rightarrow> queued_item \<Rightarrow> int" where
  "compare_items loc a b =
     (if createdAt a = createdAt b then loc (localId a) (localId b) else loc (createdAt a) (createdAt b))"

definition listAll :: "(string \<Rightarrow> string \<Rightarrow> int) \<Rightarrow> 's queue_storage \<Rightarrow> 's \<Rightarrow> queued_item list" where
  "listAll loc st s = stable_sort (compare_items loc) (st_getAll st s)"

definition listPending :: "(string \<Rightarrow> string \<Rightarrow> int) \<Rightarrow> 's queue_storage \<Rightarrow> 's \<Rightarrow> queued_item list" where
  "listPending loc st s = filter (\<lambda>x. status x = Pending) (listAll loc st s)"

definition setStatus :: "'s queue_storage \<Rightarrow> string \<Rightarrow> quick_add_status \<Rightarrow> string option \<Rightarrow> 's \<Rightarrow> 's" where
  "setStatus st k new_status err s = (case st_get st k s of
      None \<Rightarrow> s | Some x \<Rightarrow> st_put st (x\<lparr>status := new_status, q_error := err\<rparr>) s)"

definition markSyncing :: "'s queue_storage \<Rightarrow> string \<Rightarrow> 's \<Rightarrow> 's" where
  "markSyncing st k = setStatus st k Syncing None"

definition markFailed :: "'s queue_storage \<Rightarrow> string \<Rightarrow> string \<Rightarrow> 's \<Rightarrow> 's" where
  "markFailed st k e = setStatus st k SyncFailed (Some e)"

definition retry :: "'s queue_storage \<Rightarrow> string \<Rightarrow> 's \<Rightarrow> 's" where
  "retry st k = setStatus st k Pending None"

definition enqueue :: "'s queue_storage \<Rightarrow> string \<Rightarrow> string \<Rightarrow> create_request \<Rightarrow> string list \<Rightarrow> 's \<Rightarrow> queued_item \<times> 's" where
  "enqueue st guid stamp p tags s =
     (let x = \<lparr>localId = guid, createdAt = stamp, payload = p, tagNames = tags, status = Pending, q_error = None\<rparr>
      in (x, st_put st x s))"

fun sync_loop ::
    "'s queue_storage \<Rightarrow> (http_request \<Rightarrow> 'v \<Rightarrow> http_response \<times> 'v) \<Rightarrow> queued_item list
      \<Rightarrow> nat \<times> nat \<Rightarrow> 's \<Rightarrow> 'v \<Rightarrow> (nat \<times> nat) \<times> 's \<times> 'v" where
  "sync_loop st fetch [] counts s v = (counts, s, v)"
| "sync_loop st fetch (c # cs) (synced, failed) s v =
     (case st_get st (localId c) s of
        None \<Rightarrow> sync_loop st fetch cs (synced, failed) s v
      | Some current \<Rightarrow>
          if status current = Syncing then sync_loop st fetch cs (synced, failed) s v
          else (case postQuickAdd fetch (payload current) (tagNames current) v of
              (Synced, v') \<Rightarrow> sync_loop st fetch cs (Suc synced, failed)
                  (st_delete st (localId current) (setStatus st (localId current) Syncing None s)) v'
            | (NotSynced e, v') \<Rightarrow> sync_loop st fetch cs (synced, Suc failed)
                  (setStatus st (localId current) SyncFailed (Some e)
                    (setStatus st (localId current) Syncing None s)) v'))"

definition sync_statuses :: "bool \<Rightarrow> quick_add_status list" where
  "sync_statuses includeFailed = (if includeFailed then [Pending, SyncFailed] else [Pending])"

definition runSync ::
    "(string \<Rightarrow> string \<Rightarrow> int) \<Rightarrow> 's queue_storage \<Rightarrow> (http_request \<Rightarrow> 'v \<Rightarrow> http_response \<times> 'v) \<Rightarrow> bool
      \<Rightarrow> 's \<Rightarrow> 'v \<Rightarrow> sync_result \<times> 's \<times> 'v" where
  "runSync loc st fetch includeFailed s v =
     (let candidates = filter (\<lambda>x. status x \<in> set (sync_statuses includeFailed)) (listAll loc st s)
      in case sync_loop st fetch candidates (0, 0) s v of
        ((synced, failed), s', v') \<Rightarrow>
          (\<lparr>synced_count = synced, failed_count = failed, remaining_count = length (listAll loc st s')\<rparr>, s', v'))"

section \<open>The in-memory storage\<close>

text \<open>A JavaScript \<open>Map\<close> keeps the order of insertion; setting a present key keeps its place.\<close>

fun map_set :: "queued_item \<Rightarrow> queued_item list \<Rightarrow> queued_item list" where
  "map_set x [] = [x]"
| "map_set x (y # ys) = (if localId y = localId x then x # ys else y # map_set x ys)"

definition createInMemoryStorage :: "queued_item list queue_storage" where
  "createInMemoryStorage =
     \<lparr>st_get = (\<lambda>k s. find (\<lambda>x. localId x = k) s), st_getAll = (\<lambda>s. s), st_put = map_set,
      st_delete = (\<lambda>k s. filter (\<lambda>x. localId x \<noteq> k) s)\<rparr>"

text \<open>The results the server gives to the items posted one after another.\<close>

primrec post_all ::
    "(http_request \<Rightarrow> 'v \<Rightarrow> http_response \<times> 'v) \<Rightarrow> queued_item list \<Rightarrow> 'v \<Rightarrow> post_result list \<times> 'v" where
  "post_all fetch [] v = ([], v)"
| "post_all fetch (x # xs) v = (case postQuickAdd fetch (payload x) (tagNames x) v of
     (r, v') \<Rightarrow> (case post_all fetch xs v' of (rs, v'') \<Rightarrow> (r # rs, v'')))"

definition after_post :: "queued_item \<Rightarrow> post_result \<Rightarrow> queued_item option" where
  "after_post x r = (case r of
     Synced \<Rightarrow> None | NotSynced e \<Rightarrow> Some (x\<lparr>status := SyncFailed, q_error := Some e\<rparr>))"

definition outcomes :: "queued_item list \<Rightarrow> post_result list \<Rightarrow> string \<Rightarrow> queued_item option option" where
  "outcomes cs rs = map_of (map2 (\<lambda>c r. (localId c, after_post c r)) cs rs)"

lemma length_post_all: "post_all fetch cs v = (rs, v') \<Longrightarrow> length rs = length cs"
  by (induction cs arbitrary: v rs) (auto split: prod.splits)

section \<open>What the queue needs of a storage\<close>

text \<open>
  \<open>ok\<close> is the storage's own invariant. The listing has every item once, under its key, and
  a write or a deletion touches one key.
\<close>

locale storage_laws =
  fixes st :: "'s queue_storage" and ok :: "'s \<Rightarrow> bool"
  assumes get_put: "ok s \<Longrightarrow> st_get st k (st_put st x s) = (if k = localId x then Some x else st_get st k s)"
    and get_delete: "ok s \<Longrightarrow> st_get st k (st_delete st j s) = (if k = j then None else st_get st k s)"
    and getAll: "ok s \<Longrightarrow> x \<in> set (st_getAll st s) \<longleftrightarrow> st_get st (localId x) s = Some x"
    and getAll_once: "ok s \<Longrightarrow> distinct (map localId (st_getAll st s))"
    and get_key: "ok s \<Longrightarrow> st_get st k s = Some x \<Longrightarrow> localId x = k"
    and put_ok: "ok s \<Longrightarrow> ok (st_put st x s)"
    and delete_ok: "ok s \<Longrightarrow> ok (st_delete st j s)"
begin

lemma get_setStatus:
  assumes "ok s"
  shows "st_get st j (setStatus st k new_status err s) =
    (if j = k then map_option (\<lambda>x. x\<lparr>status := new_status, q_error := err\<rparr>) (st_get st k s) else st_get st j s)"
  using assms get_key [OF assms, of k] by (auto simp: setStatus_def get_put split: option.splits)

lemma setStatus_ok: "ok s \<Longrightarrow> ok (setStatus st k new_status err s)"
  by (auto simp: setStatus_def put_ok split: option.splits)

lemma sync_loop_spec:
  assumes "ok s" "distinct (map localId cs)"
    and "\<forall>c \<in> set cs. st_get st (localId c) s = Some c \<and> status c \<noteq> Syncing"
    and "post_all fetch cs v = (rs, v')"
  shows "\<exists>s'. sync_loop st fetch cs (a, b) s v =
      ((a + length (filter (\<lambda>r. r = Synced) rs), b + length (filter (\<lambda>r. r \<noteq> Synced) rs)), s', v') \<and> ok s' \<and>
    (\<forall>k. st_get st k s' = (case outcomes cs rs k of None \<Rightarrow> st_get st k s | Some x \<Rightarrow> x))"
  using assms
proof (induction cs arbitrary: a b s v rs)
  case Nil
  then show ?case by (simp add: outcomes_def)
next
  case (Cons c cs)
  obtain r v1 where p: "postQuickAdd fetch (payload c) (tagNames c) v = (r, v1)" by fastforce
  obtain rs' where rs': "post_all fetch cs v1 = (rs', v')" "rs = r # rs'"
    using Cons.prems(4) p by (auto split: prod.splits)
  have c: "st_get st (localId c) s = Some c" "status c \<noteq> Syncing" using Cons.prems(3) by auto
  let ?s1 = "setStatus st (localId c) Syncing None s"
  define s2 where "s2 = (case r of Synced \<Rightarrow> st_delete st (localId c) ?s1
    | NotSynced e \<Rightarrow> setStatus st (localId c) SyncFailed (Some e) ?s1)"
  have ok2: "ok s2" using Cons.prems(1) by (auto simp: s2_def setStatus_ok delete_ok split: post_result.splits)
  have get2: "st_get st k s2 = (if k = localId c then after_post c r else st_get st k s)" for k
    using Cons.prems(1) c(1) by (auto simp: s2_def get_setStatus get_delete setStatus_ok after_post_def split: post_result.splits)
  have rest: "\<forall>x \<in> set cs. st_get st (localId x) s2 = Some x \<and> status x \<noteq> Syncing"
  proof
    fix x assume x: "x \<in> set cs"
    then have "localId x \<noteq> localId c" using Cons.prems(2) by (metis distinct.simps(2) image_eqI list.simps(9) set_map)
    then show "st_get st (localId x) s2 = Some x \<and> status x \<noteq> Syncing" using Cons.prems(3) x by (simp add: get2)
  qed
  have step: "sync_loop st fetch (c # cs) (a, b) s v =
      sync_loop st fetch cs (if r = Synced then (Suc a, b) else (a, Suc b)) s2 v1"
    using c p by (simp add: s2_def split: post_result.splits)
  have out: "outcomes (c # cs) rs k = (if k = localId c then Some (after_post c r) else outcomes cs rs' k)" for k
    by (simp add: outcomes_def rs'(2))
  have none: "outcomes cs rs' (localId c) = None"
    using Cons.prems(2) by (auto simp: outcomes_def map_of_eq_None_iff dest: set_zip_leftD)
  have d: "distinct (map localId cs)" using Cons.prems(2) by simp
  let ?a = "if r = Synced then Suc a else a" and ?b = "if r = Synced then b else Suc b"
  obtain s' where s': "sync_loop st fetch cs (?a, ?b) s2 v1 =
      ((?a + length (filter (\<lambda>r. r = Synced) rs'), ?b + length (filter (\<lambda>r. r \<noteq> Synced) rs')), s', v')" "ok s'"
    "\<forall>k. st_get st k s' = (case outcomes cs rs' k of None \<Rightarrow> st_get st k s2 | Some x \<Rightarrow> x)"
    using Cons.IH [OF ok2 d rest rs'(1)] by blast
  have "st_get st k s' = (case outcomes (c # cs) rs k of None \<Rightarrow> st_get st k s | Some x \<Rightarrow> x)" for k
    using spec [OF s'(3), of k] none by (simp add: out get2 split: option.splits)
  moreover have "sync_loop st fetch (c # cs) (a, b) s v =
      ((a + length (filter (\<lambda>r. r = Synced) rs), b + length (filter (\<lambda>r. r \<noteq> Synced) rs)), s', v')"
    using s'(1) unfolding step by (auto simp: rs'(2) split: if_splits)
  ultimately show ?case using s'(2) by blast
qed

end

section \<open>The in-memory storage satisfies them\<close>

definition keys_once :: "queued_item list \<Rightarrow> bool" where
  "keys_once s \<longleftrightarrow> distinct (map localId s)"

lemma find_map_set:
  "find (\<lambda>y. localId y = k) (map_set x s) = (if k = localId x then Some x else find (\<lambda>y. localId y = k) s)"
  by (induction s) auto

lemma keys_map_set: "set (map localId (map_set x s)) = insert (localId x) (set (map localId s))"
  by (induction s) auto

lemma keys_once_map_set: "keys_once s \<Longrightarrow> keys_once (map_set x s)"
proof (induction s)
  case (Cons y s)
  then show ?case using keys_map_set [of x s] by (auto simp: keys_once_def)
qed (simp add: keys_once_def)

lemma find_filter_key:
  "find (\<lambda>y. localId y = k) (filter (\<lambda>x. localId x \<noteq> j) s) = (if k = j then None else find (\<lambda>y. localId y = k) s)"
  by (induction s) auto

lemma find_member:
  "keys_once s \<Longrightarrow> x \<in> set s \<longleftrightarrow> find (\<lambda>y. localId y = localId x) s = Some x"
proof (induction s)
  case (Cons y s)
  then have "localId y \<notin> localId ` set s" "keys_once s" by (auto simp: keys_once_def)
  note y = this
  show ?case
  proof (cases "localId y = localId x")
    case True
    then have "x \<notin> set s" using y(1) by (metis imageI)
    then show ?thesis using True by auto
  next
    case False
    then have "x \<noteq> y" by auto
    then show ?thesis using False Cons.IH [OF y(2)] by simp
  qed
qed simp

interpretation memory: storage_laws createInMemoryStorage keys_once
proof unfold_locales
  fix s :: "queued_item list" and k x
  assume "st_get createInMemoryStorage k s = Some x"
  then show "localId x = k" by (auto simp: createInMemoryStorage_def find_Some_iff)
next
  fix s :: "queued_item list" and j
  assume "keys_once s"
  then show "keys_once (st_delete createInMemoryStorage j s)"
    by (simp add: createInMemoryStorage_def keys_once_def distinct_map_filter)
qed (simp_all add: createInMemoryStorage_def find_map_set find_filter_key find_member keys_once_map_set,
  simp_all add: keys_once_def)

lemma after_post_None [simp]: "after_post x r = None \<longleftrightarrow> r = Synced"
  by (cases r) (simp_all add: after_post_def)

lemma card_outcomes_gone:
  assumes "length rs = length cs" "distinct (map localId cs)"
  shows "card {k. outcomes cs rs k = Some None} = length (filter (\<lambda>r. r = Synced) rs)"
  using assms
proof (induction rs cs rule: list_induct2)
  case (Cons r rs c cs)
  have out: "outcomes (c # cs) (r # rs) k = (if k = localId c then Some (after_post c r) else outcomes cs rs k)" for k
    by (simp add: outcomes_def)
  have none: "outcomes cs rs (localId c) = None"
    using Cons.prems by (auto simp: outcomes_def map_of_eq_None_iff dest: set_zip_leftD)
  have "{k. outcomes cs rs k = Some None} \<subseteq> localId ` set cs"
    by (auto simp: outcomes_def dest!: map_of_SomeD intro: imageI [OF set_zip_leftD])
  then have fin: "finite {k. outcomes cs rs k = Some None}" by (rule finite_subset) simp
  have "{k. outcomes (c # cs) (r # rs) k = Some None} =
      (if r = Synced then insert (localId c) {k. outcomes cs rs k = Some None} else {k. outcomes cs rs k = Some None})"
    using none by (auto simp: out)
  then show ?case using Cons none fin by simp
qed (simp add: outcomes_def)

context storage_laws
begin

lemma keys_getAll: "ok s \<Longrightarrow> set (map localId (st_getAll st s)) = dom (\<lambda>k. st_get st k s)"
proof (rule set_eqI)
  fix k
  assume ok: "ok s"
  have "k \<in> set (map localId (st_getAll st s)) \<longleftrightarrow> (\<exists>x. st_get st (localId x) s = Some x \<and> localId x = k)"
    by (auto simp: getAll [OF ok, symmetric])
  also have "\<dots> \<longleftrightarrow> (\<exists>x. st_get st k s = Some x)" using get_key [OF ok] by metis
  finally show "k \<in> set (map localId (st_getAll st s)) \<longleftrightarrow> k \<in> dom (\<lambda>k. st_get st k s)" by (simp add: dom_def)
qed

lemma length_getAll: "ok s \<Longrightarrow> length (st_getAll st s) = card (dom (\<lambda>k. st_get st k s))"
  using distinct_card [OF getAll_once] by (simp add: keys_getAll [symmetric])

text \<open>
  A sync run posts every candidate once, in the queue's order, and leaves each item in the state
  its own answer calls for; everything else stays as it was.
\<close>

lemma runSync_spec:
  assumes ok: "ok s"
    and cands: "cs = filter (\<lambda>x. status x \<in> set (sync_statuses includeFailed)) (listAll loc st s)"
    and posts: "post_all fetch cs v = (rs, v')"
  shows "\<exists>s'. runSync loc st fetch includeFailed s v =
      (\<lparr>synced_count = length (filter (\<lambda>r. r = Synced) rs), failed_count = length (filter (\<lambda>r. r \<noteq> Synced) rs),
        remaining_count = length (st_getAll st s')\<rparr>, s', v') \<and> ok s' \<and>
    (\<forall>k. st_get st k s' = (case outcomes cs rs k of None \<Rightarrow> st_get st k s | Some x \<Rightarrow> x))"
proof -
  have mset: "mset (listAll loc st s) = mset (st_getAll st s)" by (simp add: listAll_def)
  then have d: "distinct (map localId (listAll loc st s))"
    using getAll_once [OF ok] by (metis mset_eq_imp_distinct_iff mset_map)
  have "distinct (map localId cs)" unfolding cands using d by (rule distinct_map_filter)
  moreover have "\<forall>c \<in> set cs. st_get st (localId c) s = Some c \<and> status c \<noteq> Syncing"
    using getAll [OF ok] by (auto simp: cands listAll_def sync_statuses_def split: if_splits)
  ultimately obtain s' where
    s': "sync_loop st fetch cs (0, 0) s v = ((0 + length (filter (\<lambda>r. r = Synced) rs),
        0 + length (filter (\<lambda>r. r \<noteq> Synced) rs)), s', v')" and rest: "ok s'"
      "\<forall>k. st_get st k s' = (case outcomes cs rs k of None \<Rightarrow> st_get st k s | Some x \<Rightarrow> x)"
    using sync_loop_spec [OF ok _ _ posts] by blast
  have "length (listAll loc st s') = length (st_getAll st s')"
    unfolding listAll_def by (metis mset_stable_sort size_mset)
  then have "runSync loc st fetch includeFailed s v =
      (\<lparr>synced_count = length (filter (\<lambda>r. r = Synced) rs), failed_count = length (filter (\<lambda>r. r \<noteq> Synced) rs),
        remaining_count = length (st_getAll st s')\<rparr>, s', v')"
    using s' by (simp add: runSync_def cands [symmetric])
  then show ?thesis using rest by blast
qed

lemma runSync_conserves:
  assumes ok: "ok s" and finite_keys: "finite (dom (\<lambda>k. st_get st k s))"
    and run: "runSync loc st fetch includeFailed s v = (r, s', v')"
  shows "synced_count r + remaining_count r = length (st_getAll st s)"
proof -
  define cs where "cs = filter (\<lambda>x. status x \<in> set (sync_statuses includeFailed)) (listAll loc st s)"
  obtain rs w where posts: "post_all fetch cs v = (rs, w)" by fastforce
  obtain t where t: "r = \<lparr>synced_count = length (filter (\<lambda>r. r = Synced) rs),
      failed_count = length (filter (\<lambda>r. r \<noteq> Synced) rs), remaining_count = length (st_getAll st t)\<rparr>"
    "ok t" "\<forall>k. st_get st k t = (case outcomes cs rs k of None \<Rightarrow> st_get st k s | Some x \<Rightarrow> x)"
    using runSync_spec [OF ok cs_def posts] run by fastforce
  define gone where "gone = {k. outcomes cs rs k = Some None}"
  have key: "k \<in> dom (\<lambda>k. st_get st k s)" if "outcomes cs rs k \<noteq> None" for k
  proof -
    have "k \<in> localId ` set cs" using that by (auto simp: outcomes_def map_of_eq_None_iff dest: set_zip_leftD)
    then have "k \<in> set (map localId (st_getAll st s))" by (auto simp: cs_def listAll_def)
    then show ?thesis by (simp only: keys_getAll [OF ok])
  qed
  have "dom (\<lambda>k. st_get st k t) = dom (\<lambda>k. st_get st k s) - gone"
  proof (rule set_eqI)
    fix k
    show "k \<in> dom (\<lambda>k. st_get st k t) \<longleftrightarrow> k \<in> dom (\<lambda>k. st_get st k s) - gone"
      using key [of k] spec [OF t(3), of k] by (cases "outcomes cs rs k") (simp_all add: gone_def domIff del: not_None_eq split: option.splits)
  qed
  moreover have "gone \<subseteq> dom (\<lambda>k. st_get st k s)" using key by (auto simp: gone_def)
  moreover have "card gone = length (filter (\<lambda>r. r = Synced) rs)"
    unfolding gone_def
  proof (rule card_outcomes_gone)
    have "mset (listAll loc st s) = mset (st_getAll st s)" by (simp add: listAll_def)
    then have "distinct (map localId (listAll loc st s))"
      using getAll_once [OF ok] by (metis mset_eq_imp_distinct_iff mset_map)
    then show "distinct (map localId cs)" unfolding cs_def by (rule distinct_map_filter)
  qed (simp add: length_post_all [OF posts])
  ultimately have "card (dom (\<lambda>k. st_get st k t)) + length (filter (\<lambda>r. r = Synced) rs) = card (dom (\<lambda>k. st_get st k s))"
    by (metis card_Diff_subset card_mono finite_keys le_add_diff_inverse2 finite_subset)
  then show ?thesis by (simp add: t(1) length_getAll ok t(2))
qed

end

section \<open>Properties\<close>

lemma memory_reads:
  "st_get createInMemoryStorage k s = find (\<lambda>x. localId x = k) s" "st_getAll createInMemoryStorage s = s"
  by (simp_all add: createInMemoryStorage_def)

text \<open>C37. A sync run over the in-memory queue accounts for every item: each candidate is posted
  exactly once, in order of creation, an item whose answer says it is on the server is removed,
  an item whose answer does not is kept as failed with the message, every other item is
  untouched, and the three counts it reports add up.\<close>
theorem sync_accounts_for_every_item:
  assumes "distinct (map localId s)"
    and "runSync loc createInMemoryStorage fetch includeFailed s v = (r, s', v')"
    and "post_all fetch (filter (\<lambda>x. status x \<in> set (sync_statuses includeFailed))
          (listAll loc createInMemoryStorage s)) v = (rs, w)"
  shows "synced_count r = length (filter (\<lambda>r. r = Synced) rs) \<and> failed_count r = length rs - synced_count r
    \<and> synced_count r + remaining_count r = length s \<and> v' = w
    \<and> (\<forall>k. find (\<lambda>x. localId x = k) s' =
        (case outcomes (filter (\<lambda>x. status x \<in> set (sync_statuses includeFailed))
            (listAll loc createInMemoryStorage s)) rs k of
          None \<Rightarrow> find (\<lambda>x. localId x = k) s | Some x \<Rightarrow> x))"
proof -
  have ok: "keys_once s" using assms(1) by (simp add: keys_once_def)
  have "dom (\<lambda>k. find (\<lambda>x. localId x = k) s) \<subseteq> localId ` set s" by (auto simp: find_Some_iff)
  then have "finite (dom (\<lambda>k. st_get createInMemoryStorage k s))"
    by (simp add: memory_reads finite_subset)
  from memory.runSync_conserves [OF ok this assms(2)]
  have sum: "synced_count r + remaining_count r = length s" by (simp add: memory_reads)
  have len: "length (filter (\<lambda>r. r \<noteq> Synced) rs) = length rs - length (filter (\<lambda>r. r = Synced) rs)"
    using sum_length_filter_compl [of "\<lambda>r. r = Synced" rs] by simp
  obtain t where "runSync loc createInMemoryStorage fetch includeFailed s v =
      (\<lparr>synced_count = length (filter (\<lambda>r. r = Synced) rs), failed_count = length (filter (\<lambda>r. r \<noteq> Synced) rs),
        remaining_count = length (st_getAll createInMemoryStorage t)\<rparr>, t, w)"
    "\<forall>k. st_get createInMemoryStorage k t = (case outcomes (filter (\<lambda>x. status x \<in> set (sync_statuses includeFailed))
            (listAll loc createInMemoryStorage s)) rs k of
          None \<Rightarrow> st_get createInMemoryStorage k s | Some x \<Rightarrow> x)"
    using memory.runSync_spec [OF ok refl assms(3)] by blast
  then show ?thesis using assms(2) sum unfolding memory_reads by (auto simp: len)
qed

lemma toNumDenom_2: "toNumDenom amount 2 = (js_round (js_mul amount (JFin 100)), JFin 100)"
  using fl_int [of 100] by (simp add: toNumDenom_def Let_def)

text \<open>A quick-add entry is balanced: whenever the amount's numerator is a safe integer, the two
  splits pass the server's exact balance check.\<close>
theorem quick_add_balanced:
  assumes "buildQuickAddTransaction guids today entry = Inr rq"
    and "is_safe_integer (fst (toNumDenom (qa_amount entry) 2))"
  shows "assertBalanced (rq_splits rq) = Inr ()"
proof -
  obtain n where n: "js_round (js_mul (qa_amount entry) (JFin 100)) = JFin (of_int n)" "\<bar>n\<bar> \<le> 2 ^ 53 - 1"
  proof (cases "js_mul (qa_amount entry) (JFin 100)")
    case (JFin q)
    have "\<bar>\<lfloor>q + 1 / 2\<rfloor>\<bar> \<le> 2 ^ 53 - 1" using assms(2) unfolding JFin toNumDenom_2 
      by (simp add: is_safe_integer_def JFin) 
    then show ?thesis using that [of "\<lfloor>q + 1 / 2\<rfloor>"] JFin by simp
  qed (use assms(2) in \<open>simp_all add: toNumDenom_2 is_safe_integer_def\<close>)
  have neg: "fl (- of_int n) = JFin (- of_int n)" using fl_int [of "- n"] n(2) by simp
  have pos: "fl (of_int n) = JFin (of_int n)" using fl_int [of n] n(2) by simp
  have abs_le: "\<bar>of_int m :: rat\<bar> \<le> 2 ^ 53 - 1 \<longleftrightarrow> \<bar>m\<bar> \<le> 2 ^ 53 - 1" for m :: int
    using of_int_le_iff [of "\<bar>m\<bar>" "2 ^ 53 - 1", where ?'a = rat] by simp
  have safe: "is_safe_integer (JFin (of_int n))" "is_safe_integer (JFin (- of_int n))" "is_safe_integer (JFin 100)"
    using n(2) abs_le [of n] abs_le [of "- n"] by (simp_all add: is_safe_integer_def)
  show ?thesis
    using assms(1) unfolding buildQuickAddTransaction_def toNumDenom_2 n(1)
    by (auto simp: assertBalanced_Inr_iff quick_split_def split_value_def exact_int_def neg pos safe
        Let_def split: if_splits prod.splits)
qed

definition demo_entry :: quick_add_input where
  "demo_entry = \<lparr>qa_kind = Expense, qa_amount = JFin (49/4), qa_account = ''cash'', qa_category = ''food'',
     qa_currency = ''USD'', qa_description = None, qa_post_date = Some ''2026-01-02''\<rparr>"

definition demo_request :: create_request where
  "demo_request = \<lparr>rq_guid = ''g'', rq_currency = ''USD'', rq_post_date = ''2026-01-02'',
     rq_description = ''Quick add'', rq_splits = []\<rparr>"

definition demo_item :: "string \<Rightarrow> quick_add_status \<Rightarrow> queued_item" where
  "demo_item k st = \<lparr>localId = k, createdAt = ''t'', payload = demo_request, tagNames = [], status = st, q_error = None\<rparr>"

definition demo_fetch :: "http_request \<Rightarrow> nat \<Rightarrow> http_response \<times> nat" where
  "demo_fetch request v = (if v = 0 then Response 201 None else NetworkError ''offline'', Suc v)"

lemma demo_run:
  "runSync (\<lambda>a b. 0) createInMemoryStorage demo_fetch False [demo_item ''a'' Pending, demo_item ''b'' Pending, demo_item ''c'' SyncFailed] 0
    = (\<lparr>synced_count = 1, failed_count = 1, remaining_count = 2\<rparr>,
       [(demo_item ''b'' SyncFailed)\<lparr>q_error := Some ''offline''\<rparr>, demo_item ''c'' SyncFailed], 2)"
  by code_simp

lemma demo_posts:
  "post_all demo_fetch (filter (\<lambda>x. status x \<in> set (sync_statuses False)) (listAll (\<lambda>a b. 0) createInMemoryStorage
      [demo_item ''a'' Pending, demo_item ''b'' Pending, demo_item ''c'' SyncFailed])) 0
    = ([Synced, NotSynced ''offline''], 2)"
  by code_simp

theorem sync_accounts_for_every_item_witness:
  "distinct (map localId [demo_item ''a'' Pending, demo_item ''b'' Pending, demo_item ''c'' SyncFailed])
    \<and> synced_count (fst (runSync (\<lambda>a b. 0) createInMemoryStorage demo_fetch False
        [demo_item ''a'' Pending, demo_item ''b'' Pending, demo_item ''c'' SyncFailed] 0)) = 1"
proof
  show d: "distinct (map localId [demo_item ''a'' Pending, demo_item ''b'' Pending, demo_item ''c'' SyncFailed])"
    by (simp add: demo_item_def)
  show "synced_count (fst (runSync (\<lambda>a b. 0) createInMemoryStorage demo_fetch False
        [demo_item ''a'' Pending, demo_item ''b'' Pending, demo_item ''c'' SyncFailed] 0)) = 1"
    using sync_accounts_for_every_item [OF d demo_run demo_posts] by (simp add: demo_run)
qed

theorem quick_add_balanced_witness:
  "\<exists>rq. buildQuickAddTransaction (''g1'', ''g2'', ''g3'') ''2026-01-01'' demo_entry = Inr rq
    \<and> assertBalanced (rq_splits rq) = Inr ()"
proof -
  have e: "isl (buildQuickAddTransaction (''g1'', ''g2'', ''g3'') ''2026-01-01'' demo_entry) = False"
    by (simp add: buildQuickAddTransaction_def demo_entry_def case_prod_beta)
  have safe: "is_safe_integer (fst (toNumDenom (qa_amount demo_entry) 2))"
    using fl_int [of 1225] by (simp add: toNumDenom_2 demo_entry_def is_safe_integer_def)
  obtain rq where "buildQuickAddTransaction (''g1'', ''g2'', ''g3'') ''2026-01-01'' demo_entry = Inr rq"
    using e by (cases "buildQuickAddTransaction (''g1'', ''g2'', ''g3'') ''2026-01-01'' demo_entry") auto
  from quick_add_balanced [OF this safe] this show ?thesis by blast
qed

end
