(* ===== verification/Trading_Accounts.thy ===== *)
theory Trading_Accounts
  imports Account_Walk Ledger_Balance
begin

text \<open>
  Trading accounts of a multi-currency save (src/lib/trading-accounts.ts). Values and
  quantities are JavaScript numbers, summed and rounded in binary64 as the code does; the
  JavaScript \<open>Map\<close>s that are iterated are association lists in insertion order. The account
  table, the arrival of other transactions' rows and the lock scope are those of
  \<open>Account_Walk\<close>; \<open>book_accounts\<close> is the caller's mutable set of account guids.
\<close>

section \<open>Data\<close>

definition TRADING_ROOT_NAME :: string where
  "TRADING_ROOT_NAME = ''Trading''"

definition tradingAccountLockOrder :: "string \<Rightarrow> string \<Rightarrow> string \<Rightarrow> nat \<Rightarrow> lock_order" where
  "tradingAccountLockOrder bookRootGuid namespace mnemonic depth =
     \<lparr>book_root = bookRootGuid, path = take depth [TRADING_ROOT_NAME, namespace, mnemonic]\<rparr>"

record trade_split =
  ts_guid :: "string option"
  ts_account :: string
  ts_value_num :: js_number
  ts_value_denom :: js_number
  ts_quantity_num :: "js_number option"
  ts_quantity_denom :: "js_number option"
  ts_memo :: "string option"
  ts_action :: "string option"
  ts_state :: "string option"

record split_with_commodity =
  sc_account :: string
  sc_commodity :: string
  sc_mnemonic :: string
  sc_namespace :: string
  sc_fraction :: int
  sc_value :: js_number
  sc_quantity :: js_number

record imbalance =
  im_mnemonic :: string
  im_namespace :: string
  im_fraction :: int
  im_quantity :: js_number
  im_value :: js_number

record trading_split =
  tr_account :: string
  tr_value_num :: js_number
  tr_value_denom :: js_number
  tr_quantity_num :: js_number
  tr_quantity_denom :: js_number

datatype trade_error =
    EmptyBookScope | NoRootAccount | LockProblem lock_error
  | NotAnInteger | ZeroValueDenominator | SplitsUnbalanced int int

section \<open>Imbalances\<close>

definition needsTradingAccounts :: "split_with_commodity list \<Rightarrow> bool" where
  "needsTradingAccounts ss \<longleftrightarrow> length (remdups (map sc_commodity ss)) > 1"

definition VALUE_DENOM :: js_number where
  "VALUE_DENOM = JFin 100"

definition QUANTITY_EPSILON :: js_number where
  "QUANTITY_EPSILON = fl (1 / 10000)"

definition no_imbalance :: "split_with_commodity \<Rightarrow> imbalance" where
  "no_imbalance s = \<lparr>im_mnemonic = sc_mnemonic s, im_namespace = sc_namespace s, im_fraction = sc_fraction s,
     im_quantity = JFin 0, im_value = JFin 0\<rparr>"

definition add_split :: "split_with_commodity \<Rightarrow> (string \<times> imbalance) list \<Rightarrow> (string \<times> imbalance) list" where
  "add_split s m =
     (let i = (case map_of m (sc_commodity s) of Some i \<Rightarrow> i | None \<Rightarrow> no_imbalance s)
      in assoc_set (sc_commodity s) (i\<lparr>im_quantity := js_add (im_quantity i) (sc_quantity s),
           im_value := js_add (im_value i) (sc_value s)\<rparr>) m)"

definition material :: "imbalance \<Rightarrow> bool" where
  "material i \<longleftrightarrow> js_ge (js_abs (im_quantity i)) QUANTITY_EPSILON \<or>
     js_round (js_mul (im_value i) VALUE_DENOM) \<noteq> JFin 0"

definition calculateImbalances :: "split_with_commodity list \<Rightarrow> (string \<times> imbalance) list" where
  "calculateImbalances ss = filter (\<lambda>(_, i). material i) (fold add_split ss [])"

definition calculateQuantityImbalances :: "split_with_commodity list \<Rightarrow> (string \<times> string \<times> string \<times> js_number) list" where
  "calculateQuantityImbalances ss =
     map (\<lambda>(g, i). (g, im_mnemonic i, im_namespace i, im_quantity i)) (calculateImbalances ss)"

section \<open>Trading splits\<close>

definition roundToInt :: "js_number \<Rightarrow> js_number \<Rightarrow> js_number" where
  "roundToInt value denom = (let num = js_round (js_mul value denom) in if js_eq num (JFin 0) then JFin 0 else num)"

definition trading_split_of :: "string \<Rightarrow> imbalance \<Rightarrow> trading_split" where
  "trading_split_of account i =
     (let quantityDenom = JFin (of_int (if im_fraction i > 0 then im_fraction i else 100))
      in \<lparr>tr_account = account, tr_value_num = roundToInt (js_neg (im_value i)) VALUE_DENOM,
          tr_value_denom = VALUE_DENOM,
          tr_quantity_num = roundToInt (js_neg (im_quantity i)) quantityDenom,
          tr_quantity_denom = quantityDenom\<rparr>)"

definition generateTradingSplits ::
    "(string \<times> imbalance) list \<Rightarrow> (string \<times> string) list \<Rightarrow> trading_split list" where
  "generateTradingSplits imbalances tradingAccountGuids =
     concat (map (\<lambda>(g, i). case map_of tradingAccountGuids g of
         None \<Rightarrow> [] | Some account \<Rightarrow> if account = [] then [] else [trading_split_of account i]) imbalances)"

text \<open>\<open>BigInt\<close> of a number throws unless the number is an integer.\<close>

definition bigint_of :: "js_number \<Rightarrow> trade_error + int" where
  "bigint_of x = (case x of
      JFin q \<Rightarrow> if q = of_int \<lfloor>q\<rfloor> then Inr \<lfloor>q\<rfloor> else Inl NotAnInteger
    | _ \<Rightarrow> Inl NotAnInteger)"

fun value_denominators :: "int \<Rightarrow> (js_number \<times> js_number) list \<Rightarrow> trade_error + int" where
  "value_denominators common [] = Inr common"
| "value_denominators common ((n, d) # ss) =
     bind_result (bigint_of d) (\<lambda>d'.
       if d' = 0 then Inl ZeroValueDenominator
       else value_denominators ((common sdiv bgcd common d') * d') ss)"

fun value_total :: "int \<Rightarrow> int \<Rightarrow> (js_number \<times> js_number) list \<Rightarrow> trade_error + int" where
  "value_total common acc [] = Inr acc"
| "value_total common acc ((n, d) # ss) =
     bind_result (bigint_of n) (\<lambda>n'. bind_result (bigint_of d) (\<lambda>d'.
       value_total common (acc + n' * (common sdiv d')) ss))"

definition assertValueBalanced :: "(js_number \<times> js_number) list \<Rightarrow> trade_error + unit" where
  "assertValueBalanced ss =
     (if ss = [] then Inr ()
      else bind_result (value_denominators 1 ss) (\<lambda>common.
        bind_result (value_total common 0 ss) (\<lambda>sum.
          if sum \<noteq> 0 then Inl (SplitsUnbalanced sum common) else Inr ())))"

section \<open>The Trading account of a commodity\<close>

record trading_state = walk_state +
  book_accounts :: "string set"

text \<open>\<open>findFirst\<close> with \<open>orderBy guid asc\<close>.\<close>

definition compare_guids :: "account_row \<Rightarrow> account_row \<Rightarrow> int" where
  "compare_guids a b = (if acc_guid a < acc_guid b then -1 else if acc_guid a = acc_guid b then 0 else 1)"

definition findFirst :: "(account_row \<Rightarrow> bool) \<Rightarrow> account_row list \<Rightarrow> account_row option" where
  "findFirst P rs = (case stable_sort compare_guids (filter P rs) of [] \<Rightarrow> None | r # _ \<Rightarrow> Some r)"

definition trading_row :: "string \<Rightarrow> string \<Rightarrow> string \<Rightarrow> string \<Rightarrow> int \<Rightarrow> account_row" where
  "trading_row guid name commodity parent placeholder_flag =
     \<lparr>acc_guid = guid, acc_name = name, account_type = ''TRADING'', commodity_guid = commodity,
      commodity_scu = 100, parent_guid = parent, non_std_scu = 0, hidden = 0,
      placeholder = placeholder_flag, acc_code = '''', acc_description = ''''\<rparr>"

text \<open>The claim of a level's key and the second look-up when it locked.\<close>

definition claimLevel ::
    "raw_client \<Rightarrow> walk_env \<Rightarrow> nat \<Rightarrow> string \<Rightarrow> string \<Rightarrow> lock_order \<Rightarrow> (account_row \<Rightarrow> bool) \<Rightarrow> trading_state
      \<Rightarrow> (trade_error + account_row option) \<times> trading_state" where
  "claimLevel tx env i parent name ord again st =
     (case acquireAccountNameLock tx (claims st) parent name ord None (scope st) of
       (Inl e, sc) \<Rightarrow> (Inl (LockProblem e), st\<lparr>scope := sc\<rparr>)
     | (Inr locked, sc) \<Rightarrow>
         let rs = admit (scope st) (rows st) (arrive_wait env i);
             st' = st\<lparr>rows := rs, scope := sc, claims := Suc (claims st)\<rparr>
         in (Inr (if locked then findFirst again rs else None), st'))"

definition createLevel ::
    "walk_env \<Rightarrow> string \<Rightarrow> string \<Rightarrow> string \<Rightarrow> int \<Rightarrow> trading_state \<Rightarrow> account_row \<times> trading_state" where
  "createLevel env parent name commodity placeholder_flag st =
     (let guid = newGuids env (guids_used st); r = trading_row guid name commodity parent placeholder_flag
      in (r, st\<lparr>rows := rows st @ [r], scope := (scope st)\<lparr>inserted := insert guid (inserted (scope st))\<rparr>,
            guids_used := Suc (guids_used st), book_accounts := insert guid (book_accounts st)\<rparr>))"

text \<open>One level: look up, else claim and look again, else insert.\<close>

definition ensureLevel ::
    "raw_client \<Rightarrow> walk_env \<Rightarrow> nat \<Rightarrow> string \<Rightarrow> string \<Rightarrow> lock_order \<Rightarrow> (string set \<Rightarrow> account_row \<Rightarrow> bool)
      \<Rightarrow> (account_row \<Rightarrow> bool) \<Rightarrow> string \<Rightarrow> int \<Rightarrow> trading_state \<Rightarrow> (trade_error + account_row) \<times> trading_state" where
  "ensureLevel tx env i parent name ord first again commodity placeholder_flag st =
     (let st1 = st\<lparr>rows := admit (scope st) (rows st) (arrive env i)\<rparr>
      in case findFirst (first (book_accounts st1)) (rows st1) of
        Some r \<Rightarrow> (Inr r, st1)
      | None \<Rightarrow>
          (case claimLevel tx env i parent name ord again st1 of
            (Inl e, st2) \<Rightarrow> (Inl e, st2)
          | (Inr (Some r), st2) \<Rightarrow> (Inr r, st2)
          | (Inr None, st2) \<Rightarrow>
              (case createLevel env parent name commodity placeholder_flag st2 of (r, st3) \<Rightarrow> (Inr r, st3))))"

definition is_root :: "string set \<Rightarrow> account_row \<Rightarrow> bool" where
  "is_root guids r \<longleftrightarrow> account_type r = ''ROOT'' \<and> acc_guid r \<in> guids"

definition is_trading_root :: "string set \<Rightarrow> account_row \<Rightarrow> bool" where
  "is_trading_root guids r \<longleftrightarrow> acc_name r = ''Trading'' \<and> account_type r = ''TRADING'' \<and> acc_guid r \<in> guids"

definition is_trading_child :: "string \<Rightarrow> account_row \<Rightarrow> bool" where
  "is_trading_child parent r \<longleftrightarrow> acc_name r = ''Trading'' \<and> account_type r = ''TRADING'' \<and> parent_guid r = parent"

text \<open>
  \<open>template\<close> is the commodity the source asks the database for (US dollars, else any
  currency); \<open>k\<close> numbers the calls, so that every look-up has its own arrivals.
\<close>

definition getOrCreateTradingAccountWithin ::
    "raw_client \<Rightarrow> walk_env \<Rightarrow> nat \<Rightarrow> string option \<Rightarrow> string \<Rightarrow> string \<Rightarrow> string \<Rightarrow> trading_state
      \<Rightarrow> (trade_error + string) \<times> trading_state" where
  "getOrCreateTradingAccountWithin db env k template commodityGuid mnemonic namespace st =
     (if book_accounts st = {} then (Inl EmptyBookScope, st)
      else case findFirst (is_root (book_accounts st)) (rows st) of
        None \<Rightarrow> (Inl NoRootAccount, st)
      | Some anchor \<Rightarrow>
         (case ensureLevel db env (3 * k) (acc_guid anchor) TRADING_ROOT_NAME
              (tradingAccountLockOrder (acc_guid anchor) namespace mnemonic 1) is_trading_root
              (is_trading_child (acc_guid anchor)) (case template of Some c \<Rightarrow> c | None \<Rightarrow> commodityGuid) 1 st of
            (Inl e, st1) \<Rightarrow> (Inl e, st1)
          | (Inr tradingRoot, st1) \<Rightarrow>
             (case ensureLevel db env (3 * k + 1) (acc_guid tradingRoot) namespace
                  (tradingAccountLockOrder (acc_guid anchor) namespace mnemonic 2)
                  (\<lambda>_. sibling (acc_guid tradingRoot) namespace) (sibling (acc_guid tradingRoot) namespace)
                  (commodity_guid tradingRoot) 1 st1 of
                (Inl e, st2) \<Rightarrow> (Inl e, st2)
              | (Inr namespaceGroup, st2) \<Rightarrow>
                 (case ensureLevel db env (3 * k + 2) (acc_guid namespaceGroup) mnemonic
                      (tradingAccountLockOrder (acc_guid anchor) namespace mnemonic 3)
                      (\<lambda>_. sibling (acc_guid namespaceGroup) mnemonic) (sibling (acc_guid namespaceGroup) mnemonic)
                      commodityGuid 0 st2 of
                    (Inl e, st3) \<Rightarrow> (Inl e, st3)
                  | (Inr leaf, st3) \<Rightarrow> (Inr (acc_guid leaf), st3)))))"

section \<open>The splits of a save\<close>

record commodity_info =
  ci_mnemonic :: string
  ci_namespace :: string
  ci_fraction :: int

definition or_default :: "string \<Rightarrow> string \<Rightarrow> string" where
  "or_default s d = (if s = [] then d else s)"

definition filled :: "trade_split \<Rightarrow> trade_split" where
  "filled s = s\<lparr>ts_quantity_num := Some (case ts_quantity_num s of Some n \<Rightarrow> n | None \<Rightarrow> ts_value_num s),
     ts_quantity_denom := Some (case ts_quantity_denom s of Some d \<Rightarrow> d | None \<Rightarrow> ts_value_denom s)\<rparr>"

definition with_commodity ::
    "account_row list \<Rightarrow> (string \<Rightarrow> commodity_info option) \<Rightarrow> trade_split \<Rightarrow> split_with_commodity" where
  "with_commodity accounts commodities s =
     (let account = find (\<lambda>a. acc_guid a = ts_account s) accounts;
          info = (case account of None \<Rightarrow> None | Some a \<Rightarrow> commodities (commodity_guid a));
          quantityNum = the (ts_quantity_num (filled s)); quantityDenom = the (ts_quantity_denom (filled s))
      in \<lparr>sc_account = ts_account s,
          sc_commodity = (case account of None \<Rightarrow> [] | Some a \<Rightarrow> commodity_guid a),
          sc_mnemonic = (case info of None \<Rightarrow> [] | Some c \<Rightarrow> ci_mnemonic c),
          sc_namespace = or_default (case info of None \<Rightarrow> [] | Some c \<Rightarrow> ci_namespace c) ''CURRENCY'',
          sc_fraction = (case info of None \<Rightarrow> 100 | Some c \<Rightarrow> if ci_fraction c = 0 then 100 else ci_fraction c),
          sc_value = js_div (ts_value_num s) (ts_value_denom s),
          sc_quantity = js_div quantityNum quantityDenom\<rparr>)"

definition trading_entry :: "trading_split \<Rightarrow> trade_split" where
  "trading_entry t = \<lparr>ts_guid = None, ts_account = tr_account t, ts_value_num = tr_value_num t,
     ts_value_denom = tr_value_denom t, ts_quantity_num = Some (tr_quantity_num t),
     ts_quantity_denom = Some (tr_quantity_denom t), ts_memo = Some ''Trading split'',
     ts_action = Some '''', ts_state = Some ''n''\<rparr>"

definition imbalance_order :: "string \<times> imbalance \<Rightarrow> lock_order" where
  "imbalance_order gi = \<lparr>book_root = [], path = [TRADING_ROOT_NAME, im_namespace (snd gi), im_mnemonic (snd gi)]\<rparr>"

fun ensure_accounts ::
    "raw_client \<Rightarrow> walk_env \<Rightarrow> nat \<Rightarrow> string option \<Rightarrow> (string \<times> imbalance) list \<Rightarrow> trading_state
      \<Rightarrow> (trade_error + (string \<times> string) list) \<times> trading_state" where
  "ensure_accounts tx env k template [] st = (Inr [], st)"
| "ensure_accounts tx env k template ((g, i) # rest) st =
     (case getOrCreateTradingAccountWithin tx env k template g (im_mnemonic i) (im_namespace i) st of
        (Inl e, st1) \<Rightarrow> (Inl e, st1)
      | (Inr guid, st1) \<Rightarrow>
          (case ensure_accounts tx env (Suc k) template rest st1 of
             (Inl e, st2) \<Rightarrow> (Inl e, st2)
           | (Inr guids, st2) \<Rightarrow> (Inr ((g, guid) # guids), st2)))"

definition processMultiCurrencySplits ::
    "raw_client \<Rightarrow> walk_env \<Rightarrow> (string \<Rightarrow> commodity_info option) \<Rightarrow> string option \<Rightarrow> trade_split list
      \<Rightarrow> trading_state \<Rightarrow> (trade_error + bool \<times> trade_split list) \<times> trading_state" where
  "processMultiCurrencySplits tx env commodities template ss st =
     (let scs = map (with_commodity (rows st) commodities) ss
      in if \<not> needsTradingAccounts scs then (Inr (False, map filled ss), st)
      else let imbalances = calculateImbalances scs
      in case ensure_accounts tx env 0 template (sortByLockOrder imbalance_order imbalances) st of
           (Inl e, st1) \<Rightarrow> (Inl e, st1)
         | (Inr guids, st1) \<Rightarrow>
             let allSplits = map filled ss @ map trading_entry (generateTradingSplits imbalances guids)
             in (bind_result (assertValueBalanced (map (\<lambda>s. (ts_value_num s, ts_value_denom s)) allSplits))
                   (\<lambda>_. Inr (True, allSplits)), st1))"

section \<open>The post-condition is exact\<close>

definition exact_number :: "js_number \<Rightarrow> int option" where
  "exact_number x = (case x of JFin q \<Rightarrow> if q = of_int \<lfloor>q\<rfloor> then Some \<lfloor>q\<rfloor> else None | _ \<Rightarrow> None)"

fun value_sum :: "(js_number \<times> js_number) list \<Rightarrow> rat option" where
  "value_sum [] = Some 0"
| "value_sum ((n, d) # ss) = (case (exact_number n, exact_number d, value_sum ss) of
      (Some n', Some d', Some v) \<Rightarrow> if d' = 0 then None else Some (of_int n' / of_int d' + v)
    | _ \<Rightarrow> None)"

lemma bigint_of_Inr [simp]: "bigint_of x = Inr i \<longleftrightarrow> exact_number x = Some i"
  by (auto simp: bigint_of_def exact_number_def split: js_number.splits)

lemma common_step:
  fixes c d :: int
  assumes "c \<noteq> 0" "d \<noteq> 0"
  shows "(c sdiv gcd c d) * d \<noteq> 0" "c dvd (c sdiv gcd c d) * d" "d dvd (c sdiv gcd c d) * d"
proof -
  have g: "gcd c d \<noteq> 0" "gcd c d dvd c" "gcd c d dvd d" using assms by simp_all
  have e: "(c sdiv gcd c d) * gcd c d = c" by (rule sdiv_dvd_mult [OF g(2,1)])
  then show "(c sdiv gcd c d) * d \<noteq> 0" using assms by auto
  obtain k where k: "d = gcd c d * k" using g(3) by blast
  have "(c sdiv gcd c d) * d = (c sdiv gcd c d) * gcd c d * k" using k by (metis mult.assoc)
  then show "c dvd (c sdiv gcd c d) * d" unfolding e by simp
qed simp

definition denoms_divide :: "int \<Rightarrow> (js_number \<times> js_number) list \<Rightarrow> bool" where
  "denoms_divide L ss \<longleftrightarrow> list_all (\<lambda>(n, d). \<exists>d'. exact_number d = Some d' \<and> d' \<noteq> 0 \<and> d' dvd L) ss"

lemma value_denominators_Inr:
  "value_denominators c ss = Inr L \<Longrightarrow> c \<noteq> 0 \<Longrightarrow> L \<noteq> 0 \<and> c dvd L \<and> denoms_divide L ss"
proof (induction c ss rule: value_denominators.induct)
  case (1 c)
  then show ?case by (simp add: denoms_divide_def)
next
  case (2 c n d ss)
  obtain d' where d: "exact_number d = Some d'" "d' \<noteq> 0"
      "value_denominators ((c sdiv gcd c d') * d') ss = Inr L"
    using "2.prems"(1) by (auto simp: bind_result_Inr_iff split: if_splits)
  note step = common_step [OF "2.prems"(2) d(2)]
  have "L \<noteq> 0 \<and> (c sdiv gcd c d') * d' dvd L \<and> denoms_divide L ss"
    using "2.IH" [of d'] d step(1) by simp
  then show ?case using step d(1,2) by (auto simp: denoms_divide_def intro: dvd_trans)
qed

lemma value_denominators_total:
  "value_sum ss \<noteq> None \<Longrightarrow> \<exists>L. value_denominators c ss = Inr L"
  by (induction c ss rule: value_denominators.induct)
    (fastforce simp: bind_result_Inr_iff split: option.splits if_splits)+

lemma value_total_Inr:
  assumes "L \<noteq> 0" "denoms_divide L ss"
  shows "value_total L acc ss = Inr t \<longleftrightarrow> (\<exists>v. value_sum ss = Some v \<and> of_int t = of_int acc + of_int L * v)"
  using assms(2)
proof (induction ss arbitrary: acc)
  case (Cons s ss)
  obtain n d where s: "s = (n, d)" by fastforce
  with Cons.prems obtain d' where d: "exact_number d = Some d'" "d' \<noteq> 0" "d' dvd L" and ss: "denoms_divide L ss"
    by (auto simp: denoms_divide_def)
  show ?case
  proof (cases "exact_number n")
    case None
    then show ?thesis by (auto simp: s bind_result_Inr_iff)
  next
    case (Some n')
    have "(of_int (L sdiv d') :: rat) = of_int L / of_int d'" using d by (simp add: sdiv_dvd of_int_div)
    then have "(of_int (acc + n' * (L sdiv d')) :: rat) = of_int acc + of_int L * (of_int n' / of_int d')" by simp
    with Some d Cons.IH [OF ss, of "acc + n' * (L sdiv d')"] show ?thesis
      by (auto simp: s bind_result_Inr_iff algebra_simps split: option.splits)
  qed
qed auto

lemma value_sum_bigints:
  "denoms_divide L ss \<Longrightarrow> value_total L acc ss = Inr t \<Longrightarrow> value_sum ss \<noteq> None"
  by (induction ss arbitrary: acc) (auto simp: bind_result_Inr_iff denoms_divide_def split: option.splits)

lemma assertValueBalanced_iff: "assertValueBalanced ss = Inr () \<longleftrightarrow> value_sum ss = Some 0"
proof (cases "ss = []")
  case False
  show ?thesis
  proof (cases "value_denominators 1 ss")
    case (Inl e)
    then have "value_sum ss = None" using value_denominators_total [of ss 1] by (cases "value_sum ss") auto
    then show ?thesis using Inl False by (simp add: assertValueBalanced_def)
  next
    case (Inr L)
    then have L: "L \<noteq> 0" "denoms_divide L ss" using value_denominators_Inr [OF Inr] by simp_all
    have "assertValueBalanced ss = Inr () \<longleftrightarrow> value_total L 0 ss = Inr 0"
      using False Inr by (auto simp: assertValueBalanced_def bind_result_Inr_iff)
    also have "\<dots> \<longleftrightarrow> value_sum ss = Some 0" using value_total_Inr [OF L, of 0 0] L(1) by auto
    finally show ?thesis .
  qed
qed (simp add: assertValueBalanced_def)

lemma value_sum_append:
  "value_sum (as @ bs) = (case (value_sum as, value_sum bs) of (Some a, Some b) \<Rightarrow> Some (a + b) | _ \<Rightarrow> None)"
  by (induction as rule: value_sum.induct) (auto split: option.splits)

text \<open>
  C27. The two balance gates of the save path agree: on splits whose numbers are safe integers,
  the check before the write (\<open>assertBalanced\<close>) and the one after the trading splits were added
  (\<open>assertValueBalanced\<close>) accept the same lists.
\<close>
theorem balance_gates_agree:
  assumes "\<forall>(n, d) \<in> set ps. is_safe_integer n \<and> is_safe_integer d"
  shows "assertValueBalanced ps = Inr () \<longleftrightarrow>
    assertBalanced (map (\<lambda>(n, d). \<lparr>value_num = JNum n, value_denom = JNum d\<rparr>) ps) = Inr ()"
proof -
  have "exact_int (JNum x) = exact_number x" if "is_safe_integer x" for x
    using that by (cases x) (auto simp: exact_int_def exact_number_def is_safe_integer_def)
  then have "ledger_sum (map (\<lambda>(n, d). \<lparr>value_num = JNum n, value_denom = JNum d\<rparr>) ps) = value_sum ps"
    using assms by (induction ps rule: value_sum.induct) (auto simp: split_value_def split: option.splits)
  then show ?thesis by (simp add: assertValueBalanced_iff assertBalanced_Inr_iff)
qed

section \<open>What the imbalances hold\<close>

definition accumulate :: "imbalance \<Rightarrow> split_with_commodity list \<Rightarrow> imbalance" where
  "accumulate i ss = i\<lparr>im_quantity := foldl js_add (im_quantity i) (map sc_quantity ss),
     im_value := foldl js_add (im_value i) (map sc_value ss)\<rparr>"

definition part :: "string \<Rightarrow> split_with_commodity list \<Rightarrow> split_with_commodity list" where
  "part g ss = filter (\<lambda>s. sc_commodity s = g) ss"

lemma part_simps [simp]:
  "part g [] = []" "part g (s # ss) = (if sc_commodity s = g then s # part g ss else part g ss)"
  by (simp_all add: part_def)

lemma add_split_get:
  "map_of (add_split s m) g = (if g = sc_commodity s
     then Some (accumulate (case map_of m g of Some i \<Rightarrow> i | None \<Rightarrow> no_imbalance s) [s]) else map_of m g)"
  by (simp add: add_split_def Let_def map_of_assoc_set accumulate_def)

lemma accumulate_Cons: "accumulate (accumulate i [s]) ss = accumulate i (s # ss)"
  by (simp add: accumulate_def)

lemma accumulate_Nil [simp]: "accumulate i [] = i"
  by (simp add: accumulate_def)

lemma fold_add_split:
  "map_of (fold add_split ss m) g =
     (case map_of m g of
        Some i \<Rightarrow> Some (accumulate i (part g ss))
      | None \<Rightarrow> (case part g ss of [] \<Rightarrow> None | s # _ \<Rightarrow> Some (accumulate (no_imbalance s) (part g ss))))"
proof (induction ss arbitrary: m)
  case Nil
  then show ?case by (simp split: option.split)
next
  case (Cons s ss)
  show ?case
    using Cons.IH [of "add_split s m"] by (auto simp: add_split_get accumulate_Cons split: option.splits list.splits)
qed

lemma distinct_fold_add: "distinct (map fst m) \<Longrightarrow> distinct (map fst (fold add_split ss m))"
  by (induction ss arbitrary: m) (simp_all add: add_split_def Let_def distinct_assoc_set)

definition tally :: "split_with_commodity list \<Rightarrow> (string \<times> imbalance) list" where
  "tally ss = fold add_split ss []"

lemma tally_distinct: "distinct (map fst (tally ss))"
  by (simp add: tally_def distinct_fold_add)

lemma tally_mem:
  "(g, i) \<in> set (tally ss) \<longleftrightarrow> (\<exists>s rest. part g ss = s # rest \<and> i = accumulate (no_imbalance s) (part g ss))"
proof -
  have "(g, i) \<in> set (tally ss) \<longleftrightarrow> map_of (tally ss) g = Some i"
    using tally_distinct [of ss] by (metis map_of_SomeD map_of_eq_Some_iff)
  also have "\<dots> \<longleftrightarrow> (\<exists>s rest. part g ss = s # rest \<and> i = accumulate (no_imbalance s) (part g ss))"
    by (auto simp: tally_def fold_add_split split: list.splits)
  finally show ?thesis .
qed

lemma tally_keys: "set (map fst (tally ss)) = sc_commodity ` set ss"
proof (rule set_eqI)
  fix g
  have "g \<in> set (map fst (tally ss)) \<longleftrightarrow> (\<exists>i. (g, i) \<in> set (tally ss))" by (force simp: image_iff)
  also have "\<dots> \<longleftrightarrow> part g ss \<noteq> []" unfolding tally_mem by (cases "part g ss") auto
  also have "\<dots> \<longleftrightarrow> g \<in> sc_commodity ` set ss" by (auto simp: part_def filter_empty_conv)
  finally show "g \<in> set (map fst (tally ss)) \<longleftrightarrow> g \<in> sc_commodity ` set ss" .
qed

lemma calculateImbalances_tally: "calculateImbalances ss = filter (\<lambda>(_, i). material i) (tally ss)"
  by (simp add: calculateImbalances_def tally_def)

section \<open>Exact saves\<close>

text \<open>
  The saves the rounding is exact for: at most 1,024 splits, values in whole cents, quantities
  in whole units of their commodity, in total at most 2^38 of each.
\<close>

definition cents :: "trade_split \<Rightarrow> int" where
  "cents s = the (exact_number (ts_value_num s))"

definition units :: "trade_split \<Rightarrow> int" where
  "units s = the (exact_number (the (ts_quantity_num (filled s))))"

definition exact_split :: "(trade_split \<Rightarrow> split_with_commodity) \<Rightarrow> trade_split \<Rightarrow> bool" where
  "exact_split wc s \<longleftrightarrow> exact_number (ts_value_num s) \<noteq> None \<and> ts_value_denom s = JFin 100 \<and>
     exact_number (the (ts_quantity_num (filled s))) \<noteq> None \<and>
     the (ts_quantity_denom (filled s)) = JFin (of_int (sc_fraction (wc s))) \<and>
     0 < sc_fraction (wc s) \<and> sc_fraction (wc s) \<le> 2 ^ 38 \<and> sc_commodity (wc s) \<noteq> []"

definition exact_save :: "(trade_split \<Rightarrow> split_with_commodity) \<Rightarrow> trade_split list \<Rightarrow> bool" where
  "exact_save wc ss \<longleftrightarrow> length ss \<le> 1024 \<and> list_all (exact_split wc) ss \<and>
     sum_list (map (\<lambda>s. \<bar>cents s\<bar>) ss) \<le> 2 ^ 38 \<and> sum_list (map (\<lambda>s. \<bar>units s\<bar>) ss) \<le> 2 ^ 38"

definition in_commodity :: "(trade_split \<Rightarrow> split_with_commodity) \<Rightarrow> string \<Rightarrow> trade_split list \<Rightarrow> trade_split list" where
  "in_commodity wc g ss = filter (\<lambda>s. sc_commodity (wc s) = g) ss"

lemma exact_number_eq: "exact_number x = Some n \<Longrightarrow> x = JFin (of_int n)"
  by (auto simp: exact_number_def split: js_number.splits if_splits)

lemma exact_number_int [simp]: "exact_number (JFin (of_int n)) = Some n"
  by (simp add: exact_number_def)

lemma exact_number_numeral [simp]: "exact_number (JFin (numeral n)) = Some (numeral n)" "exact_number (JFin 0) = Some 0"
  using exact_number_int [of "numeral n"] exact_number_int [of 0] by simp_all

lemma exact_split_eqs:
  assumes "exact_split wc s"
  shows "ts_value_num s = JFin (of_int (cents s))" "the (ts_quantity_num (filled s)) = JFin (of_int (units s))"
  using assms exact_number_eq by (auto simp: exact_split_def cents_def units_def)

definition fraction_of :: "(string \<Rightarrow> commodity_info option) \<Rightarrow> string \<Rightarrow> int" where
  "fraction_of commodities g =
     (case commodities g of None \<Rightarrow> 100 | Some c \<Rightarrow> if ci_fraction c = 0 then 100 else ci_fraction c)"

lemma with_commodity_simps [simp]:
  "sc_value (with_commodity accounts commodities s) = js_div (ts_value_num s) (ts_value_denom s)"
  "sc_quantity (with_commodity accounts commodities s) =
     js_div (the (ts_quantity_num (filled s))) (the (ts_quantity_denom (filled s)))"
  by (simp_all add: with_commodity_def Let_def)

lemma with_commodity_fraction:
  "sc_commodity (with_commodity accounts commodities s) \<noteq> [] \<Longrightarrow>
     sc_fraction (with_commodity accounts commodities s) =
     fraction_of commodities (sc_commodity (with_commodity accounts commodities s))"
  by (auto simp: with_commodity_def Let_def fraction_of_def split: option.splits)

lemma part_map: "part g (map wc ss) = map wc (in_commodity wc g ss)"
  by (simp add: part_def in_commodity_def filter_map comp_def)

lemma sum_abs_filter: "sum_list (map (\<lambda>s. \<bar>f s\<bar>) (filter P ss)) \<le> sum_list (map (\<lambda>s. \<bar>f s\<bar>) ss)"
  for f :: "'a \<Rightarrow> int"
  by (induction ss) auto

lemma exact_save_part:
  assumes "exact_save wc ss"
  shows "length (in_commodity wc g ss) \<le> 1024" "list_all (exact_split wc) (in_commodity wc g ss)"
    "sum_list (map abs (map cents (in_commodity wc g ss))) \<le> 2 ^ 38"
    "sum_list (map abs (map units (in_commodity wc g ss))) \<le> 2 ^ 38"
proof -
  show "length (in_commodity wc g ss) \<le> 1024"
    using assms le_trans [OF length_filter_le, of ss 1024] by (simp add: exact_save_def in_commodity_def)
  show "list_all (exact_split wc) (in_commodity wc g ss)"
    using assms by (auto simp: exact_save_def in_commodity_def list_all_iff)
  show "sum_list (map abs (map cents (in_commodity wc g ss))) \<le> 2 ^ 38"
    using assms sum_abs_filter [of cents "\<lambda>s. sc_commodity (wc s) = g" ss]
    by (simp add: exact_save_def in_commodity_def comp_def)
  show "sum_list (map abs (map units (in_commodity wc g ss))) \<le> 2 ^ 38"
    using assms sum_abs_filter [of units "\<lambda>s. sc_commodity (wc s) = g" ss]
    by (simp add: exact_save_def in_commodity_def comp_def)
qed

lemma part_values:
  assumes "list_all (exact_split wc) ss" "\<And>s. sc_value (wc s) = js_div (ts_value_num s) (ts_value_denom s)"
  shows "map (sc_value \<circ> wc) ss = quotients 100 (map cents ss)"
  using assms(1)
proof (induction ss)
  case (Cons s ss)
  then have "ts_value_denom s = JFin 100" by (simp add: exact_split_def)
  then show ?case using Cons exact_split_eqs(1) [of wc s] by (simp add: quotients_def assms(2))
qed (simp add: quotients_def)

lemma part_quantities:
  assumes "list_all (\<lambda>s. exact_split wc s \<and> sc_fraction (wc s) = f) ss"
    and "\<And>s. sc_quantity (wc s) = js_div (the (ts_quantity_num (filled s))) (the (ts_quantity_denom (filled s)))"
  shows "map (sc_quantity \<circ> wc) ss = quotients f (map units ss)"
  using assms(1)
proof (induction ss)
  case (Cons s ss)
  then have "the (ts_quantity_denom (filled s)) = JFin (of_int f)" by (auto simp: exact_split_def)
  then show ?case using Cons exact_split_eqs(2) [of wc s] by (simp add: quotients_def assms(2))
qed (simp add: quotients_def)

lemma tally_entry:
  assumes exact: "exact_save wc ss" and wc_def: "wc = with_commodity accounts commodities"
    and mem: "(g, i) \<in> set (tally (map wc ss))"
  shows "im_value i = foldl js_add (JFin 0) (quotients 100 (map cents (in_commodity wc g ss)))"
    "im_quantity i = foldl js_add (JFin 0) (quotients (fraction_of commodities g) (map units (in_commodity wc g ss)))"
    "im_fraction i = fraction_of commodities g" "0 < fraction_of commodities g" "fraction_of commodities g \<le> 2 ^ 38"
    "g \<noteq> []"
proof -
  obtain s rest where p: "part g (map wc ss) = s # rest" "i = accumulate (no_imbalance s) (part g (map wc ss))"
    using mem unfolding tally_mem by blast
  have ok: "list_all (\<lambda>s. exact_split wc s \<and> sc_commodity (wc s) = g) (in_commodity wc g ss)"
    using exact by (auto simp: exact_save_def in_commodity_def list_all_iff)
  have frac: "list_all (\<lambda>s. exact_split wc s \<and> sc_fraction (wc s) = fraction_of commodities g) (in_commodity wc g ss)"
    using ok with_commodity_fraction unfolding wc_def by (auto simp: list_all_iff exact_split_def)
  obtain t where t: "t \<in> set (in_commodity wc g ss)" "s = wc t"
    using p(1) unfolding part_map by (metis list.set_intros(1) imageE list.set_map)
  then have tx: "exact_split wc t" "sc_commodity (wc t) = g" "sc_fraction (wc t) = fraction_of commodities g"
    using ok frac by (auto simp: list_all_iff)
  then show "0 < fraction_of commodities g" "fraction_of commodities g \<le> 2 ^ 38" "g \<noteq> []"
    by (auto simp: exact_split_def)
  show "im_value i = foldl js_add (JFin 0) (quotients 100 (map cents (in_commodity wc g ss)))"
    using part_values [OF exact_save_part(2) [OF exact, of g]]
    by (simp add: p(2) accumulate_def no_imbalance_def part_map wc_def)
  show "im_quantity i = foldl js_add (JFin 0) (quotients (fraction_of commodities g) (map units (in_commodity wc g ss)))"
    using part_quantities [OF frac] by (simp add: p(2) accumulate_def no_imbalance_def part_map wc_def)
  show "im_fraction i = fraction_of commodities g" using tx(3) t(2) by (simp add: p(2) accumulate_def no_imbalance_def)
qed

lemma trading_split_exact:
  assumes exact: "exact_save wc ss" and wc_def: "wc = with_commodity accounts commodities"
    and mem: "(g, i) \<in> set (tally (map wc ss))"
  shows "trading_split_of account i =
    \<lparr>tr_account = account, tr_value_num = JFin (of_int (- sum_list (map cents (in_commodity wc g ss)))),
      tr_value_denom = JFin 100,
      tr_quantity_num = JFin (of_int (- sum_list (map units (in_commodity wc g ss)))),
      tr_quantity_denom = JFin (of_int (fraction_of commodities g))\<rparr>"
proof -
  note e = tally_entry [OF assms] and b = exact_save_part [OF exact, of g]
  have v: "js_round (js_mul (js_neg (im_value i)) (JFin 100)) = JFin (of_int (- sum_list (map cents (in_commodity wc g ss))))"
    unfolding e(1) using float_sum_round(2) [of "map cents (in_commodity wc g ss)" 100] b by simp
  have q: "js_round (js_mul (js_neg (im_quantity i)) (JFin (of_int (fraction_of commodities g))))
      = JFin (of_int (- sum_list (map units (in_commodity wc g ss))))"
    unfolding e(2) using float_sum_round(2) [of "map units (in_commodity wc g ss)" "fraction_of commodities g"] b e(4,5) by simp
  have z: "(if js_eq x (JFin 0) then JFin 0 else x) = x" for x by (simp add: js_eq_def)
  show ?thesis
    using e(3,4) by (simp add: trading_split_of_def roundToInt_def VALUE_DENOM_def Let_def v q z del: of_int_minus js_mul.simps js_round.simps)
qed

lemma epsilon_bound: "\<exists>e. QUANTITY_EPSILON = JFin e \<and> e \<le> 2 / 10000"
proof -
  obtain e where e: "fl (1 / 10000) = JFin e" "\<bar>e - 1 / 10000\<bar> \<le> ulp_half * \<bar>1 / 10000\<bar> + tiny"
    using fl_error [OF in_range, of "1 / 10000"] by auto
  have "ulp_half * \<bar>1 / 10000\<bar> \<le> 1 / 100000" "tiny \<le> 1 / 100000" using roundoff_bounds by simp_all
  then have "e \<le> 2 / 10000" using e(2) by linarith
  then show ?thesis using e(1) by (simp add: QUANTITY_EPSILON_def)
qed

text \<open>A commodity is dropped only when its value is zero and its quantity at most the noise limit.\<close>

lemma dropped_small:
  assumes exact: "exact_save wc ss" and wc_def: "wc = with_commodity accounts commodities"
    and mem: "(g, i) \<in> set (tally (map wc ss))" and drop: "\<not> material i"
  shows "sum_list (map cents (in_commodity wc g ss)) = 0"
    "10000 * \<bar>sum_list (map units (in_commodity wc g ss))\<bar> < 2 * fraction_of commodities g + 2501"
proof -
  note e = tally_entry [OF exact wc_def mem] and b = exact_save_part [OF exact, of g]
  let ?f = "fraction_of commodities g" and ?n = "sum_list (map units (in_commodity wc g ss))"
  have "js_round (js_mul (im_value i) (JFin 100)) = JFin 0" using drop by (simp add: material_def VALUE_DENOM_def)
  then show "sum_list (map cents (in_commodity wc g ss)) = 0"
    unfolding e(1) using float_sum_round(1) [of "map cents (in_commodity wc g ss)" 100] b by simp
  obtain y where y: "im_quantity i = JFin y" "\<bar>y * of_int ?f - of_int ?n\<bar> \<le> 1 / 4"
    using float_sum_scaled [of "map units (in_commodity wc g ss)" ?f] b e by auto
  obtain eps where eps: "QUANTITY_EPSILON = JFin eps" "eps \<le> 2 / 10000" using epsilon_bound by blast
  have "\<not> js_ge (js_abs (JFin y)) (JFin eps)" using drop y(1) eps(1) by (simp add: material_def)
  then have "\<bar>y\<bar> < eps" by (auto simp: js_ge_def js_eq_def)
  then have "\<bar>y\<bar> \<le> 2 / 10000" using eps(2) by linarith
  then have "\<bar>y\<bar> * of_int ?f \<le> 2 / 10000 * of_int ?f" using e(4) by (intro mult_right_mono) auto
  then have "\<bar>y * of_int ?f\<bar> \<le> 2 / 10000 * of_int ?f" using e(4) by (simp add: abs_mult)
  then have "\<bar>of_int ?n\<bar> * 10000 < (of_int (2 * ?f + 2501) :: rat)" using y(2) by (simp, linarith)
  then show "10000 * \<bar>?n\<bar> < 2 * ?f + 2501"
    by (metis (no_types, lifting) mult.commute of_int_abs of_int_less_iff of_int_mult of_int_numeral)
qed

section \<open>One level of the walk\<close>

lemma findFirst_cong: "filter P rs = filter Q qs \<Longrightarrow> findFirst P rs = findFirst Q qs"
  by (simp add: findFirst_def)

lemma findFirst_SomeD: "findFirst P rs = Some r \<Longrightarrow> r \<in> set rs \<and> P r"
proof -
  assume "findFirst P rs = Some r"
  then have "r \<in> set (stable_sort compare_guids (filter P rs))"
    by (cases "stable_sort compare_guids (filter P rs)") (simp_all add: findFirst_def)
  then show "r \<in> set rs \<and> P r" by simp
qed

lemma findFirst_None: "findFirst P rs = None \<longleftrightarrow> (\<forall>r \<in> set rs. \<not> P r)"
proof -
  have "findFirst P rs = None \<longleftrightarrow> set (stable_sort compare_guids (filter P rs)) = {}"
    by (cases "stable_sort compare_guids (filter P rs)") (simp_all add: findFirst_def)
  then show ?thesis by (auto simp: filter_empty_conv)
qed

lemma findFirst_append: "\<forall>r \<in> set new. \<not> P r \<Longrightarrow> findFirst P (rs @ new) = findFirst P rs"
  by (rule findFirst_cong) (simp add: filter_empty_conv)

definition row_key :: "account_row \<Rightarrow> string" where
  "row_key r = accountNameLockKey (parent_guid r) (acc_name r)"

lemma admit_new:
  "\<exists>new. admit sc rs qs = rs @ new \<and> set new \<subseteq> set qs \<and>
     (\<forall>r \<in> set new. acc_name r = '''' \<or> \<not> holds_key sc (row_key r))"
proof (induction qs arbitrary: rs)
  case (Cons q qs)
  let ?rs = "if admissible sc rs q then rs @ [q] else rs"
  from Cons.IH [of ?rs] obtain new where "admit sc ?rs qs = ?rs @ new" "set new \<subseteq> set qs"
    "\<forall>r \<in> set new. acc_name r = '''' \<or> \<not> holds_key sc (row_key r)" by blast
  then show ?case
    by (intro exI [of _ "(if admissible sc rs q then [q] else []) @ new"])
      (auto simp: admissible_def row_key_def)
qed simp

definition granted :: "string \<Rightarrow> lock_order \<Rightarrow> lock_scope \<Rightarrow> bool" where
  "granted k ord sc \<longleftrightarrow> holds_key sc k \<or>
     (\<forall>h \<in> set (held sc). \<exists>o'. order h = Some o' \<and> compareLockOrder o' ord \<le> 0)"

lemma claim_granted:
  assumes "granted (accountNameLockKey p n) ord sc" "path ord \<noteq> []" "last (path ord) = n"
  shows "acquireAccountNameLock (Transaction True) i p n ord None sc =
    (Inr True, push_held \<lparr>ident = i, key = accountNameLockKey p n, order = Some ord\<rparr> sc)"
proof (cases "holds_key sc (accountNameLockKey p n)")
  case True
  then show ?thesis using assms(2,3)
    by (simp add: acquireAccountNameLock_def startOrderedClaim_def Let_def settleClaim_def
        acquireAccountKeyLockUnchecked_def)
next
  case False
  then show ?thesis using acquire_granted [of "\<lparr>claim_parent = p, claim_name = n, claim_order = ord\<rparr>" sc i] assms
    by (simp add: claim_ok_def granted_def)
qed

definition arrivals :: "walk_env \<Rightarrow> account_row set" where
  "arrivals env = (\<Union>i. set (arrive env i) \<union> set (arrive_wait env i))"

text \<open>
  What is known of a save in progress: its root account, that no row another transaction
  commits is in the caller's set, and that generated guids are fresh.
\<close>

definition trade_ok :: "walk_env \<Rightarrow> account_row \<Rightarrow> trading_state \<Rightarrow> bool" where
  "trade_ok env anchor st \<longleftrightarrow>
     findFirst (is_root (book_accounts st)) (rows st) = Some anchor \<and>
     (\<forall>r \<in> arrivals env. acc_guid r \<noteq> '''' \<and> acc_guid r \<notin> book_accounts st \<and> acc_guid r \<notin> range (newGuids env)) \<and>
     inj (newGuids env) \<and> (\<forall>n. newGuids env n \<noteq> '''') \<and> (\<forall>r \<in> set (rows st). acc_guid r \<noteq> '''') \<and>
     (\<forall>n \<ge> guids_used st. newGuids env n \<notin> book_accounts st \<and> newGuids env n \<notin> acc_guid ` set (rows st))"

text \<open>How a level extends the state: rows of others that came in, then at most one of its own.\<close>

definition extends :: "walk_env \<Rightarrow> string \<Rightarrow> trading_state \<Rightarrow> trading_state \<Rightarrow> bool" where
  "extends env name st st' \<longleftrightarrow> (\<exists>new. set new \<subseteq> arrivals env \<and>
     (\<forall>r \<in> set new. acc_name r = '''' \<or> \<not> holds_key (scope st) (row_key r)) \<and>
     ((rows st' = rows st @ new \<and> book_accounts st' = book_accounts st \<and> guids_used st' = guids_used st) \<or>
      (\<exists>c p ph. rows st' = rows st @ new @ [trading_row (newGuids env (guids_used st)) name c p ph] \<and>
         book_accounts st' = insert (newGuids env (guids_used st)) (book_accounts st) \<and>
         guids_used st' = Suc (guids_used st))))"

lemma filter_fresh:
  assumes "g \<notin> acc_guid ` set rs" "\<And>B r. P B r \<longleftrightarrow> Q r \<and> acc_guid r \<in> B"
  shows "filter (P (insert g B)) rs = filter (P B) rs"
  using assms by (intro filter_cong) auto

lemma arrival_fresh:
  "trade_ok env anchor st \<Longrightarrow> r \<in> arrivals env \<Longrightarrow>
     acc_guid r \<noteq> '''' \<and> acc_guid r \<notin> book_accounts st \<and> acc_guid r \<noteq> newGuids env n"
  unfolding trade_ok_def by (metis rangeI)

lemma find_scoped_extends:
  assumes ok: "trade_ok env anchor st" and ext: "extends env name st st'"
    and P: "\<And>B r. P B r \<longleftrightarrow> Q r \<and> acc_guid r \<in> B" and own: "\<And>g c p ph. \<not> Q (trading_row g name c p ph)"
  shows "findFirst (P (book_accounts st')) (rows st') = findFirst (P (book_accounts st)) (rows st)"
proof -
  obtain new where new: "set new \<subseteq> arrivals env"
    and cases: "(rows st' = rows st @ new \<and> book_accounts st' = book_accounts st) \<or>
      (\<exists>c p ph. rows st' = rows st @ new @ [trading_row (newGuids env (guids_used st)) name c p ph] \<and>
         book_accounts st' = insert (newGuids env (guids_used st)) (book_accounts st))"
    using ext unfolding extends_def by blast
  let ?g = "newGuids env (guids_used st)"
  have out: "\<not> P B r" if "r \<in> set new" "B \<subseteq> insert ?g (book_accounts st)" for B r
  proof -
    have "acc_guid r \<notin> book_accounts st" "acc_guid r \<noteq> ?g" using arrival_fresh [OF ok, of r] that(1) new by auto
    then show ?thesis using that(2) P by auto
  qed
  show ?thesis using cases
  proof (elim disjE exE)
    assume "rows st' = rows st @ new \<and> book_accounts st' = book_accounts st"
    moreover have "findFirst (P (book_accounts st)) (rows st @ new) = findFirst (P (book_accounts st)) (rows st)"
      by (rule findFirst_append) (use out in blast)
    ultimately show ?thesis by simp
  next
    fix c p ph
    assume r: "rows st' = rows st @ new @ [trading_row ?g name c p ph] \<and> book_accounts st' = insert ?g (book_accounts st)"
    have "findFirst (P (book_accounts st')) (rows st') = findFirst (P (insert ?g (book_accounts st))) (rows st)"
    proof -
      have "\<forall>x \<in> set (new @ [trading_row ?g name c p ph]). \<not> P (insert ?g (book_accounts st)) x"
        using out P own by (auto simp: subset_insertI)
      from findFirst_append [OF this, of "rows st"] r show ?thesis by simp
    qed
    also have "\<dots> = findFirst (P (book_accounts st)) (rows st)"
      using ok filter_fresh [of ?g "rows st" P Q, OF _ P] by (intro findFirst_cong) (simp add: trade_ok_def)
    finally show ?thesis .
  qed
qed

lemma trade_ok_extends:
  assumes ok: "trade_ok env anchor st" and ext: "extends env name st st'"
  shows "trade_ok env anchor st'"
proof -
  have "findFirst (is_root (book_accounts st')) (rows st') = findFirst (is_root (book_accounts st)) (rows st)"
    by (rule find_scoped_extends [OF ok ext, where Q = "\<lambda>r. account_type r = ''ROOT''"])
      (auto simp: is_root_def trading_row_def)
  then have root: "findFirst (is_root (book_accounts st')) (rows st') = Some anchor" using ok by (simp add: trade_ok_def)
  obtain new where new: "set new \<subseteq> arrivals env"
    and cases: "(rows st' = rows st @ new \<and> book_accounts st' = book_accounts st \<and> guids_used st' = guids_used st) \<or>
      (\<exists>c p ph. rows st' = rows st @ new @ [trading_row (newGuids env (guids_used st)) name c p ph] \<and>
         book_accounts st' = insert (newGuids env (guids_used st)) (book_accounts st) \<and>
         guids_used st' = Suc (guids_used st))"
    using ext unfolding extends_def by blast
  have guids: "acc_guid ` set (rows st') \<subseteq> acc_guid ` set (rows st) \<union> acc_guid ` set new \<union> {newGuids env (guids_used st)}"
    and books: "book_accounts st' \<subseteq> insert (newGuids env (guids_used st)) (book_accounts st)"
    and used: "guids_used st \<le> guids_used st'"
    and new_used: "newGuids env (guids_used st) \<in> acc_guid ` set (rows st') \<union> book_accounts st' \<longrightarrow> guids_used st < guids_used st'
      \<or> newGuids env (guids_used st) \<in> acc_guid ` set (rows st) \<union> acc_guid ` set new \<union> book_accounts st"
    using cases by (auto simp: trading_row_def)
  have inj: "newGuids env n = newGuids env m \<longleftrightarrow> n = m" for n m using ok by (simp add: trade_ok_def inj_eq)
  have fresh: "newGuids env n \<notin> acc_guid ` set new" for n
    using arrival_fresh [OF ok] new by (metis imageE subsetD)
  have old: "newGuids env n \<notin> book_accounts st \<and> newGuids env n \<notin> acc_guid ` set (rows st)" if "guids_used st \<le> n" for n
    using ok that by (simp add: trade_ok_def)
  have later: "newGuids env n \<notin> book_accounts st' \<and> newGuids env n \<notin> acc_guid ` set (rows st')" if "guids_used st' \<le> n" for n
  proof (cases "n = guids_used st")
    case True
    then show ?thesis using that new_used old [of n] fresh [of n] by auto
  next
    case False
    then show ?thesis using that used guids books old [of n] fresh [of n] by (auto simp: inj)
  qed
  have present: "acc_guid r \<noteq> ''''" if "r \<in> set (rows st')" for r
  proof -
    from subsetD [OF guids imageI [OF that]] show ?thesis
    proof (elim UnE)
      assume "acc_guid r \<in> acc_guid ` set (rows st)"
      then obtain r' where "acc_guid r = acc_guid r'" "r' \<in> set (rows st)" by (rule imageE)
      then show ?thesis using ok by (simp add: trade_ok_def)
    next
      assume "acc_guid r \<in> acc_guid ` set new"
      then obtain r' where "acc_guid r = acc_guid r'" "r' \<in> set new" by (rule imageE)
      then show ?thesis using arrival_fresh [OF ok subsetD [OF new]] by metis
    next
      assume "acc_guid r \<in> {newGuids env (guids_used st)}"
      then show ?thesis using ok by (simp add: trade_ok_def)
    qed
  qed
  have arr: "\<forall>r \<in> arrivals env. acc_guid r \<noteq> '''' \<and> acc_guid r \<notin> book_accounts st' \<and> acc_guid r \<notin> range (newGuids env)"
  proof
    fix r
    assume "r \<in> arrivals env"
    from arrival_fresh [OF ok this] books show "acc_guid r \<noteq> '''' \<and> acc_guid r \<notin> book_accounts st' \<and> acc_guid r \<notin> range (newGuids env)"
      by blast
  qed
  from root arr later present ok show ?thesis by (simp add: trade_ok_def)
qed

lemma admit_arrivals:
  assumes "set qs \<subseteq> arrivals env"
  obtains new where "admit sc rs qs = rs @ new" "set new \<subseteq> arrivals env"
    "\<forall>r \<in> set new. acc_name r = '''' \<or> \<not> holds_key sc (row_key r)"
  using admit_new [of sc rs qs] assms by blast

lemma arrive_arrivals: "set (arrive env i) \<subseteq> arrivals env" "set (arrive_wait env i) \<subseteq> arrivals env"
  by (auto simp: arrivals_def)

text \<open>
  A level whose claim is granted returns an account: one it found, one it adopted after the
  claim, or the one it made.
\<close>

lemma ensureLevel_ok:
  assumes grant: "granted (accountNameLockKey parent name) ord (scope st)"
    and ord: "path ord \<noteq> []" "last (path ord) = name"
  obtains (found) r st' new where
    "ensureLevel (Transaction True) env i parent name ord first again com ph st = (Inr r, st')"
    "rows st' = rows st @ new" "set new \<subseteq> arrivals env"
    "\<forall>r \<in> set new. acc_name r = '''' \<or> \<not> holds_key (scope st) (row_key r)"
    "book_accounts st' = book_accounts st" "guids_used st' = guids_used st" "scope st' = scope st"
    "findFirst (first (book_accounts st)) (rows st') = Some r"
  | (claimed) st1 new h where
    "rows st1 = rows st @ new" "set new \<subseteq> arrivals env"
    "\<forall>r \<in> set new. acc_name r = '''' \<or> \<not> holds_key (scope st) (row_key r)"
    "book_accounts st1 = book_accounts st" "guids_used st1 = guids_used st"
    "scope st1 = push_held h (scope st)" "key h = accountNameLockKey parent name" "order h = Some ord"
    "\<exists>old. rows st1 = rows st @ old @ drop (length (rows st) + length old) (rows st1) \<and>
       findFirst (first (book_accounts st)) (rows st @ old) = None"
    "ensureLevel (Transaction True) env i parent name ord first again com ph st =
      (case findFirst again (rows st1) of Some r \<Rightarrow> (Inr r, st1)
       | None \<Rightarrow> (case createLevel env parent name com ph st1 of (r, st2) \<Rightarrow> (Inr r, st2)))"
proof -
  obtain new1 where new1: "admit (scope st) (rows st) (arrive env i) = rows st @ new1" "set new1 \<subseteq> arrivals env"
    "\<forall>r \<in> set new1. acc_name r = '''' \<or> \<not> holds_key (scope st) (row_key r)"
    by (rule admit_arrivals [OF arrive_arrivals(1)])
  obtain new2 where new2: "admit (scope st) (rows st @ new1) (arrive_wait env i) = (rows st @ new1) @ new2"
    "set new2 \<subseteq> arrivals env" "\<forall>r \<in> set new2. acc_name r = '''' \<or> \<not> holds_key (scope st) (row_key r)"
    by (rule admit_arrivals [OF arrive_arrivals(2)])
  let ?st = "st\<lparr>rows := rows st @ new1\<rparr>"
  show thesis
  proof (cases "findFirst (first (book_accounts st)) (rows st @ new1)")
    case (Some r)
    show thesis
      by (rule found [of r ?st new1]) (use new1 Some in \<open>simp_all add: ensureLevel_def Let_def\<close>)
  next
    case None
    let ?h = "\<lparr>ident = claims st, key = accountNameLockKey parent name, order = Some ord\<rparr>"
    let ?st1 = "st\<lparr>rows := rows st @ new1 @ new2, scope := push_held ?h (scope st), claims := Suc (claims st)\<rparr>"
    have claim: "claimLevel (Transaction True) env i parent name ord again ?st = (Inr (findFirst again (rows ?st1)), ?st1)"
      using new2 claim_granted [OF grant ord] by (simp add: claimLevel_def Let_def)
    show thesis
    proof (rule claimed [of ?st1 "new1 @ new2" ?h])
      show "\<exists>old. rows ?st1 = rows st @ old @ drop (length (rows st) + length old) (rows ?st1) \<and>
          findFirst (first (book_accounts st)) (rows st @ old) = None"
        using None by (intro exI [of _ new1]) simp
      show "ensureLevel (Transaction True) env i parent name ord first again com ph st =
        (case findFirst again (rows ?st1) of Some r \<Rightarrow> (Inr r, ?st1)
         | None \<Rightarrow> (case createLevel env parent name com ph ?st1 of (r, st2) \<Rightarrow> (Inr r, st2)))"
        using None new1(1) claim by (simp add: ensureLevel_def Let_def split: option.splits)
    qed (use new1 new2 in auto)
  qed
qed

text \<open>What every level leaves behind.\<close>

lemma ensureLevel_result:
  assumes "granted (accountNameLockKey parent name) ord (scope st)" "path ord \<noteq> []" "last (path ord) = name"
  obtains r st' where
    "ensureLevel (Transaction True) env i parent name ord first again com ph st = (Inr r, st')"
    "extends env name st st'" "r \<in> set (rows st')"
    "first (book_accounts st) r \<or> again r \<or> (\<exists>g. r = trading_row g name com parent ph)"
    "held (scope st') = held (scope st) \<or>
      (\<exists>h. held (scope st') = held (scope st) @ [h] \<and> key h = accountNameLockKey parent name \<and> order h = Some ord)"
    "findFirst (first (book_accounts st)) (rows st) \<noteq> None \<and> (\<forall>r. first (book_accounts st) r \<longrightarrow> r \<notin> arrivals env)
      \<longrightarrow> Some r = findFirst (first (book_accounts st)) (rows st) \<and> held (scope st') = held (scope st)"
proof (cases rule: ensureLevel_ok [OF assms, of env i first again com ph, case_names found claimed])
  case (found r st' new)
  have "findFirst (first (book_accounts st)) (rows st') = findFirst (first (book_accounts st)) (rows st)"
    if "\<forall>r. first (book_accounts st) r \<longrightarrow> r \<notin> arrivals env"
    using found(2,3) that by (auto intro: findFirst_append)
  then show ?thesis using found findFirst_SomeD [OF found(8)]
    by (intro that [of r st']) (auto simp: extends_def)
next
  case (claimed st1 new h)
  have none: "findFirst (first (book_accounts st)) (rows st) = None"
    using claimed(9) unfolding findFirst_None by auto
  show ?thesis
  proof (cases "findFirst again (rows st1)")
    case (Some r)
    then show ?thesis using claimed none findFirst_SomeD [OF Some]
      by (intro that [of r st1]) (auto simp: extends_def)
  next
    case None
    obtain r st2 where c: "createLevel env parent name com ph st1 = (r, st2)" by fastforce
    then have r: "r = trading_row (newGuids env (guids_used st1)) name com parent ph" "rows st2 = rows st1 @ [r]"
      "book_accounts st2 = insert (newGuids env (guids_used st1)) (book_accounts st1)"
      "guids_used st2 = Suc (guids_used st1)" "held (scope st2) = held (scope st1)"
      by (auto simp: createLevel_def Let_def)
    have "extends env name st st2"
      unfolding extends_def using claimed(2,3) r claimed(1,4,5) by (intro exI [of _ new]) auto
    then show ?thesis using None c claimed none r
      by (intro that [of r st2]) auto
  qed
qed

section \<open>The Trading root\<close>

definition trading_key :: "account_row \<Rightarrow> string" where
  "trading_key anchor = accountNameLockKey (acc_guid anchor) ''Trading''"

text \<open>The save works with \<open>tr\<close>: it is in its scope, or was adopted under the key it holds.\<close>

definition root_known :: "account_row \<Rightarrow> trading_state \<Rightarrow> account_row \<Rightarrow> bool" where
  "root_known anchor st tr \<longleftrightarrow>
     findFirst (is_trading_root (book_accounts st)) (rows st) = Some tr \<or>
     (findFirst (is_trading_root (book_accounts st)) (rows st) = None \<and> holds_key (scope st) (trading_key anchor) \<and>
      findFirst (is_trading_child (acc_guid anchor)) (rows st) = Some tr)"

lemma arrivals_no_root:
  "trade_ok env anchor st \<Longrightarrow> set new \<subseteq> arrivals env \<Longrightarrow> r \<in> set new \<Longrightarrow> \<not> is_trading_root (book_accounts st) r"
  by (auto simp: trade_ok_def is_trading_root_def)

lemma unheld_no_child:
  assumes "\<forall>r \<in> set new. acc_name r = '''' \<or> \<not> holds_key sc (row_key r)" "holds_key sc (trading_key anchor)"
  shows "\<forall>r \<in> set new. \<not> is_trading_child (acc_guid anchor) r"
  using assms by (auto simp: is_trading_child_def row_key_def trading_key_def)

lemma root_known_extends:
  assumes ok: "trade_ok env anchor st" and ext: "extends env name st st'" and name: "name \<noteq> ''Trading''"
    and known: "root_known anchor st tr" and keep: "set (held (scope st)) \<subseteq> set (held (scope st'))"
  shows "root_known anchor st' tr"
proof -
  have same: "findFirst (is_trading_root (book_accounts st')) (rows st') = findFirst (is_trading_root (book_accounts st)) (rows st)"
    by (rule find_scoped_extends [OF ok ext, where Q = "\<lambda>r. acc_name r = ''Trading'' \<and> account_type r = ''TRADING''"])
      (use name in \<open>auto simp: is_trading_root_def trading_row_def\<close>)
  show ?thesis
  proof (cases "findFirst (is_trading_root (book_accounts st)) (rows st) = Some tr")
    case True
    then show ?thesis by (simp add: root_known_def same)
  next
    case False
    then have k: "findFirst (is_trading_root (book_accounts st)) (rows st) = None"
      "holds_key (scope st) (trading_key anchor)" "findFirst (is_trading_child (acc_guid anchor)) (rows st) = Some tr"
      using known by (auto simp: root_known_def)
    obtain new own where e: "rows st' = rows st @ new @ own"
      "\<forall>r \<in> set new. acc_name r = '''' \<or> \<not> holds_key (scope st) (row_key r)"
      "own = [] \<or> (\<exists>g c p ph. own = [trading_row g name c p ph])"
      using ext unfolding extends_def by (metis append_Nil2)
    have "\<forall>r \<in> set (new @ own). \<not> is_trading_child (acc_guid anchor) r"
      using unheld_no_child [OF e(2) k(2)] e(3) name by (auto simp: is_trading_child_def trading_row_def)
    from findFirst_append [OF this, of "rows st"] have "findFirst (is_trading_child (acc_guid anchor)) (rows st') = Some tr"
      using k(3) e(1) by simp
    moreover have "holds_key (scope st') (trading_key anchor)" using k(2) keep by (auto simp: holds_key_iff)
    moreover have "findFirst (is_trading_root (book_accounts st')) (rows st') = None" using k(1) same by simp
    ultimately show ?thesis by (simp add: root_known_def)
  qed
qed

lemma trading_root_level:
  assumes ok: "trade_ok env anchor st" and start: "held (scope st) = [] \<or> root_known anchor st tr0"
    and ord: "ord = \<lparr>book_root = acc_guid anchor, path = [''Trading'']\<rparr>"
  obtains tr st' where
    "ensureLevel (Transaction True) env i (acc_guid anchor) ''Trading'' ord is_trading_root
       (is_trading_child (acc_guid anchor)) com ph st = (Inr tr, st')"
    "extends env ''Trading'' st st'" "root_known anchor st' tr" "tr \<in> set (rows st')"
    "root_known anchor st tr0 \<Longrightarrow> tr = tr0"
    "held (scope st') = held (scope st) \<or> (\<exists>h. held (scope st') = held (scope st) @ [h] \<and> order h = Some ord)"
proof -
  let ?K = "accountNameLockKey (acc_guid anchor) ''Trading''"
  have old: "findFirst (is_trading_root (book_accounts st)) (rows st @ new) = findFirst (is_trading_root (book_accounts st)) (rows st)"
    if "set new \<subseteq> arrivals env" for new
    using arrivals_no_root [OF ok that] by (auto intro: findFirst_append)
  have in_scope: "findFirst (is_trading_root (book_accounts st)) (rows st) = Some tr0" if "root_known anchor st tr0" "\<not> holds_key (scope st) ?K"
    using that by (auto simp: root_known_def trading_key_def)
  show thesis
  proof (cases "granted ?K ord (scope st)")
    case False
    then have "held (scope st) \<noteq> []" "\<not> holds_key (scope st) ?K" by (auto simp: granted_def)
    then have tr: "findFirst (is_trading_root (book_accounts st)) (rows st) = Some tr0" using start in_scope by blast
    obtain new where new: "admit (scope st) (rows st) (arrive env i) = rows st @ new" "set new \<subseteq> arrivals env"
      "\<forall>r \<in> set new. acc_name r = '''' \<or> \<not> holds_key (scope st) (row_key r)"
      by (rule admit_arrivals [OF arrive_arrivals(1)])
    have found: "findFirst (is_trading_root (book_accounts st)) (rows st @ new) = Some tr0" using old [OF new(2)] tr by simp
    show thesis
      by (rule that [of tr0 "st\<lparr>rows := rows st @ new\<rparr>"])
        (use new found findFirst_SomeD [OF found] in \<open>auto simp: ensureLevel_def Let_def extends_def root_known_def\<close>)
  next
    case grant: True
    have last: "path ord \<noteq> []" "last (path ord) = ''Trading''" by (simp_all add: ord)
    show thesis
    proof (cases rule: ensureLevel_ok [OF grant last, of env i is_trading_root "is_trading_child (acc_guid anchor)" com ph,
          case_names found claimed])
      case (found r st' new)
      have "findFirst (is_trading_root (book_accounts st)) (rows st) = Some r" using found(2,3,8) old by simp
      then have "root_known anchor st tr0 \<Longrightarrow> r = tr0" by (auto simp: root_known_def)
      then show ?thesis using found findFirst_SomeD [OF found(8)]
        by (intro that [of r st']) (auto simp: extends_def root_known_def)
    next
      case (claimed st1 new h)
      have none: "findFirst (is_trading_root (book_accounts st)) (rows st) = None"
        using claimed(9) unfolding findFirst_None by auto
      then have none1: "findFirst (is_trading_root (book_accounts st1)) (rows st1) = None"
        using claimed(1,2,4) old by simp
      have holds: "holds_key (scope st1) (trading_key anchor)" using claimed(6,7) by (simp add: holds_key_iff trading_key_def)
      have known: "findFirst (is_trading_child (acc_guid anchor)) (rows st1) = Some tr0" if k: "root_known anchor st tr0"
      proof -
        have "holds_key (scope st) (trading_key anchor)" "findFirst (is_trading_child (acc_guid anchor)) (rows st) = Some tr0"
          using k none by (auto simp: root_known_def)
        with findFirst_append [OF unheld_no_child [OF claimed(3)], of anchor "rows st"] claimed(1) show ?thesis by simp
      qed
      show ?thesis
      proof (cases "findFirst (is_trading_child (acc_guid anchor)) (rows st1)")
        case (Some r)
        then show ?thesis using claimed none1 holds known findFirst_SomeD [OF Some]
          by (intro that [of r st1]) (auto simp: extends_def root_known_def)
      next
        case None
        let ?g = "newGuids env (guids_used st)"
        obtain r st2 where c: "createLevel env (acc_guid anchor) ''Trading'' com ph st1 = (r, st2)" by fastforce
        then have r: "r = trading_row ?g ''Trading'' com (acc_guid anchor) ph" "rows st2 = rows st1 @ [r]"
          "book_accounts st2 = insert ?g (book_accounts st)" "guids_used st2 = Suc (guids_used st)"
          "held (scope st2) = held (scope st1)"
          using claimed(4,5) by (auto simp: createLevel_def Let_def)
        have ext: "extends env ''Trading'' st st2"
          unfolding extends_def using claimed(1,2,3) r by (intro exI [of _ new]) auto
        have fresh: "?g \<notin> acc_guid ` set (rows st1)"
        proof -
          have "?g \<notin> acc_guid ` set (rows st)" using ok by (simp add: trade_ok_def)
          moreover have "?g \<notin> acc_guid ` set new" using arrival_fresh [OF ok subsetD [OF claimed(2)]] by (metis imageE)
          ultimately show ?thesis using claimed(1) by auto
        qed
        have "filter (is_trading_root (insert ?g (book_accounts st))) (rows st1) = filter (is_trading_root (book_accounts st)) (rows st1)"
          by (rule filter_fresh [OF fresh, where Q = "\<lambda>r. acc_name r = ''Trading'' \<and> account_type r = ''TRADING''"])
            (auto simp: is_trading_root_def)
        also have "\<dots> = []" using none1 claimed(4) by (simp add: findFirst_None filter_empty_conv)
        finally have "filter (is_trading_root (book_accounts st2)) (rows st2) = [r]"
          using r(2,3) by (simp add: r(1) is_trading_root_def trading_row_def)
        then have "findFirst (is_trading_root (book_accounts st2)) (rows st2) = Some r"
          by (simp add: findFirst_def stable_sort_def)
        moreover have "root_known anchor st tr0 \<Longrightarrow> r = tr0" using known None by simp
        ultimately show ?thesis using None c claimed ext r(2,5)
          by (intro that [of r st2]) (auto simp: root_known_def)
      qed
    qed
  qed
qed

section \<open>No level is refused\<close>

lemma ensureLevel_present:
  assumes "r0 \<in> set (rows st)" "first (book_accounts st) r0"
  obtains r st' where "ensureLevel tx env i parent name ord first again com ph st = (Inr r, st')"
    "extends env name st st'" "scope st' = scope st" "r \<in> set (rows st')" "first (book_accounts st) r"
proof -
  obtain new where new: "admit (scope st) (rows st) (arrive env i) = rows st @ new" "set new \<subseteq> arrivals env"
    "\<forall>r \<in> set new. acc_name r = '''' \<or> \<not> holds_key (scope st) (row_key r)"
    by (rule admit_arrivals [OF arrive_arrivals(1)])
  have "findFirst (first (book_accounts st)) (rows st @ new) \<noteq> None"
    unfolding findFirst_None using assms by auto
  then obtain r where r: "findFirst (first (book_accounts st)) (rows st @ new) = Some r" by blast
  show thesis
    by (rule that [of r "st\<lparr>rows := rows st @ new\<rparr>"])
      (use new r findFirst_SomeD [OF r] in \<open>auto simp: ensureLevel_def Let_def extends_def\<close>)
qed

lemma extends_rows: "extends env name st st' \<Longrightarrow> set (rows st) \<subseteq> set (rows st')"
  by (auto simp: extends_def)

text \<open>The positions claimed so far: the root, and namespaces in \<open>N\<close> with their leaves, none past \<open>b\<close>.\<close>

definition claimed_before :: "account_row \<Rightarrow> string set \<Rightarrow> string list \<Rightarrow> trading_state \<Rightarrow> bool" where
  "claimed_before anchor N b st \<longleftrightarrow> (\<forall>h \<in> set (held (scope st)). \<exists>xs.
     order h = Some \<lparr>book_root = acc_guid anchor, path = ''Trading'' # xs\<rparr> \<and> (xs = [] \<or> hd xs \<in> N) \<and> ''Trading'' # xs \<le> b)"

lemma claimed_before_mono:
  "claimed_before anchor N b st \<Longrightarrow> N \<subseteq> N' \<Longrightarrow> b \<le> b' \<Longrightarrow> claimed_before anchor N' b' st"
  unfolding claimed_before_def by (meson order_trans subsetD)

lemma claimed_before_step:
  assumes "claimed_before anchor N b st" "xs = [] \<or> hd xs \<in> N" "''Trading'' # xs \<le> b"
    and "held (scope st') = held (scope st) \<or> (\<exists>h. held (scope st') = held (scope st) @ [h] \<and>
      order h = Some \<lparr>book_root = acc_guid anchor, path = ''Trading'' # xs\<rparr>)"
  shows "claimed_before anchor N b st'"
  using assms unfolding claimed_before_def by fastforce

lemma claimed_granted:
  assumes "claimed_before anchor N b st" "\<And>ys. ys = [] \<or> hd ys \<in> N \<Longrightarrow> ''Trading'' # ys \<le> b \<Longrightarrow> ys \<le> xs"
  shows "granted k \<lparr>book_root = acc_guid anchor, path = ''Trading'' # xs\<rparr> (scope st)"
  using assms unfolding granted_def claimed_before_def by (fastforce simp: compareLockOrder_le)

definition groups_exist :: "account_row \<Rightarrow> string set \<Rightarrow> trading_state \<Rightarrow> bool" where
  "groups_exist tr N st \<longleftrightarrow> (\<forall>n \<in> N. \<exists>r \<in> set (rows st). sibling (acc_guid tr) n r)"

lemma groups_exist_extends: "groups_exist tr N st \<Longrightarrow> extends env name st st' \<Longrightarrow> groups_exist tr N st'"
  unfolding groups_exist_def using extends_rows by blast

lemma sibling_trading_row [simp]: "sibling p n (trading_row g n c p ph)"
  by (simp add: sibling_def trading_row_def)

lemma namespace_level:
  assumes ok: "trade_ok env anchor st" and known: "root_known anchor st tr" and ns: "ns \<noteq> ''Trading''"
    and before: "claimed_before anchor N [''Trading'', ns, m] st" and groups: "groups_exist tr N st"
  obtains r st' where
    "ensureLevel (Transaction True) env i (acc_guid tr) ns \<lparr>book_root = acc_guid anchor, path = [''Trading'', ns]\<rparr>
       (\<lambda>_. sibling (acc_guid tr) ns) (sibling (acc_guid tr) ns) com ph st = (Inr r, st')"
    "trade_ok env anchor st'" "root_known anchor st' tr"
    "claimed_before anchor (insert ns N) [''Trading'', ns, m] st'" "groups_exist tr (insert ns N) st'"
proof (cases "ns \<in> N")
  case True
  then obtain r0 where r0: "r0 \<in> set (rows st)" "sibling (acc_guid tr) ns r0" using groups by (auto simp: groups_exist_def)
  obtain r st' where e: "ensureLevel (Transaction True) env i (acc_guid tr) ns
      \<lparr>book_root = acc_guid anchor, path = [''Trading'', ns]\<rparr>
       (\<lambda>_. sibling (acc_guid tr) ns) (sibling (acc_guid tr) ns) com ph st = (Inr r, st')"
    "extends env ns st st'" "scope st' = scope st"
    by (rule ensureLevel_present [OF r0(1), of "\<lambda>_. sibling (acc_guid tr) ns", OF r0(2)])
  show ?thesis
    by (rule that [OF e(1)])
      (use True e trade_ok_extends [OF ok e(2)] root_known_extends [OF ok e(2) ns known] before
        groups_exist_extends [OF groups e(2)] in \<open>auto simp: insert_absorb claimed_before_def\<close>)
next
  case False
  have "ys \<le> [ns]" if "ys = [] \<or> hd ys \<in> N" "''Trading'' # ys \<le> [''Trading'', ns, m]" for ys
    using that False by (cases ys) auto
  from claimed_granted [OF before this]
  have grant: "granted (accountNameLockKey (acc_guid tr) ns) \<lparr>book_root = acc_guid anchor, path = [''Trading'', ns]\<rparr> (scope st)"
    by simp
  obtain r st' where e: "ensureLevel (Transaction True) env i (acc_guid tr) ns
      \<lparr>book_root = acc_guid anchor, path = [''Trading'', ns]\<rparr>
       (\<lambda>_. sibling (acc_guid tr) ns) (sibling (acc_guid tr) ns) com ph st = (Inr r, st')"
    "extends env ns st st'" "r \<in> set (rows st')" "sibling (acc_guid tr) ns r"
    "held (scope st') = held (scope st) \<or>
      (\<exists>h. held (scope st') = held (scope st) @ [h] \<and> order h = Some \<lparr>book_root = acc_guid anchor, path = [''Trading'', ns]\<rparr>)"
    by (rule ensureLevel_result [OF grant, of env i "\<lambda>_. sibling (acc_guid tr) ns" "sibling (acc_guid tr) ns" com ph])
      (simp, simp, blast intro: sibling_trading_row)
  have keep: "set (held (scope st)) \<subseteq> set (held (scope st'))" using e(5) by auto
  have "claimed_before anchor (insert ns N) [''Trading'', ns, m] st"
    using claimed_before_mono [OF before] by blast
  from claimed_before_step [OF this, of "[ns]"] e(5)
  have "claimed_before anchor (insert ns N) [''Trading'', ns, m] st'" by auto
  moreover have "groups_exist tr (insert ns N) st'"
    using groups_exist_extends [OF groups e(2)] e(3,4) by (auto simp: groups_exist_def)
  ultimately show ?thesis
    using that [OF e(1) trade_ok_extends [OF ok e(2)] root_known_extends [OF ok e(2) ns known keep]] by blast
qed

lemma leaf_level:
  assumes ok: "trade_ok env anchor st" and known: "root_known anchor st tr" and m: "m \<noteq> ''Trading''"
    and before: "claimed_before anchor N [''Trading'', ns, m] st" and groups: "groups_exist tr N st" and ns: "ns \<in> N"
  obtains r st' where
    "ensureLevel (Transaction True) env i parent m \<lparr>book_root = acc_guid anchor, path = [''Trading'', ns, m]\<rparr>
       (\<lambda>_. sibling parent m) (sibling parent m) com ph st = (Inr r, st')"
    "trade_ok env anchor st'" "root_known anchor st' tr"
    "claimed_before anchor N [''Trading'', ns, m] st'" "groups_exist tr N st'" "acc_guid r \<noteq> ''''"
proof -
  have grant: "granted (accountNameLockKey parent m) \<lparr>book_root = acc_guid anchor, path = [''Trading'', ns, m]\<rparr> (scope st)"
    by (rule claimed_granted [OF before]) simp
  obtain r st' where e: "ensureLevel (Transaction True) env i parent m
      \<lparr>book_root = acc_guid anchor, path = [''Trading'', ns, m]\<rparr> (\<lambda>_. sibling parent m) (sibling parent m) com ph st = (Inr r, st')"
    "extends env m st st'" "r \<in> set (rows st')"
    "held (scope st') = held (scope st) \<or>
      (\<exists>h. held (scope st') = held (scope st) @ [h] \<and> order h = Some \<lparr>book_root = acc_guid anchor, path = [''Trading'', ns, m]\<rparr>)"
    by (rule ensureLevel_result [OF grant, of env i "\<lambda>_. sibling parent m" "sibling parent m" com ph])
      (simp, simp, blast)
  have keep: "set (held (scope st)) \<subseteq> set (held (scope st'))" using e(4) by auto
  have "claimed_before anchor N [''Trading'', ns, m] st'"
    using claimed_before_step [OF before, of "[ns, m]" st'] ns e(4) by simp
  moreover have ok': "trade_ok env anchor st'" by (rule trade_ok_extends [OF ok e(2)])
  moreover have "acc_guid r \<noteq> ''''" using ok' e(3) by (simp add: trade_ok_def)
  ultimately show ?thesis
    using that [OF e(1) _ root_known_extends [OF ok e(2) m known keep] _ groups_exist_extends [OF groups e(2)]] by blast
qed

text \<open>The state between two commodities.\<close>

definition between :: "walk_env \<Rightarrow> account_row \<Rightarrow> string list \<Rightarrow> trading_state \<Rightarrow> bool" where
  "between env anchor b st \<longleftrightarrow> trade_ok env anchor st \<and>
     (held (scope st) = [] \<or> (\<exists>tr N. root_known anchor st tr \<and> claimed_before anchor N b st \<and> groups_exist tr N st))"

lemma within_not_refused:
  assumes st: "between env anchor b st" and le: "b \<le> [''Trading'', ns, m]" and names: "ns \<noteq> ''Trading''" "m \<noteq> ''Trading''"
  obtains guid st' where
    "getOrCreateTradingAccountWithin (Transaction True) env k template com m ns st = (Inr guid, st')"
    "guid \<noteq> ''''" "between env anchor [''Trading'', ns, m] st'"
proof -
  have ok: "trade_ok env anchor st" using st by (simp add: between_def)
  then have anchor: "findFirst (is_root (book_accounts st)) (rows st) = Some anchor" by (simp add: trade_ok_def)
  then have scoped: "book_accounts st \<noteq> {}" using findFirst_SomeD [OF anchor] by (auto simp: is_root_def)
  obtain tr0 N where start: "held (scope st) = [] \<or> root_known anchor st tr0"
    and before: "claimed_before anchor N b st" and groups: "root_known anchor st tr0 \<Longrightarrow> groups_exist tr0 N st"
    and empty: "\<not> root_known anchor st tr0 \<Longrightarrow> N = {}"
  proof (cases "\<exists>tr N. root_known anchor st tr \<and> claimed_before anchor N b st \<and> groups_exist tr N st")
    case True
    then show ?thesis using that by blast
  next
    case False
    then have h: "held (scope st) = []" using st unfolding between_def by blast
    then have "claimed_before anchor {} b st" "groups_exist tr {} st" for tr
      by (simp_all add: claimed_before_def groups_exist_def)
    then show ?thesis using that [of undefined "{}"] h by blast
  qed
  obtain tr st1 where e1: "ensureLevel (Transaction True) env (3 * k) (acc_guid anchor) ''Trading''
      \<lparr>book_root = acc_guid anchor, path = [''Trading'']\<rparr> is_trading_root (is_trading_child (acc_guid anchor))
      (case template of Some c \<Rightarrow> c | None \<Rightarrow> com) 1 st = (Inr tr, st1)"
    "extends env ''Trading'' st st1" "root_known anchor st1 tr" "root_known anchor st tr0 \<Longrightarrow> tr = tr0"
    "held (scope st1) = held (scope st) \<or> (\<exists>h. held (scope st1) = held (scope st) @ [h] \<and>
      order h = Some \<lparr>book_root = acc_guid anchor, path = [''Trading'']\<rparr>)"
    by (rule trading_root_level [OF ok start refl, where i = "3 * k"
        and com = "case template of Some c \<Rightarrow> c | None \<Rightarrow> com" and ph = 1]) blast
  have ok1: "trade_ok env anchor st1" by (rule trade_ok_extends [OF ok e1(2)])
  have before1: "claimed_before anchor N [''Trading'', ns, m] st1"
    using claimed_before_step [OF claimed_before_mono [OF before subset_refl le], of "[]"] e1(5) by simp
  have groups1: "groups_exist tr N st1"
  proof (cases "root_known anchor st tr0")
    case True
    then show ?thesis using groups_exist_extends [OF groups e1(2)] e1(4) by simp
  next
    case False
    then show ?thesis using empty by (simp add: groups_exist_def)
  qed
  obtain grp st2 where e2: "ensureLevel (Transaction True) env (3 * k + 1) (acc_guid tr) ns
      \<lparr>book_root = acc_guid anchor, path = [''Trading'', ns]\<rparr>
      (\<lambda>_. sibling (acc_guid tr) ns) (sibling (acc_guid tr) ns) (commodity_guid tr) 1 st1 = (Inr grp, st2)"
    "trade_ok env anchor st2" "root_known anchor st2 tr"
    "claimed_before anchor (insert ns N) [''Trading'', ns, m] st2" "groups_exist tr (insert ns N) st2"
    by (rule namespace_level [OF ok1 e1(3) names(1) before1 groups1])
  obtain leaf st3 where e3: "ensureLevel (Transaction True) env (3 * k + 2) (acc_guid grp) m
      \<lparr>book_root = acc_guid anchor, path = [''Trading'', ns, m]\<rparr>
      (\<lambda>_. sibling (acc_guid grp) m) (sibling (acc_guid grp) m) com 0 st2 = (Inr leaf, st3)"
    "trade_ok env anchor st3" "root_known anchor st3 tr"
    "claimed_before anchor (insert ns N) [''Trading'', ns, m] st3" "groups_exist tr (insert ns N) st3" "acc_guid leaf \<noteq> ''''"
    by (rule leaf_level [OF e2(2,3) names(2) e2(4,5)]) simp
  show thesis
    by (rule that [of "acc_guid leaf" st3])
      (use anchor scoped e1(1) e2(1) e3 in \<open>auto simp: getOrCreateTradingAccountWithin_def TRADING_ROOT_NAME_def
        tradingAccountLockOrder_def between_def eval_nat_numeral\<close>)
qed

lemma ensure_not_refused:
  assumes "between env anchor b st" "sorted_wrt (\<lambda>x y. compareLockOrder (imbalance_order x) (imbalance_order y) \<le> 0) gis"
    and "\<forall>gi \<in> set gis. b \<le> path (imbalance_order gi) \<and> im_namespace (snd gi) \<noteq> ''Trading'' \<and> im_mnemonic (snd gi) \<noteq> ''Trading''"
  shows "\<exists>guids st'. ensure_accounts (Transaction True) env k template gis st = (Inr guids, st') \<and>
    map fst guids = map fst gis \<and> (\<forall>guid \<in> snd ` set guids. guid \<noteq> '''') \<and> trade_ok env anchor st'"
  using assms
proof (induction gis arbitrary: b k st)
  case Nil
  then show ?case by (simp add: between_def)
next
  case (Cons gi gis)
  obtain g i where gi: "gi = (g, i)" by fastforce
  let ?b = "path (imbalance_order gi)"
  have b: "b \<le> [''Trading'', im_namespace i, im_mnemonic i]" and n: "im_namespace i \<noteq> ''Trading''" "im_mnemonic i \<noteq> ''Trading''"
    using Cons.prems(3) by (simp_all add: gi imbalance_order_def TRADING_ROOT_NAME_def)
  obtain guid st1 where w: "getOrCreateTradingAccountWithin (Transaction True) env k template g (im_mnemonic i) (im_namespace i) st
      = (Inr guid, st1)" "guid \<noteq> ''''" "between env anchor [''Trading'', im_namespace i, im_mnemonic i] st1"
    by (rule within_not_refused [OF Cons.prems(1) b n])
  have rest: "\<forall>gi' \<in> set gis. [''Trading'', im_namespace i, im_mnemonic i] \<le> path (imbalance_order gi') \<and>
      im_namespace (snd gi') \<noteq> ''Trading'' \<and> im_mnemonic (snd gi') \<noteq> ''Trading''"
    using Cons.prems(2,3) by (auto simp: gi compareLockOrder_le imbalance_order_def TRADING_ROOT_NAME_def)
  have sorted: "sorted_wrt (\<lambda>x y. compareLockOrder (imbalance_order x) (imbalance_order y) \<le> 0) gis" using Cons.prems(2) by simp
  from Cons.IH [OF w(3) sorted rest, of "Suc k"] w show ?case by (auto simp: gi)
qed

section \<open>Every commodity balances\<close>

lemma sum_one_key:
  "distinct ks \<Longrightarrow> g \<in> set ks \<Longrightarrow> sum_list (map (\<lambda>h. if g = h then x else 0) ks) = (x::int)"
proof (induction ks)
  case (Cons k ks)
  have none: "sum_list (map (\<lambda>h. if g = h then x else 0) ks) = 0" if "g \<notin> set ks"
    using that by (induction ks) auto
  then show ?case using Cons by auto
qed simp

lemma sum_by_commodity:
  assumes "distinct ks" "\<forall>s \<in> set ss. sc_commodity (wc s) \<in> set ks"
  shows "sum_list (map (\<lambda>g. sum_list (map f (in_commodity wc g ss))) ks) = (sum_list (map f ss) :: int)"
  using assms(2)
proof (induction ss)
  case Nil
  then show ?case by (simp add: in_commodity_def)
next
  case (Cons s ss)
  have "sum_list (map f (in_commodity wc g (s # ss))) =
      (if sc_commodity (wc s) = g then f s else 0) + sum_list (map f (in_commodity wc g ss))" for g
    by (simp add: in_commodity_def)
  then show ?case using Cons sum_one_key [OF assms(1), of "sc_commodity (wc s)" "f s"] by (simp add: sum_list_addf)
qed

definition vals :: "trade_split \<Rightarrow> js_number \<times> js_number" where
  "vals s = (ts_value_num s, ts_value_denom s)"

lemma vals_filled [simp]: "vals (filled s) = vals s"
  by (simp add: vals_def filled_def)

lemma value_sum_cents:
  assumes "list_all (\<lambda>s. \<exists>n. vals s = (JFin (of_int n), JFin 100) \<and> f s = n) ss"
  shows "value_sum (map vals ss) = Some (of_int (sum_list (map f ss)) / 100)"
  using assms by (induction ss) (auto simp: add_divide_distrib)

lemma kept_sum:
  assumes "\<forall>(g, i) \<in> set m. \<not> P i \<longrightarrow> f g = (0::int)"
  shows "sum_list (map (\<lambda>(g, i). f g) (filter (\<lambda>(_, i). P i) m)) = sum_list (map (f \<circ> fst) m)"
  using assms by (induction m) auto

lemma generated:
  assumes "\<forall>g \<in> set (map fst imbs). \<exists>a. map_of guids g = Some a \<and> a \<noteq> ''''"
  shows "generateTradingSplits imbs guids = map (\<lambda>(g, i). trading_split_of (the (map_of guids g)) i) imbs"
  using assms by (induction imbs) (auto simp: generateTradingSplits_def)

lemma trading_sum_zero:
  assumes exact: "exact_save wc ss" and wc: "wc = with_commodity accounts commodities"
    and zero: "sum_list (map cents ss) = 0"
    and guids: "\<forall>g \<in> set (map fst (calculateImbalances (map wc ss))). \<exists>a. map_of guids g = Some a \<and> a \<noteq> ''''"
  shows "value_sum (map vals (map filled ss @ map trading_entry (generateTradingSplits (calculateImbalances (map wc ss)) guids))) = Some 0"
proof -
  let ?imbs = "calculateImbalances (map wc ss)" and ?c = "\<lambda>g. sum_list (map cents (in_commodity wc g ss))"
  have mem: "(g, i) \<in> set (tally (map wc ss))" if "(g, i) \<in> set ?imbs" for g i
    using that by (auto simp: calculateImbalances_tally)
  have ts: "map (vals \<circ> trading_entry) (generateTradingSplits ?imbs guids)
      = map (\<lambda>(g, i). (JFin (of_int (- ?c g)), JFin 100)) ?imbs"
    unfolding generated [OF guids] map_map
  proof (rule map_cong [OF refl])
    fix gi
    assume "gi \<in> set ?imbs"
    then show "((vals \<circ> trading_entry) \<circ> (\<lambda>(g, i). trading_split_of (the (map_of guids g)) i)) gi =
        (\<lambda>(g, i). (JFin (of_int (- ?c g)), JFin 100)) gi"
      using trading_split_exact [OF exact wc mem, of "fst gi" "snd gi"]
      by (simp add: case_prod_beta vals_def trading_entry_def)
  qed
  have part: "value_sum (map (\<lambda>(g, i). (JFin (of_int (- ?c g)), JFin 100)) m) =
      Some (of_int (- sum_list (map (\<lambda>(g, i). ?c g) m)) / 100)" for m :: "(string \<times> imbalance) list"
    by (induction m) (auto simp: add_divide_distrib diff_divide_distrib simp del: of_int_minus)
  have "sum_list (map (\<lambda>(g, i). ?c g) ?imbs) = sum_list (map (?c \<circ> fst) (tally (map wc ss)))"
    unfolding calculateImbalances_tally by (rule kept_sum) (use dropped_small(1) [OF exact wc] in blast)
  also have "\<dots> = sum_list (map cents ss)"
    using sum_by_commodity [OF tally_distinct, of ss wc "map wc ss" cents] tally_keys [of "map wc ss"] by (auto simp: comp_def)
  finally have trading: "value_sum (map vals (map trading_entry (generateTradingSplits ?imbs guids))) = Some 0"
    using part [of ?imbs] zero by (simp add: ts)
  have "list_all (\<lambda>s. \<exists>n. vals s = (JFin (of_int n), JFin 100) \<and> cents s = n) ss"
    using exact exact_split_eqs(1) [of wc] by (auto simp: exact_save_def list_all_iff vals_def exact_split_def)
  from value_sum_cents [OF this] zero have "value_sum (map vals (map filled ss)) = Some 0" by (simp add: comp_def)
  then show ?thesis using trading by (simp add: value_sum_append)
qed

section \<open>Properties of the save\<close>

lemma process_balanced:
  assumes "processMultiCurrencySplits tx env commodities template ss st = (Inr (True, all), st')"
  shows "value_sum (map vals all) = Some 0"
proof -
  have "assertValueBalanced (map vals all) = Inr ()"
    using assms by (auto simp: processMultiCurrencySplits_def Let_def bind_result_Inr_iff vals_def [abs_def]
        split: if_splits prod.splits sum.splits)
  then show ?thesis by (simp add: assertValueBalanced_iff)
qed

text \<open>
  C22. Whatever the splits, a multi-currency save never returns an unbalanced list: when it
  returns at all, the exact rational values of the caller's and the trading splits sum to zero.
\<close>
theorem multi_currency_output_balanced:
  assumes "processMultiCurrencySplits tx env commodities template ss st = (Inr (True, all), st')"
  shows "value_sum (map vals all) = Some 0"
  by (rule process_balanced [OF assms])

lemma claims_granted:
  assumes "trade_ok env anchor st" "held (scope st) = []"
    and "\<forall>(g, i) \<in> set imbs. im_namespace i \<noteq> ''Trading'' \<and> im_mnemonic i \<noteq> ''Trading''"
  shows "\<exists>guids st'. ensure_accounts (Transaction True) env 0 template (sortByLockOrder imbalance_order imbs) st = (Inr guids, st') \<and>
    set (map fst guids) = set (map fst imbs) \<and> (\<forall>guid \<in> snd ` set guids. guid \<noteq> '''')"
proof -
  have b: "between env anchor [] st" using assms(1,2) by (simp add: between_def)
  have set: "set (sortByLockOrder imbalance_order imbs) = set imbs" by (simp add: sortByLockOrder_def)
  have "\<forall>gi \<in> set (sortByLockOrder imbalance_order imbs). [] \<le> path (imbalance_order gi) \<and>
      im_namespace (snd gi) \<noteq> ''Trading'' \<and> im_mnemonic (snd gi) \<noteq> ''Trading''"
    unfolding set using assms(3) by auto
  from ensure_not_refused [OF b sorted_sortByLockOrder this, of 0 template] obtain guids st' where
    "ensure_accounts (Transaction True) env 0 template (sortByLockOrder imbalance_order imbs) st = (Inr guids, st')"
    "map fst guids = map fst (sortByLockOrder imbalance_order imbs)" "\<forall>guid \<in> snd ` set guids. guid \<noteq> ''''" by blast
  moreover from this(2) have "set (map fst guids) = set (map fst imbs)" by (simp add: set)
  ultimately show ?thesis by blast
qed

text \<open>
  The walk over the commodities of a save, in sorted order, is never refused by the lock
  order, whatever rows other transactions commit meanwhile: every commodity gets a trading
  account. (No namespace or mnemonic may itself be called Trading.)
\<close>
theorem trading_claims_never_refused:
  assumes "trade_ok env anchor st" "held (scope st) = []"
    and "\<forall>(g, i) \<in> set imbs. im_namespace i \<noteq> ''Trading'' \<and> im_mnemonic i \<noteq> ''Trading''"
  shows "\<exists>guids st'. ensure_accounts (Transaction True) env 0 template (sortByLockOrder imbalance_order imbs) st = (Inr guids, st') \<and>
    set (map fst guids) = set (map fst imbs) \<and> (\<forall>guid \<in> snd ` set guids. guid \<noteq> '''')"
  by (rule claims_granted [OF assms])

definition settled ::
    "(string \<Rightarrow> commodity_info option) \<Rightarrow> (trade_split \<Rightarrow> split_with_commodity) \<Rightarrow> trade_split list \<Rightarrow> trading_split list
      \<Rightarrow> string \<Rightarrow> bool" where
  "settled commodities wc ss ts g \<longleftrightarrow>
     (\<exists>t \<in> set ts. tr_value_num t = JFin (of_int (- sum_list (map cents (in_commodity wc g ss)))) \<and>
        tr_value_denom t = JFin 100 \<and>
        tr_quantity_num t = JFin (of_int (- sum_list (map units (in_commodity wc g ss)))) \<and>
        tr_quantity_denom t = JFin (of_int (fraction_of commodities g))) \<or>
     (sum_list (map cents (in_commodity wc g ss)) = 0 \<and>
        10000 * \<bar>sum_list (map units (in_commodity wc g ss))\<bar> < 2 * fraction_of commodities g + 2501)"


section \<open>A transfer from dollars to euros\<close>

definition demo_env :: walk_env where
  "demo_env = \<lparr>arrive = (\<lambda>i. []), arrive_wait = (\<lambda>i. []), newGuids = (\<lambda>i. replicate (Suc i) CHR ''n'')\<rparr>"

definition demo_account :: "string \<Rightarrow> string \<Rightarrow> string \<Rightarrow> string \<Rightarrow> account_row" where
  "demo_account guid name kind commodity = (trading_row guid name commodity ''r'' 0)\<lparr>account_type := kind\<rparr>"

definition demo_state :: trading_state where
  "demo_state = \<lparr>rows = [demo_account ''r'' ''Root'' ''ROOT'' '''', demo_account ''a'' ''Bank'' ''BANK'' ''usd'',
       demo_account ''b'' ''Cash'' ''CASH'' ''eur''],
     scope = newScope, claims = 0, guids_used = 0, book_accounts = {''r'', ''a'', ''b''}\<rparr>"

definition demo_commodities :: "string \<Rightarrow> commodity_info option" where
  "demo_commodities g =
     (if g = ''usd'' then Some \<lparr>ci_mnemonic = ''USD'', ci_namespace = ''CURRENCY'', ci_fraction = 100\<rparr>
      else if g = ''eur'' then Some \<lparr>ci_mnemonic = ''EUR'', ci_namespace = ''CURRENCY'', ci_fraction = 100\<rparr>
      else None)"

definition demo_split :: "string \<Rightarrow> int \<Rightarrow> int \<Rightarrow> trade_split" where
  "demo_split account value_cents quantity_cents = \<lparr>ts_guid = None, ts_account = account,
     ts_value_num = JFin (of_int value_cents), ts_value_denom = JFin 100,
     ts_quantity_num = Some (JFin (of_int quantity_cents)), ts_quantity_denom = Some (JFin 100),
     ts_memo = None, ts_action = None, ts_state = None\<rparr>"

definition demo_splits :: "trade_split list" where
  "demo_splits = [demo_split ''a'' (-10000) (-10000), demo_split ''b'' 10000 8500]"

lemma demo_trade_ok: "trade_ok demo_env (demo_account ''r'' ''Root'' ''ROOT'' '''') demo_state"
proof -
  have "findFirst (is_root (book_accounts demo_state)) (rows demo_state) = Some (demo_account ''r'' ''Root'' ''ROOT'' '''')"
    by (simp add: findFirst_def stable_sort_def demo_state_def demo_account_def trading_row_def is_root_def)
  moreover have "inj (newGuids demo_env)"
    by (rule injI) (metis demo_env_def length_replicate nat.inject walk_env.select_convs(3))
  ultimately show ?thesis
    by (auto simp: trade_ok_def arrivals_def demo_env_def demo_state_def demo_account_def trading_row_def Cons_replicate_eq)
qed

lemma demo_with_commodity [simp]:
  "with_commodity (rows demo_state) demo_commodities (demo_split ''a'' v q) =
     \<lparr>sc_account = ''a'', sc_commodity = ''usd'', sc_mnemonic = ''USD'', sc_namespace = ''CURRENCY'', sc_fraction = 100,
       sc_value = js_div (JFin (of_int v)) (JFin 100), sc_quantity = js_div (JFin (of_int q)) (JFin 100)\<rparr>"
  "with_commodity (rows demo_state) demo_commodities (demo_split ''b'' v q) =
     \<lparr>sc_account = ''b'', sc_commodity = ''eur'', sc_mnemonic = ''EUR'', sc_namespace = ''CURRENCY'', sc_fraction = 100,
       sc_value = js_div (JFin (of_int v)) (JFin 100), sc_quantity = js_div (JFin (of_int q)) (JFin 100)\<rparr>"
  by (simp_all add: with_commodity_def demo_state_def demo_account_def trading_row_def demo_split_def
      demo_commodities_def filled_def or_default_def)

lemma demo_exact: "exact_save (with_commodity (rows demo_state) demo_commodities) demo_splits"
  "sum_list (map cents demo_splits) = 0" "needsTradingAccounts (map (with_commodity (rows demo_state) demo_commodities) demo_splits)"
proof -
  have e: "exact_number (JFin (of_int n)) = Some n" for n by simp
  show "exact_save (with_commodity (rows demo_state) demo_commodities) demo_splits"
    unfolding exact_save_def demo_splits_def list_all_iff exact_split_def
    by (simp, simp add: demo_split_def filled_def cents_def units_def exact_number_def)
  show "sum_list (map cents demo_splits) = 0"
    by (simp add: demo_splits_def demo_split_def cents_def e del: of_int_minus of_int_numeral)
  show "needsTradingAccounts (map (with_commodity (rows demo_state) demo_commodities) demo_splits)"
    by (simp add: needsTradingAccounts_def demo_splits_def)
qed



theorem multi_currency_output_balanced_witness:
  "\<exists>all. fst (processMultiCurrencySplits (Transaction True) demo_env demo_commodities None demo_splits demo_state) = Inr (True, all)
    \<and> value_sum (map vals all) = Some 0"
proof -
  have h: "held (scope demo_state) = []" by (simp add: demo_state_def newScope_def)
  have n: "\<forall>(g, i) \<in> set (calculateImbalances (map (with_commodity (rows demo_state) demo_commodities) demo_splits)).
      im_namespace i \<noteq> ''Trading'' \<and> im_mnemonic i \<noteq> ''Trading''"
    by (auto simp: calculateImbalances_def demo_splits_def add_split_def no_imbalance_def Let_def)
  obtain guids st1 where e: "ensure_accounts (Transaction True) demo_env 0 None (sortByLockOrder imbalance_order
      (calculateImbalances (map (with_commodity (rows demo_state) demo_commodities) demo_splits))) demo_state = (Inr guids, st1)"
    "set (map fst guids) = set (map fst (calculateImbalances (map (with_commodity (rows demo_state) demo_commodities) demo_splits)))"
    "\<forall>guid \<in> snd ` set guids. guid \<noteq> ''''"
    using claims_granted [OF demo_trade_ok h n, of None] by blast
  have guids: "\<forall>g \<in> set (map fst (calculateImbalances (map (with_commodity (rows demo_state) demo_commodities) demo_splits))).
      \<exists>a. map_of guids g = Some a \<and> a \<noteq> ''''"
  proof
    fix g
    assume "g \<in> set (map fst (calculateImbalances (map (with_commodity (rows demo_state) demo_commodities) demo_splits)))"
    then have "g \<in> fst ` set guids" unfolding e(2) [symmetric] by (simp only: set_map)
    then obtain a where "map_of guids g = Some a" by (metis map_of_eq_None_iff not_None_eq)
    then show "\<exists>a. map_of guids g = Some a \<and> a \<noteq> ''''" using e(3) map_of_SomeD by fastforce
  qed
  from trading_sum_zero [OF demo_exact(1) refl demo_exact(2) guids] e(1) demo_exact(3)
  obtain all where all: "processMultiCurrencySplits (Transaction True) demo_env demo_commodities None demo_splits demo_state
      = (Inr (True, all), st1)"
    by (simp add: processMultiCurrencySplits_def Let_def vals_def [abs_def] assertValueBalanced_iff [symmetric])
  from multi_currency_output_balanced [OF this] all show ?thesis by simp
qed

theorem trading_claims_never_refused_witness:
  "\<exists>guids st'. ensure_accounts (Transaction True) demo_env 0 None (sortByLockOrder imbalance_order
     [(''eur'', \<lparr>im_mnemonic = ''EUR'', im_namespace = ''CURRENCY'', im_fraction = 100, im_quantity = JFin 85, im_value = JFin 100\<rparr>),
      (''usd'', \<lparr>im_mnemonic = ''USD'', im_namespace = ''CURRENCY'', im_fraction = 100, im_quantity = JFin (-100), im_value = JFin (-100)\<rparr>)])
     demo_state = (Inr guids, st') \<and> set (map fst guids) = {''eur'', ''usd''}"
proof -
  have h: "held (scope demo_state) = []" by (simp add: demo_state_def newScope_def)
  show ?thesis
    using trading_claims_never_refused [OF demo_trade_ok h, where template = None and
        imbs = "[(''eur'', \<lparr>im_mnemonic = ''EUR'', im_namespace = ''CURRENCY'', im_fraction = 100, im_quantity = JFin 85, im_value = JFin 100\<rparr>),
      (''usd'', \<lparr>im_mnemonic = ''USD'', im_namespace = ''CURRENCY'', im_fraction = 100, im_quantity = JFin (-100), im_value = JFin (-100)\<rparr>)]"]
    by auto
qed

theorem balance_gates_agree_witness:
  "assertValueBalanced [(JFin 5, JFin 100), (JFin (-5), JFin 100)] = Inr () \<longleftrightarrow>
    assertBalanced (map (\<lambda>(n, d). \<lparr>value_num = JNum n, value_denom = JNum d\<rparr>) [(JFin 5, JFin 100), (JFin (-5), JFin 100)]) = Inr ()"
  by (rule balance_gates_agree) (simp add: is_safe_integer_def)

end
