(* ===== verification/Period_Lock.thy ===== *)
theory Period_Lock
  imports Js_Calendar
begin

text \<open>
  The period lock of a book (src/lib/services/period-lock.service.ts). A book's settings row
  holds a lock date; the process caches it for a second. Dates arrive as \<open>Date\<close> objects,
  strings or nothing; a \<open>Date\<close> is printed in UTC, its calendar is that of \<open>Js_Calendar\<close>. The
  database is the function from a book to its settings row that the query reads at that
  moment (the client of the caller's transaction or the global one).
\<close>

datatype lockable_date = DateValue int | DateString string | NoDate

text \<open>A settings row with its nullable lock date; no row is \<open>None\<close>.\<close>

type_synonym lock_settings = "string \<Rightarrow> lockable_date option"

record cached_lock =
  cl_lock_date :: "string option"
  cl_expires_at :: int

type_synonym lock_cache = "string \<Rightarrow> cached_lock option"

definition LOCK_CACHE_TTL_MS :: int where
  "LOCK_CACHE_TTL_MS = 1000"

definition invalidatePeriodLockCache :: "string option \<Rightarrow> lock_cache \<Rightarrow> lock_cache" where
  "invalidatePeriodLockCache book cache = (case book of
     Some b \<Rightarrow> if b = [] then (\<lambda>_. None) else cache(b := None) | None \<Rightarrow> (\<lambda>_. None))"

text \<open>\<open>toISOString\<close> has a signed six-digit year outside 0 to 9999; \<open>slice(0, 10)\<close> cuts that.\<close>

definition iso_year :: "int \<Rightarrow> string" where
  "iso_year y = (if 0 \<le> y \<and> y \<le> 9999 then pad_zeros 4 (nat_str (nat y))
     else (if y < 0 then ''-'' else ''+'') @ pad_zeros 6 (nat_str (nat \<bar>y\<bar>)))"

definition two_digits :: "int \<Rightarrow> string" where
  "two_digits n = pad_zeros 2 (nat_str (nat n))"

definition iso_date :: "int \<Rightarrow> string" where
  "iso_date t = take 10 (iso_year (getFullYear t) @ ''-'' @ two_digits (getMonth t + 1) @ ''-'' @ two_digits (getDate t))"

text \<open>The two cases of a value that is there.\<close>

definition toIsoDateString :: "lockable_date \<Rightarrow> string option" where
  "toIsoDateString d = (case d of
     DateString s \<Rightarrow> Some (take 10 s) | DateValue t \<Rightarrow> Some (iso_date t) | NoDate \<Rightarrow> None)"

definition queried_lock_date :: "lock_settings \<Rightarrow> string \<Rightarrow> string option" where
  "queried_lock_date db book = (case db book of None \<Rightarrow> None | Some raw \<Rightarrow> toIsoDateString raw)"

definition getCachedLockDate ::
    "int \<Rightarrow> lock_settings \<Rightarrow> string \<Rightarrow> bool \<Rightarrow> lock_cache \<Rightarrow> string option \<times> lock_cache" where
  "getCachedLockDate now db book bypassCache cache =
     (case (if bypassCache then None else cache book) of
        Some c \<Rightarrow> if cl_expires_at c > now then (cl_lock_date c, cache)
          else (queried_lock_date db book,
            cache(book \<mapsto> \<lparr>cl_lock_date = queried_lock_date db book, cl_expires_at = now + LOCK_CACHE_TTL_MS\<rparr>))
      | None \<Rightarrow> (queried_lock_date db book,
            cache(book \<mapsto> \<lparr>cl_lock_date = queried_lock_date db book, cl_expires_at = now + LOCK_CACHE_TTL_MS\<rparr>)))"

fun first_locked :: "string \<Rightarrow> lockable_date list \<Rightarrow> string option" where
  "first_locked lockDate [] = None"
| "first_locked lockDate (d # ds) = (case toIsoDateString d of
      None \<Rightarrow> first_locked lockDate ds
    | Some day \<Rightarrow> if day \<le> lockDate then Some day else first_locked lockDate ds)"

text \<open>An empty lock date is falsy.\<close>

definition findLockedDate :: "string option \<Rightarrow> lockable_date list \<Rightarrow> string option" where
  "findLockedDate lockDate dates = (case lockDate of
     None \<Rightarrow> None | Some l \<Rightarrow> if l = [] then None else first_locked l dates)"

text \<open>The error carries the lock date.\<close>

datatype period_error = PeriodLocked string

definition assertNotLocked ::
    "int \<Rightarrow> lock_settings \<Rightarrow> string \<Rightarrow> lockable_date list \<Rightarrow> bool \<Rightarrow> lock_cache \<Rightarrow> (period_error + unit) \<times> lock_cache" where
  "assertNotLocked now db book dates bypassCache cache =
     (case getCachedLockDate now db book bypassCache cache of
        (lockDate, cache') \<Rightarrow>
          (if findLockedDate lockDate dates \<noteq> None then Inl (PeriodLocked (the lockDate)) else Inr (), cache'))"

text \<open>The transaction is looked up by \<open>post_date_of\<close>: no transaction, or its nullable date.\<close>

definition assertTxnMutable ::
    "int \<Rightarrow> lock_settings \<Rightarrow> (string \<Rightarrow> lockable_date option) \<Rightarrow> string \<Rightarrow> string \<Rightarrow> lock_cache
      \<Rightarrow> (period_error + unit) \<times> lock_cache" where
  "assertTxnMutable now db post_date_of book txGuid cache =
     (case getCachedLockDate now db book False cache of
        (lockDate, cache') \<Rightarrow>
          if lockDate = None \<or> lockDate = Some [] then (Inr (), cache')
          else (case post_date_of txGuid of
              None \<Rightarrow> (Inr (), cache')
            | Some d \<Rightarrow> assertNotLocked now db book [d] False cache'))"

definition periodLockedMessage :: "period_error \<Rightarrow> string" where
  "periodLockedMessage e = (case e of PeriodLocked l \<Rightarrow>
     ''Period locked: transactions on or before '' @ l @ '' are closed'')"

text \<open>The ready response is its status, message and code.\<close>

definition periodLockedResponse :: "period_error \<Rightarrow> nat \<times> string \<times> string" where
  "periodLockedResponse e = (400, periodLockedMessage e, ''PERIOD_LOCKED'')"

definition withPeriodLockCheck ::
    "int \<Rightarrow> lock_settings \<Rightarrow> string \<Rightarrow> lockable_date list \<Rightarrow> bool \<Rightarrow> lock_cache
      \<Rightarrow> (nat \<times> string \<times> string) option \<times> lock_cache" where
  "withPeriodLockCheck now db book dates bypassCache cache =
     (case assertNotLocked now db book dates bypassCache cache of
        (Inr _, cache') \<Rightarrow> (None, cache') | (Inl e, cache') \<Rightarrow> (Some (periodLockedResponse e), cache'))"

section \<open>The book of an account\<close>

record book_row =
  bk_guid :: string
  bk_root :: string

text \<open>
  The recursive query: the rows from an account up to its root. It has no cycle guard, so it
  does not end on a cyclic tree; \<open>fuel\<close> bounds the walk and \<open>None\<close> is not ending.
\<close>

fun up_chain :: "nat \<Rightarrow> (string \<Rightarrow> string option option) \<Rightarrow> string \<Rightarrow> string list option" where
  "up_chain 0 parent_of g = None"
| "up_chain (Suc fuel) parent_of g = (case parent_of g of
      None \<Rightarrow> Some []
    | Some None \<Rightarrow> Some [g]
    | Some (Some p) \<Rightarrow> map_option (\<lambda>gs. g # gs) (up_chain fuel parent_of p))"

definition getBookGuidForAccount ::
    "nat \<Rightarrow> (string \<Rightarrow> string option option) \<Rightarrow> book_row list \<Rightarrow> string \<Rightarrow> string option option" where
  "getBookGuidForAccount fuel parent_of books account =
     map_option (\<lambda>up. map_option bk_guid (find (\<lambda>b. bk_root b \<in> set up) books)) (up_chain fuel parent_of account)"

definition getBookGuidForRoot :: "book_row list \<Rightarrow> string \<Rightarrow> string option" where
  "getBookGuidForRoot books root_guid = map_option bk_guid (find (\<lambda>b. bk_root b = root_guid) books)"

definition assertAccountNotLocked ::
    "nat \<Rightarrow> (string \<Rightarrow> string option option) \<Rightarrow> book_row list \<Rightarrow> int \<Rightarrow> lock_settings \<Rightarrow> string \<Rightarrow> lockable_date list
      \<Rightarrow> lock_cache \<Rightarrow> ((period_error + unit) \<times> lock_cache) option" where
  "assertAccountNotLocked fuel parent_of books now db account dates cache =
     map_option (\<lambda>found. case found of
         None \<Rightarrow> (Inr (), cache) | Some b \<Rightarrow> assertNotLocked now db b dates False cache)
       (getBookGuidForAccount fuel parent_of books account)"

section \<open>The order of printed dates is the order of days\<close>

lemma digit_less: "is_digit c \<Longrightarrow> is_digit d \<Longrightarrow> c < d \<longleftrightarrow> digit_val c < digit_val d"
  by (auto simp: is_digit_def digit_val_def less_char_def)

lemma digit_eq: "is_digit c \<Longrightarrow> is_digit d \<Longrightarrow> c = d \<longleftrightarrow> digit_val c = digit_val d"
proof -
  assume "is_digit c" "is_digit d"
  then have "digit_val c = digit_val d \<longleftrightarrow> (of_char c :: nat) = of_char d"
    unfolding is_digit_def digit_val_def by linarith
  then show ?thesis by simp
qed

lemma parse_nat_Cons: "parse_nat (c # s) = digit_val c * 10 ^ length s + parse_nat s"
  using parse_nat_append [of "[c]" s] by (simp add: parse_nat_def)

lemma digits_order:
  "length s = length t \<Longrightarrow> list_all is_digit s \<Longrightarrow> list_all is_digit t \<Longrightarrow>
     (s < t \<longleftrightarrow> parse_nat s < parse_nat t) \<and> (s = t \<longleftrightarrow> parse_nat s = parse_nat t)"
proof (induction s t rule: list_induct2)
  case (Cons c s d t)
  have b: "parse_nat s < 10 ^ length t" "parse_nat t < 10 ^ length t"
    using parse_nat_less [of s] parse_nat_less [of t] Cons by simp_all
  have cd: "c < d \<longleftrightarrow> digit_val c < digit_val d" "c = d \<longleftrightarrow> digit_val c = digit_val d"
    using digit_less digit_eq Cons.prems by simp_all
  have lex: "x * m + a < y * m + b' \<longleftrightarrow> x < y \<or> x = y \<and> a < b'" "x * m + a = y * m + b' \<longleftrightarrow> x = y \<and> a = b'"
    if "a < m" "b' < m" for x y a b' m :: nat
  proof -
    have l: "x * m + a < y * m + b'" if "x < y" "a < m" for x y a b' :: nat
    proof -
      have "x * m + a < Suc x * m" using that by simp
      also have "\<dots> \<le> y * m" using that by (intro mult_right_mono) auto
      finally show ?thesis by simp
    qed
    show "x * m + a < y * m + b' \<longleftrightarrow> x < y \<or> x = y \<and> a < b'"
      using l [of x y a b'] l [of y x b' a] that by (cases x y rule: linorder_cases) auto
    show "x * m + a = y * m + b' \<longleftrightarrow> x = y \<and> a = b'"
      using l [of x y a b'] l [of y x b' a] that by (cases x y rule: linorder_cases) auto
  qed
  show ?case using Cons b cd by (auto simp: parse_nat_Cons lex)
qed simp

lemma append_order:
  "length s = length t \<Longrightarrow> s @ u < t @ v \<longleftrightarrow> s < t \<or> s = t \<and> u < (v :: string)"
  by (induction s t rule: list_induct2) auto

lemma padded_order:
  assumes "0 < k" "a < 10 ^ k" "b < 10 ^ k"
  shows "pad_zeros k (nat_str a) < pad_zeros k (nat_str b) \<longleftrightarrow> a < b"
    "pad_zeros k (nat_str a) = pad_zeros k (nat_str b) \<longleftrightarrow> a = b"
    "length (pad_zeros k (nat_str a)) = k"
proof -
  have l: "length (pad_zeros k (nat_str n)) = k" if "n < 10 ^ k" for n
    by (rule length_pad_zeros [OF length_nat_str_le [OF assms(1) that]])
  from digits_order [of "pad_zeros k (nat_str a)" "pad_zeros k (nat_str b)"] l assms
  show "pad_zeros k (nat_str a) < pad_zeros k (nat_str b) \<longleftrightarrow> a < b"
    "pad_zeros k (nat_str a) = pad_zeros k (nat_str b) \<longleftrightarrow> a = b" by simp_all
  show "length (pad_zeros k (nat_str a)) = k" by (rule l [OF assms(2)])
qed

lemma civil_order:
  "d < e \<longleftrightarrow> year_of_day d < year_of_day e \<or> year_of_day d = year_of_day e \<and>
     (month_of_day d < month_of_day e \<or> month_of_day d = month_of_day e \<and> date_of_day d < date_of_day e)"
proof -
  have lt: "d < e" if "year_of_day d < year_of_day e" for d e
    using year_bounds [of d] year_bounds [of e] day_from_year_mono [of "year_of_day d + 1" "year_of_day e"] that by linarith
  have md: "d < e" if y: "year_of_day d = year_of_day e" and m: "month_of_day d < month_of_day e" for d e
  proof -
    let ?y = "year_of_day e" and ?m = "nat (month_of_day d)" and ?n = "nat (month_of_day e)"
    have "d = day_from_year ?y + days_before ?y ?m + date_of_day d - 1"
      using make_day_civil [of d] civil_bounds [of d] y by (simp add: make_day_def)
    moreover have "e = day_from_year ?y + days_before ?y ?n + date_of_day e - 1"
      using make_day_civil [of e] civil_bounds [of e] by (simp add: make_day_def)
    moreover have "days_before ?y (Suc ?m) \<le> days_before ?y ?n" using m civil_bounds(1) [of d] by (intro days_before_mono) auto
    moreover have "date_of_day d \<le> month_length ?y (month_of_day d)" using civil_bounds(4) [of d] y by simp
    moreover have "1 \<le> date_of_day e" by (rule civil_bounds(3))
    ultimately show ?thesis using civil_bounds(1) [of d] by simp
  qed
  have dd: "d < e \<longleftrightarrow> date_of_day d < date_of_day e"
    if "year_of_day d = year_of_day e" "month_of_day d = month_of_day e" for d e
  proof -
    have "make_day (year_of_day e) (month_of_day e) (date_of_day d) = d" using make_day_civil [of d] that by simp
    then show ?thesis using make_day_civil [of e] unfolding make_day_def by linarith
  qed
  show ?thesis using lt [of d e] lt [of e d] md [of d e] md [of e d] dd [of d e] by (metis less_asym linorder_neqE)
qed

lemma iso_date_order:
  assumes "0 \<le> getFullYear t" "getFullYear t \<le> 9999" "0 \<le> getFullYear u" "getFullYear u \<le> 9999"
  shows "iso_date t < iso_date u \<longleftrightarrow> day_number t < day_number u"
proof -
  have m: "0 \<le> getMonth x" "getMonth x \<le> 11" "1 \<le> getDate x" "getDate x \<le> 31" for x
    using civil_bounds [of "day_number x"] month_length_bounds(2) [of "year_of_day (day_number x)" "month_of_day (day_number x)"]
    by (simp_all add: getMonth_def getDate_def)
  have y: "length (iso_year (getFullYear x)) = 4" if "0 \<le> getFullYear x" "getFullYear x \<le> 9999" for x
    using padded_order(3) [of 4 "nat (getFullYear x)" 0] that by (simp add: iso_year_def)
  have two: "length (two_digits n) = 2" if "0 \<le> n" "n \<le> 31" for n
    using padded_order(3) [of 2 "nat n" 0] that by (simp add: two_digits_def)
  have full: "iso_date x = iso_year (getFullYear x) @ ''-'' @ two_digits (getMonth x + 1) @ ''-'' @ two_digits (getDate x)"
    if "0 \<le> getFullYear x" "getFullYear x \<le> 9999" for x
    using y [OF that] two [of "getMonth x + 1"] two [of "getDate x"] m [of x] by (simp add: iso_date_def)
  have yo: "iso_year (getFullYear t) < iso_year (getFullYear u) \<longleftrightarrow> getFullYear t < getFullYear u"
    "iso_year (getFullYear t) = iso_year (getFullYear u) \<longleftrightarrow> getFullYear t = getFullYear u"
    using padded_order(1,2) [of 4 "nat (getFullYear t)" "nat (getFullYear u)"] assms by (auto simp: iso_year_def)
  have to: "two_digits a < two_digits b \<longleftrightarrow> a < b" "two_digits a = two_digits b \<longleftrightarrow> a = b"
    if "0 \<le> a" "a \<le> 31" "0 \<le> b" "b \<le> 31" for a b
    using padded_order(1,2) [of 2 "nat a" "nat b"] that by (auto simp: two_digits_def)
  have "iso_date t < iso_date u \<longleftrightarrow> getFullYear t < getFullYear u \<or> getFullYear t = getFullYear u \<and>
     (getMonth t < getMonth u \<or> getMonth t = getMonth u \<and> getDate t < getDate u)"
    using full [of t] full [of u] assms y [of t] y [of u] m [of t] m [of u] two [of "getMonth t + 1"] two [of "getMonth u + 1"]
    by (simp add: append_order yo to add1_zle_eq)
  then show ?thesis by (simp add: civil_order [of "day_number t"] getFullYear_def getMonth_def getDate_def)
qed

section \<open>Properties\<close>

lemma first_locked_iff:
  "first_locked l ds \<noteq> None \<longleftrightarrow> (\<exists>d \<in> set ds. \<exists>day. toIsoDateString d = Some day \<and> day \<le> l)"
  by (induction ds) (auto split: option.splits)

lemma length_iso_date: "0 \<le> getFullYear t \<Longrightarrow> getFullYear t \<le> 9999 \<Longrightarrow> length (iso_date t) = 10"
proof -
  assume y: "0 \<le> getFullYear t" "getFullYear t \<le> 9999"
  have "getDate t \<le> 31" "getMonth t \<le> 11"
    using civil_bounds [of "day_number t"] month_length_bounds(2) [of "year_of_day (day_number t)" "month_of_day (day_number t)"]
    by (simp_all add: getMonth_def getDate_def)
  then have "length (two_digits (getMonth t + 1)) = 2" "length (two_digits (getDate t)) = 2"
    using padded_order(3) [of 2 "nat (getMonth t + 1)" 0] padded_order(3) [of 2 "nat (getDate t)" 0]
    by (simp_all add: two_digits_def)
  moreover have "length (iso_year (getFullYear t)) = 4"
    using padded_order(3) [of 4 "nat (getFullYear t)" 0] y by (simp add: iso_year_def)
  ultimately show ?thesis by (simp add: iso_date_def)
qed

text \<open>A value that denotes the moment \<open>t\<close>: the \<open>Date\<close>, or an ISO string, with or without a time.\<close>

definition denotes :: "lockable_date \<Rightarrow> int \<Rightarrow> bool" where
  "denotes d t \<longleftrightarrow> 0 \<le> getFullYear t \<and> getFullYear t \<le> 9999 \<and>
     (d = DateValue t \<or> (\<exists>time_part. d = DateString (iso_date t @ time_part)))"

lemma denotes_iso: "denotes d t \<Longrightarrow> toIsoDateString d = Some (iso_date t)"
  using length_iso_date [of t] by (auto simp: denotes_def toIsoDateString_def)

text \<open>
  C36. The rule is the calendar's: although the code compares printed dates as strings, a date of
  the years 0 to 9999, given as a \<open>Date\<close> or as an ISO string, is locked exactly when its day is
  not after the day of the lock date; a missing date never is.
\<close>
theorem lock_rule_is_calendar:
  assumes "0 \<le> getFullYear lock" "getFullYear lock \<le> 9999"
    and "\<forall>d \<in> set dates. d = NoDate \<or> (\<exists>t. denotes d t)"
  shows "findLockedDate (Some (iso_date lock)) dates \<noteq> None \<longleftrightarrow>
    (\<exists>d \<in> set dates. \<exists>t. denotes d t \<and> day_number t \<le> day_number lock)"
proof -
  have ne: "iso_date lock \<noteq> []" using length_iso_date [OF assms(1,2)] by auto
  have le: "iso_date t \<le> iso_date lock \<longleftrightarrow> day_number t \<le> day_number lock" if "denotes d t" for d t
    using iso_date_order [of lock t] that assms(1,2) by (auto simp: denotes_def not_less [symmetric])
  have "findLockedDate (Some (iso_date lock)) dates \<noteq> None \<longleftrightarrow>
      (\<exists>d \<in> set dates. \<exists>day. toIsoDateString d = Some day \<and> day \<le> iso_date lock)"
    using ne by (simp add: findLockedDate_def first_locked_iff del: not_None_eq)
  also have "\<dots> \<longleftrightarrow> (\<exists>d \<in> set dates. \<exists>t. denotes d t \<and> day_number t \<le> day_number lock)"
  proof (rule bex_cong [OF refl])
    fix d
    assume "d \<in> set dates"
    then consider "d = NoDate" | t where "denotes d t" using assms(3) by blast
    then show "(\<exists>day. toIsoDateString d = Some day \<and> day \<le> iso_date lock) \<longleftrightarrow>
        (\<exists>t. denotes d t \<and> day_number t \<le> day_number lock)"
    proof cases
      case 1
      then show ?thesis by (simp add: toIsoDateString_def denotes_def)
    next
      case 2
      then show ?thesis using le denotes_iso by (metis option.inject)
    qed
  qed
  finally show ?thesis .
qed

theorem lock_rule_is_calendar_witness:
  "findLockedDate (Some (iso_date (newDate 2023 11 31))) [NoDate, DateValue (newDate 2023 11 31)] \<noteq> None"
proof -
  have y: "getFullYear (newDate 2023 11 31) = 2023" by code_simp
  have d: "denotes (DateValue (newDate 2023 11 31)) (newDate 2023 11 31)" by (simp add: denotes_def y)
  have "\<forall>d \<in> set [NoDate, DateValue (newDate 2023 11 31)]. d = NoDate \<or> (\<exists>t. denotes d t)" using d by auto
  from lock_rule_is_calendar [OF _ _ this] y d show ?thesis by auto
qed

text \<open>
  The process and the database: \<open>history t\<close> is the settings table at time \<open>t\<close>. Reads, cached or
  not, and invalidations of the cache follow one another in time.
\<close>

inductive cache_reachable :: "(int \<Rightarrow> lock_settings) \<Rightarrow> int \<Rightarrow> lock_cache \<Rightarrow> bool" for history where
  cache_init: "cache_reachable history t (\<lambda>_. None)"
| cache_wait: "cache_reachable history t cache \<Longrightarrow> t \<le> u \<Longrightarrow> cache_reachable history u cache"
| cache_read: "cache_reachable history t cache \<Longrightarrow>
    cache_reachable history t (snd (getCachedLockDate t (history t) book bypassCache cache))"
| cache_drop: "cache_reachable history t cache \<Longrightarrow> cache_reachable history t (invalidatePeriodLockCache book cache)"

definition was_read :: "(int \<Rightarrow> lock_settings) \<Rightarrow> int \<Rightarrow> lock_cache \<Rightarrow> bool" where
  "was_read history now cache \<longleftrightarrow> (\<forall>b c. cache b = Some c \<longrightarrow>
     (\<exists>t \<le> now. cl_expires_at c = t + LOCK_CACHE_TTL_MS \<and> cl_lock_date c = queried_lock_date (history t) b))"

lemma was_read_reachable: "cache_reachable history now cache \<Longrightarrow> was_read history now cache"
proof (induction rule: cache_reachable.induct)
  case (cache_wait t cache u)
  then show ?case unfolding was_read_def by (meson order_trans)
next
  case (cache_read t cache book bypassCache)
  have e: "snd (getCachedLockDate t (history t) book bypassCache cache) = cache \<or>
      snd (getCachedLockDate t (history t) book bypassCache cache) = cache(book \<mapsto>
        \<lparr>cl_lock_date = queried_lock_date (history t) book, cl_expires_at = t + LOCK_CACHE_TTL_MS\<rparr>)"
    by (auto simp: getCachedLockDate_def split: option.splits)
  then show ?case
  proof
    assume "snd (getCachedLockDate t (history t) book bypassCache cache) = cache"
    then show ?thesis using cache_read.IH by simp
  next
    assume "snd (getCachedLockDate t (history t) book bypassCache cache) = cache(book \<mapsto>
        \<lparr>cl_lock_date = queried_lock_date (history t) book, cl_expires_at = t + LOCK_CACHE_TTL_MS\<rparr>)"
    then show ?thesis using cache_read.IH by (auto simp: was_read_def)
  qed
next
  case (cache_drop t cache book)
  then show ?case by (auto simp: was_read_def invalidatePeriodLockCache_def split: option.splits)
qed (simp add: was_read_def)

text \<open>
  A guard works with a lock date that was in the database less than a second before, and the
  guard inside a write transaction (which bypasses the cache) with the one of that moment.
\<close>
theorem lock_staleness_bounded:
  assumes "cache_reachable history now cache"
  shows "\<exists>t. now - LOCK_CACHE_TTL_MS < t \<and> t \<le> now \<and> (bypassCache \<longrightarrow> t = now) \<and>
    fst (assertNotLocked now (history now) book dates bypassCache cache) =
      (if findLockedDate (queried_lock_date (history t) book) dates \<noteq> None
       then Inl (PeriodLocked (the (queried_lock_date (history t) book))) else Inr ())"
proof -
  have "\<exists>t. now - LOCK_CACHE_TTL_MS < t \<and> t \<le> now \<and> (bypassCache \<longrightarrow> t = now) \<and>
      fst (getCachedLockDate now (history now) book bypassCache cache) = queried_lock_date (history t) book"
  proof (cases "\<exists>c. \<not> bypassCache \<and> cache book = Some c \<and> now < cl_expires_at c")
    case True
    then obtain c where c: "\<not> bypassCache" "cache book = Some c" "now < cl_expires_at c" by blast
    then obtain t where "t \<le> now" "cl_expires_at c = t + LOCK_CACHE_TTL_MS" "cl_lock_date c = queried_lock_date (history t) book"
      using was_read_reachable [OF assms] by (auto simp: was_read_def)
    with c show ?thesis by (intro exI [of _ t]) (auto simp: getCachedLockDate_def)
  next
    case False
    then have "fst (getCachedLockDate now (history now) book bypassCache cache) = queried_lock_date (history now) book"
      by (auto simp: getCachedLockDate_def split: option.splits)
    then show ?thesis by (intro exI [of _ now]) (simp add: LOCK_CACHE_TTL_MS_def)
  qed
  then obtain t where t: "now - LOCK_CACHE_TTL_MS < t" "t \<le> now" "bypassCache \<longrightarrow> t = now"
    "fst (getCachedLockDate now (history now) book bypassCache cache) = queried_lock_date (history t) book" by blast
  then show ?thesis by (intro exI [of _ t]) (simp add: assertNotLocked_def case_prod_beta)
qed

theorem lock_staleness_bounded_witness:
  "\<exists>t. 5000 - LOCK_CACHE_TTL_MS < t \<and> t \<le> 5000 \<and>
    fst (assertNotLocked 5000 (\<lambda>_. Some (DateString ''2023-12-31'')) ''b'' [DateString ''2023-05-01''] False (\<lambda>_. None)) =
      (if findLockedDate (queried_lock_date (\<lambda>_. Some (DateString ''2023-12-31'')) ''b'') [DateString ''2023-05-01''] \<noteq> None
       then Inl (PeriodLocked (the (queried_lock_date (\<lambda>_. Some (DateString ''2023-12-31'')) ''b''))) else Inr ())"
  using lock_staleness_bounded [OF cache_init, where history = "\<lambda>_ _. Some (DateString ''2023-12-31'')" and now = 5000
    and book = "''b''" and dates = "[DateString ''2023-05-01'']" and bypassCache = False] by blast

text \<open>
  C29. A date string that is not in ISO form can slip through: the lock compares the first ten
  characters, so that the fifteenth of March 2020 as a month-first string passes a lock at the
  end of 2023, where the \<open>Date\<close> it stands for does not.
\<close>
theorem month_first_date_passes_lock:
  "findLockedDate (Some ''2023-12-31'') [DateString ''3/15/2020''] = None \<and>
   findLockedDate (Some ''2023-12-31'') [DateValue (newDate 2020 2 15)] = Some ''2020-03-15''"
  by code_simp

end
