(* ===== verification/Transactions_Route.thy ===== *)
theory Transactions_Route
  imports Quick_Add_Queue Trading_Accounts Period_Lock
begin

text \<open>
  The handler that creates a transaction (src/app/api/transactions/route.ts, \<open>POST\<close>, with
  \<open>writeTransactionNotes\<close> of src/lib/transaction-notes.ts), composed of the validation, the
  period lock and the trading accounts. One database transaction encloses the write: when
  anything in it throws, its rows are gone. The foreign keys and column limits of the
  database are the function \<open>db_accepts\<close>; unique guids are modelled.
\<close>

section \<open>Requests and tables\<close>

record body_split = split_input +
  bs_guid :: "string option"
  bs_quantity_num :: jsval
  bs_memo :: "string option"
  bs_action :: "string option"

record tx_body =
  bd_guid :: "string option"
  bd_currency :: "string option"
  bd_num :: "string option"
  bd_post_date :: "string option"
  bd_description :: "string option"
  bd_notes :: "string option"
  bd_splits :: "body_split list option"

record posted_split =
  ps_guid :: string
  ps_account :: string
  ps_memo :: string
  ps_action :: string
  ps_state :: string
  ps_value :: "int \<times> int"
  ps_quantity :: "int \<times> int"

record posted_tx =
  pt_guid :: string
  pt_currency :: string
  pt_num :: string
  pt_post_date :: string
  pt_description :: string
  pt_splits :: "posted_split list"

record slot_row =
  sl_obj :: string
  sl_name :: string
  sl_string :: string

datatype route_effect = AuditCreate string bool nat | DropCachesFrom string | PublishTransaction string

record server_state =
  sv_walk :: trading_state
  sv_ledger :: "posted_tx list"
  sv_slots :: "slot_row list"
  sv_locks :: lock_cache
  sv_effects :: "route_effect list"

datatype post_reply = Created posted_tx bool | Refused nat string

record route_env =
  role :: "post_reply + string"
  clock :: int
  date_ok :: "string \<Rightarrow> bool"
  settings_before :: lock_settings
  settings_inside :: lock_settings
  accounts_of_book :: "string \<Rightarrow> string list"
  walk :: walk_env
  commodity_of :: "string \<Rightarrow> commodity_info option"
  template_commodity :: "string option"
  fresh_tx_guid :: string
  fresh_split_guid :: "nat \<Rightarrow> string"
  db_accepts :: "posted_tx \<Rightarrow> bool"

section \<open>Reading the body\<close>

definition as_input :: "tx_body \<Rightarrow> transaction_input" where
  "as_input b = \<lparr>currency_guid = bd_currency b, post_date = bd_post_date b, description = bd_description b,
     splits = map_option (map split_input.truncate) (bd_splits b)\<rparr>"

definition number_of :: "jsval \<Rightarrow> js_number" where
  "number_of v = (case v of JNum x \<Rightarrow> x | JNull \<Rightarrow> JFin 0 | _ \<Rightarrow> JNaN)"

definition optional_number :: "jsval \<Rightarrow> js_number option" where
  "optional_number v = (if v = JUndefined \<or> v = JNull then None else Some (number_of v))"

definition to_trade :: "body_split \<Rightarrow> trade_split" where
  "to_trade s = \<lparr>ts_guid = bs_guid s, ts_account = (case account_guid s of None \<Rightarrow> [] | Some a \<Rightarrow> a),
     ts_value_num = number_of (value_num s), ts_value_denom = number_of (value_denom s),
     ts_quantity_num = optional_number (bs_quantity_num s), ts_quantity_denom = optional_number (quantity_denom s),
     ts_memo = bs_memo s, ts_action = bs_action s, ts_state = reconcile_state s\<rparr>"

definition body_splits :: "tx_body \<Rightarrow> body_split list" where
  "body_splits b = (case bd_splits b of None \<Rightarrow> [] | Some ss \<Rightarrow> ss)"

definition text_or :: "string option \<Rightarrow> string \<Rightarrow> string" where
  "text_or v d = (case v of None \<Rightarrow> d | Some s \<Rightarrow> or_default s d)"

definition lockable :: "string option \<Rightarrow> lockable_date" where
  "lockable v = (case v of None \<Rightarrow> NoDate | Some s \<Rightarrow> DateString s)"

section \<open>The write\<close>

datatype save_error = SaveLocked period_error | OutOfBookSplit | SaveFailed

definition chosen_guid :: "string option \<Rightarrow> string \<Rightarrow> string" where
  "chosen_guid given fresh = (case given of None \<Rightarrow> fresh | Some g \<Rightarrow> if g \<noteq> [] \<and> isValidGuid g then g else fresh)"

definition post_split :: "(nat \<Rightarrow> string) \<Rightarrow> nat \<times> trade_split \<Rightarrow> trade_error + posted_split" where
  "post_split fresh is = (case is of (i, s) \<Rightarrow>
     bind_result (bigint_of (ts_value_num s)) (\<lambda>vn. bind_result (bigint_of (ts_value_denom s)) (\<lambda>vd.
     bind_result (bigint_of (the (ts_quantity_num s))) (\<lambda>qn. bind_result (bigint_of (the (ts_quantity_denom s))) (\<lambda>qd.
       Inr \<lparr>ps_guid = chosen_guid (ts_guid s) (fresh i), ps_account = ts_account s,
         ps_memo = text_or (ts_memo s) '''', ps_action = text_or (ts_action s) '''', ps_state = text_or (ts_state s) ''n'',
         ps_value = (vn, vd), ps_quantity = (qn, qd)\<rparr>)))))"

definition post_splits :: "(nat \<Rightarrow> string) \<Rightarrow> trade_split list \<Rightarrow> trade_error + posted_split list" where
  "post_splits fresh ss = map_result (post_split fresh) (List.enumerate 0 ss)"

definition is_note :: "string \<Rightarrow> slot_row \<Rightarrow> bool" where
  "is_note tx r \<longleftrightarrow> sl_obj r = tx \<and> sl_name r = ''notes''"

fun update_first :: "('a \<Rightarrow> bool) \<Rightarrow> ('a \<Rightarrow> 'a) \<Rightarrow> 'a list \<Rightarrow> 'a list" where
  "update_first P f [] = []"
| "update_first P f (x # xs) = (if P x then f x # xs else x # update_first P f xs)"

definition writeTransactionNotes :: "string \<Rightarrow> string option \<Rightarrow> slot_row list \<Rightarrow> slot_row list" where
  "writeTransactionNotes tx notes rs = (case notes of
      None \<Rightarrow> rs
    | Some n \<Rightarrow>
        if n = [] then filter (\<lambda>r. \<not> is_note tx r) rs
        else if list_ex (is_note tx) rs then update_first (is_note tx) (\<lambda>r. r\<lparr>sl_string := n\<rparr>) rs
        else rs @ [\<lparr>sl_obj = tx, sl_name = ''notes'', sl_string = n\<rparr>])"

definition guids_free :: "posted_tx \<Rightarrow> posted_tx list \<Rightarrow> bool" where
  "guids_free tx ts \<longleftrightarrow> pt_guid tx \<notin> pt_guid ` set ts \<and> distinct (map ps_guid (pt_splits tx)) \<and>
     list_all (\<lambda>s. \<forall>t \<in> set ts. ps_guid s \<notin> ps_guid ` set (pt_splits t)) (pt_splits tx)"

text \<open>What a rolled-back transaction leaves of the account table.\<close>

definition rolled_back :: "trading_state \<Rightarrow> trading_state \<Rightarrow> trading_state" where
  "rolled_back st0 st = st\<lparr>rows := filter (\<lambda>r. acc_guid r \<notin> inserted (scope st)) (rows st),
     scope := scope st0, book_accounts := book_accounts st0\<rparr>"

definition save_transaction ::
    "route_env \<Rightarrow> string \<Rightarrow> tx_body \<Rightarrow> string \<Rightarrow> string set \<Rightarrow> server_state
      \<Rightarrow> (save_error + posted_tx \<times> bool) \<times> server_state" where
  "save_transaction env book b txGuid guids s =
     (case assertNotLocked (clock env) (settings_inside env) book [lockable (bd_post_date b)] True (sv_locks s) of
       (Inl e, locks) \<Rightarrow> (Inl (SaveLocked e), s\<lparr>sv_locks := locks\<rparr>)
     | (Inr _, locks) \<Rightarrow>
         let s1 = s\<lparr>sv_locks := locks\<rparr>
         in (case processMultiCurrencySplits (Transaction True) (walk env) (commodity_of env) (template_commodity env)
               (map to_trade (body_splits b)) ((sv_walk s)\<lparr>scope := newScope, book_accounts := guids\<rparr>) of
             (Inl e, st) \<Rightarrow> (Inl SaveFailed, s1\<lparr>sv_walk := rolled_back (sv_walk s) st\<rparr>)
           | (Inr (multi, allSplits), st) \<Rightarrow>
               if list_ex (\<lambda>t. ts_account t \<notin> book_accounts st) allSplits
               then (Inl OutOfBookSplit, s1\<lparr>sv_walk := rolled_back (sv_walk s) st\<rparr>)
               else (case post_splits (fresh_split_guid env) allSplits of
                   Inl e \<Rightarrow> (Inl SaveFailed, s1\<lparr>sv_walk := rolled_back (sv_walk s) st\<rparr>)
                 | Inr ps \<Rightarrow>
                     let tx = \<lparr>pt_guid = txGuid, pt_currency = text_or (bd_currency b) '''', pt_num = text_or (bd_num b) '''',
                           pt_post_date = text_or (bd_post_date b) '''', pt_description = text_or (bd_description b) '''',
                           pt_splits = ps\<rparr>
                     in if \<not> guids_free tx (sv_ledger s) \<or> \<not> db_accepts env tx
                        then (Inl SaveFailed, s1\<lparr>sv_walk := rolled_back (sv_walk s) st\<rparr>)
                        else (Inr (tx, multi), s1\<lparr>sv_walk := st\<lparr>scope := scope (sv_walk s), book_accounts := book_accounts (sv_walk s)\<rparr>,
                            sv_ledger := sv_ledger s @ [tx],
                            sv_slots := writeTransactionNotes txGuid (bd_notes b) (sv_slots s)\<rparr>))))"

definition NOT_IN_BOOK :: string where
  "NOT_IN_BOOK = ''One or more accounts not found in this book''"

definition error_reply :: "save_error \<Rightarrow> post_reply" where
  "error_reply e = (case e of
      OutOfBookSplit \<Rightarrow> Refused 404 NOT_IN_BOOK
    | SaveLocked l \<Rightarrow> Refused 400 (periodLockedMessage l)
    | SaveFailed \<Rightarrow> Refused 500 ''Failed to create transaction'')"

text \<open>A body that is no JSON is \<open>None\<close>: reading it throws.\<close>

definition transactions_POST :: "route_env \<Rightarrow> tx_body option \<Rightarrow> server_state \<Rightarrow> post_reply \<times> server_state" where
  "transactions_POST env body s =
     (case role env of
       Inl reply \<Rightarrow> (reply, s)
     | Inr book \<Rightarrow>
       (case body of
         None \<Rightarrow> (error_reply SaveFailed, s)
       | Some b \<Rightarrow>
         let errors = transaction_errors (date_ok env) (as_input b)
         in if errors \<noteq> [] then (Refused 400 (summarizeValidationErrors errors), s)
         else (case withPeriodLockCheck (clock env) (settings_before env) book [lockable (bd_post_date b)] False (sv_locks s) of
             (Some (code, message, _), locks) \<Rightarrow> (Refused code message, s\<lparr>sv_locks := locks\<rparr>)
           | (None, locks) \<Rightarrow>
               let s1 = s\<lparr>sv_locks := locks\<rparr>;
                 uniqueAccountGuids = remdups (map (\<lambda>t. ts_account (to_trade t)) (body_splits b));
                 bookAccountGuids = set (accounts_of_book env book)
               in if bookAccountGuids = {} \<or> list_ex (\<lambda>g. g \<notin> bookAccountGuids) uniqueAccountGuids
                  then (Refused 404 NOT_IN_BOOK, s1)
                  else (case save_transaction env book b (chosen_guid (bd_guid b) (fresh_tx_guid env)) bookAccountGuids s1 of
                      (Inl e, s2) \<Rightarrow> (error_reply e, s2)
                    | (Inr (tx, multi), s2) \<Rightarrow>
                        (Created tx multi, s2\<lparr>sv_effects := sv_effects s2 @
                          [AuditCreate (pt_guid tx) multi (length (pt_splits tx)), DropCachesFrom (pt_post_date tx),
                           PublishTransaction (pt_guid tx)]\<rparr>)))))"

section \<open>What a stored transaction sums to\<close>

definition posted_sum :: "posted_split list \<Rightarrow> rat" where
  "posted_sum ps = sum_list (map (\<lambda>p. of_int (fst (ps_value p)) / of_int (snd (ps_value p))) ps)"

definition posted_balanced :: "posted_tx \<Rightarrow> bool" where
  "posted_balanced tx \<longleftrightarrow> posted_sum (pt_splits tx) = 0 \<and> list_all (\<lambda>p. snd (ps_value p) \<noteq> 0) (pt_splits tx)"

lemma post_split_facts:
  "post_split fresh (i, s) = Inr p \<Longrightarrow> ps_account p = ts_account s \<and>
     exact_number (ts_value_num s) = Some (fst (ps_value p)) \<and> exact_number (ts_value_denom s) = Some (snd (ps_value p))"
  by (auto simp: post_split_def bind_result_Inr_iff)

lemma post_splits_facts:
  "post_splits fresh ss = Inr ps \<Longrightarrow> list_all2 (\<lambda>s p. ps_account p = ts_account s \<and>
     exact_number (ts_value_num s) = Some (fst (ps_value p)) \<and>
     exact_number (ts_value_denom s) = Some (snd (ps_value p))) ss ps"
  unfolding post_splits_def map_result_Inr_iff
  by (auto simp: list_all2_conv_all_nth nth_enumerate_eq dest!: post_split_facts)

lemma posted_sum_value_sum:
  assumes "list_all2 (\<lambda>s p. ps_account p = ts_account s \<and> exact_number (ts_value_num s) = Some (fst (ps_value p)) \<and>
     exact_number (ts_value_denom s) = Some (snd (ps_value p))) ss ps"
    and "value_sum (map vals ss) = Some v"
  shows "posted_sum ps = v \<and> list_all (\<lambda>p. snd (ps_value p) \<noteq> 0) ps"
  using assms
  by (induction arbitrary: v rule: list_all2_induct)
    (auto simp: posted_sum_def vals_def split: option.splits if_splits)

lemma body_value_sum:
  assumes "list_all2 (\<lambda>s p. ps_account p = ts_account s \<and> exact_number (ts_value_num s) = Some (fst (ps_value p)) \<and>
     exact_number (ts_value_denom s) = Some (snd (ps_value p))) (map filled (map to_trade bs)) ps"
    and "ledger_sum bs = Some v"
  shows "value_sum (map vals (map filled (map to_trade bs))) = Some v"
  using assms
proof (induction bs arbitrary: ps v)
  case (Cons b bs)
  obtain p ps' where ps: "ps = p # ps'" using Cons.prems(1) by (auto simp: list_all2_Cons1)
  obtain n d w where b: "exact_int (value_num b) = Some n" "exact_int (value_denom b) = Some d" "d \<noteq> 0"
    "ledger_sum bs = Some w" "v = of_int n / of_int d + w"
    using Cons.prems(2) by (auto simp: split_value_def split: option.splits if_splits)
  have same: "i = j" if "exact_int x = Some i" "exact_number (number_of x) = Some j" for x i j
    using that by (auto simp: exact_int_def exact_number_def number_of_def split: jsval.splits js_number.splits if_splits)
  have f: "exact_number (number_of (value_num b)) = Some n" "exact_number (number_of (value_denom b)) = Some d"
    using Cons.prems(1) same [OF b(1)] same [OF b(2)] by (auto simp: ps filled_def to_trade_def)
  have ih: "value_sum (map vals (map filled (map to_trade bs))) = Some w"
    using Cons.IH [OF _ b(4), of ps'] Cons.prems(1) by (simp add: ps)
  have v: "vals (filled (to_trade b)) = (number_of (value_num b), number_of (value_denom b))"
    by (simp add: vals_def to_trade_def filled_def)
  show ?case unfolding list.map v value_sum.simps f ih using b(3,5) by simp
qed simp

text \<open>What a commit of the route tells about the transaction it stored.\<close>

lemma save_transaction_Inr:
  assumes "save_transaction env book b g guids s = (Inr (tx, multi), s')"
  obtains st all where
    "processMultiCurrencySplits (Transaction True) (walk env) (commodity_of env) (template_commodity env)
       (map to_trade (body_splits b)) ((sv_walk s)\<lparr>scope := newScope, book_accounts := guids\<rparr>) = (Inr (multi, all), st)"
    "list_all (\<lambda>t. ts_account t \<in> book_accounts st) all" "post_splits (fresh_split_guid env) all = Inr (pt_splits tx)"
    "guids_free tx (sv_ledger s)" "sv_ledger s' = sv_ledger s @ [tx]" "pt_guid tx = g" "pt_post_date tx = text_or (bd_post_date b) ''''"
    "findLockedDate (queried_lock_date (settings_inside env) book) [lockable (bd_post_date b)] = None"
  using assms
  by (auto simp: save_transaction_def assertNotLocked_def getCachedLockDate_def Let_def list_ex_iff list_all_iff
      split: prod.splits sum.splits if_splits)

lemma save_transaction_Inl:
  "save_transaction env book b g guids s = (Inl e, s') \<Longrightarrow> sv_ledger s' = sv_ledger s \<and> sv_slots s' = sv_slots s"
  by (auto simp: save_transaction_def Let_def split: prod.splits sum.splits if_splits)

lemma process_single:
  "processMultiCurrencySplits tx env commodities template ss st = (Inr (False, all), st') \<Longrightarrow> all = map filled ss"
  by (auto simp: processMultiCurrencySplits_def Let_def bind_result_Inr_iff split: if_splits prod.splits sum.splits)

section \<open>The quick-add client against this server\<close>

definition body_of_split :: "request_split \<Rightarrow> body_split" where
  "body_of_split s = \<lparr>value_num = value_num s, value_denom = value_denom s, account_guid = account_guid s,
     quantity_denom = quantity_denom s, reconcile_state = reconcile_state s, bs_guid = Some (rs_guid s),
     bs_quantity_num = quantity_num s, bs_memo = None, bs_action = None\<rparr>"

definition body_of_request :: "create_request \<Rightarrow> tx_body" where
  "body_of_request r = \<lparr>bd_guid = Some (rq_guid r), bd_currency = Some (rq_currency r), bd_num = None,
     bd_post_date = Some (rq_post_date r), bd_description = Some (rq_description r), bd_notes = None,
     bd_splits = Some (map body_of_split (rq_splits r))\<rparr>"

definition json_error :: "string \<Rightarrow> string" where
  "json_error m = CHR ''{'' # CHR 0x22 # ''error'' @ [CHR 0x22, CHR '':'', CHR 0x22] @ m @ [CHR 0x22, CHR ''}'']"

definition server_response :: "post_reply \<Rightarrow> http_response" where
  "server_response r = (case r of Created tx multi \<Rightarrow> Response 201 None | Refused code m \<Rightarrow> Response code (Some (json_error m)))"

text \<open>The tag route is not modelled: any function of the state.\<close>

definition server ::
    "(string \<Rightarrow> string list \<Rightarrow> server_state \<Rightarrow> http_response \<times> server_state) \<Rightarrow> route_env
      \<Rightarrow> http_request \<Rightarrow> server_state \<Rightarrow> http_response \<times> server_state" where
  "server put_tags env request s = (case request of
      PostTransaction r \<Rightarrow>
        (case transactions_POST env (Some (body_of_request r)) s of (reply, s') \<Rightarrow> (server_response reply, s'))
    | PutTags g tags \<Rightarrow> put_tags g tags s)"

section \<open>Properties of the route\<close>

lemma save_balanced:
  assumes "save_transaction env book b g guids s = (Inr (tx, multi), s')" "ledger_sum (body_splits b) = Some 0"
  shows "posted_balanced tx"
proof -
  obtain st all where run: "processMultiCurrencySplits (Transaction True) (walk env) (commodity_of env) (template_commodity env)
       (map to_trade (body_splits b)) ((sv_walk s)\<lparr>scope := newScope, book_accounts := guids\<rparr>) = (Inr (multi, all), st)"
    and ps: "post_splits (fresh_split_guid env) all = Inr (pt_splits tx)"
    by (rule save_transaction_Inr [OF assms(1)])
  note facts = post_splits_facts [OF ps]
  have "value_sum (map vals all) = Some 0"
  proof (cases multi)
    case True
    then have "multi = True" by simp
    from process_balanced [OF run [unfolded this]] show ?thesis .
  next
    case False
    then have "multi = False" by simp
    from process_single [OF run [unfolded this]] have all: "all = map filled (map to_trade (body_splits b))" .
    show ?thesis unfolding all by (rule body_value_sum [OF facts [unfolded all] assms(2)])
  qed
  from posted_sum_value_sum [OF facts this] show ?thesis by (simp add: posted_balanced_def)
qed

lemma ledger_sum_truncate: "ledger_sum (map split_input.truncate bs) = ledger_sum bs"
  by (induction bs) (simp_all add: split_value_def split_input.truncate_def)

lemma POST_cases:
  assumes "transactions_POST env body s = (reply, s')" "role env = Inr book"
  obtains (refused) code m where "reply = Refused code m" "sv_ledger s' = sv_ledger s" "sv_slots s' = sv_slots s"
  | (created) b tx multi s1 s2 where "body = Some b" "reply = Created tx multi" "transaction_ok (date_ok env) (as_input b)"
      "sv_ledger s1 = sv_ledger s"
      "save_transaction env book b (chosen_guid (bd_guid b) (fresh_tx_guid env)) (set (accounts_of_book env book)) s1 = (Inr (tx, multi), s2)"
      "sv_ledger s' = sv_ledger s2"
proof (cases body)
  case None
  then show ?thesis using assms refused by (auto simp: transactions_POST_def error_reply_def)
next
  case (Some b)
  obtain locked locks where w: "withPeriodLockCheck (clock env) (settings_before env) book [lockable (bd_post_date b)] False (sv_locks s)
      = (locked, locks)" by fastforce
  let ?s1 = "s\<lparr>sv_locks := locks\<rparr>"
  obtain res s2 where sv: "save_transaction env book b (chosen_guid (bd_guid b) (fresh_tx_guid env))
      (set (accounts_of_book env book)) ?s1 = (res, s2)" by fastforce
  show ?thesis
  proof (cases "transaction_errors (date_ok env) (as_input b) = [] \<and> locked = None \<and> set (accounts_of_book env book) \<noteq> {} \<and>
      \<not> list_ex (\<lambda>g. g \<notin> set (accounts_of_book env book)) (remdups (map (\<lambda>t. ts_account (to_trade t)) (body_splits b)))")
    case False
    then show ?thesis using assms w Some refused
      by (auto simp: transactions_POST_def Let_def split: if_splits option.splits)
  next
    case True
    show ?thesis
    proof (cases res)
      case (Inl e)
      then show ?thesis using True assms w Some sv refused save_transaction_Inl [of env book b _ _ ?s1 e s2]
        by (auto simp: transactions_POST_def Let_def error_reply_def split: save_error.splits)
    next
      case (Inr r)
      obtain tx multi where r: "r = (tx, multi)" by fastforce
      show ?thesis
        by (rule created [of b tx multi ?s1 s2])
          (use True assms w Some sv Inr r transaction_errors_Nil_iff in \<open>auto simp: transactions_POST_def Let_def\<close>)
    qed
  qed
qed



section \<open>A save that goes through\<close>

definition guid_of :: "char \<Rightarrow> string" where
  "guid_of c = replicate 32 c"

definition demo_body_split :: "string \<Rightarrow> string \<Rightarrow> int \<Rightarrow> body_split" where
  "demo_body_split guid account n = \<lparr>value_num = JNum (JFin (of_int n)), value_denom = JNum (JFin 100),
     account_guid = Some account, quantity_denom = JNum (JFin 100), reconcile_state = Some ''n'',
     bs_guid = Some guid, bs_quantity_num = JNum (JFin (of_int n)), bs_memo = None, bs_action = None\<rparr>"

definition demo_body :: tx_body where
  "demo_body = \<lparr>bd_guid = Some (guid_of CHR ''1''), bd_currency = Some (guid_of CHR ''e''), bd_num = None,
     bd_post_date = Some ''2026-03-01'', bd_description = Some ''Lunch'', bd_notes = Some ''cash'',
     bd_splits = Some [demo_body_split (guid_of CHR ''2'') (guid_of CHR ''a'') (-1250),
       demo_body_split (guid_of CHR ''3'') (guid_of CHR ''b'') 1250]\<rparr>"

definition demo_route :: route_env where
  "demo_route = \<lparr>role = Inr ''book'', clock = 0, date_ok = (\<lambda>_. True),
     settings_before = (\<lambda>_. Some (DateString ''2025-12-31'')), settings_inside = (\<lambda>_. Some (DateString ''2025-12-31'')),
     accounts_of_book = (\<lambda>_. [guid_of CHR ''0'', guid_of CHR ''a'', guid_of CHR ''b'']), walk = demo_env,
     commodity_of = demo_commodities, template_commodity = None, fresh_tx_guid = guid_of CHR ''9'',
     fresh_split_guid = (\<lambda>i. guid_of CHR ''8''), db_accepts = (\<lambda>_. True)\<rparr>"

definition demo_server :: server_state where
  "demo_server = \<lparr>sv_walk = demo_state\<lparr>rows := [demo_account (guid_of CHR ''0'') ''Root'' ''ROOT'' '''',
       demo_account (guid_of CHR ''a'') ''Bank'' ''BANK'' ''usd'', demo_account (guid_of CHR ''b'') ''Food'' ''EXPENSE'' ''usd'']\<rparr>,
     sv_ledger = [], sv_slots = [], sv_locks = (\<lambda>_. None), sv_effects = []\<rparr>"

lemma guid_of_eq [simp]: "guid_of c = guid_of d \<longleftrightarrow> c = d" "guid_of c \<noteq> []"
  by (simp_all add: guid_of_def numeral_eq_Suc)

lemma isValidGuid_guid_of: "is_hex c \<Longrightarrow> isValidGuid (guid_of c)"
  by (simp add: isValidGuid_def guid_of_def list_all_iff)

lemma demo_valid: "transaction_errors (\<lambda>_. True) (as_input demo_body) = []"
  unfolding transaction_errors_Nil_iff
  by (simp add: transaction_ok_def as_input_def demo_body_def demo_body_split_def split_input.truncate_def split_ok_def
      isValidGuid_guid_of is_hex_def is_digit_def falsy_def missing_def split_value_def exact_int_def is_safe_integer_def)
    code_simp

lemma demo_created:
  "\<exists>tx s'. transactions_POST demo_route (Some demo_body) demo_server = (Created tx False, s')"
proof -
  have single: "processMultiCurrencySplits (Transaction True) demo_env demo_commodities None (map to_trade (body_splits demo_body))
      ((sv_walk demo_server)\<lparr>scope := newScope, book_accounts := {guid_of CHR ''0'', guid_of CHR ''a'', guid_of CHR ''b''}\<rparr>) =
    (Inr (False, map filled (map to_trade (body_splits demo_body))),
     (sv_walk demo_server)\<lparr>scope := newScope, book_accounts := {guid_of CHR ''0'', guid_of CHR ''a'', guid_of CHR ''b''}\<rparr>)"
    by (simp add: processMultiCurrencySplits_def needsTradingAccounts_def with_commodity_def body_splits_def demo_body_def
        to_trade_def demo_body_split_def demo_server_def demo_account_def trading_row_def Let_def)
  have posts: "\<exists>p q. post_splits (\<lambda>i. guid_of CHR ''8'') (map filled (map to_trade (body_splits demo_body))) = Inr [p, q] \<and>
      ps_guid p = guid_of CHR ''2'' \<and> ps_guid q = guid_of CHR ''3''"
    by (simp add: post_splits_def body_splits_def demo_body_def to_trade_def demo_body_split_def filled_def number_of_def
        optional_number_def post_split_def bigint_of_def chosen_guid_def isValidGuid_guid_of is_hex_def is_digit_def)
  have lock: "withPeriodLockCheck 0 (\<lambda>_. Some (DateString ''2025-12-31'')) ''book'' [lockable (bd_post_date demo_body)] False (\<lambda>_. None) =
      (None, (\<lambda>_. None)(''book'' \<mapsto> \<lparr>cl_lock_date = Some ''2025-12-31'', cl_expires_at = 1000\<rparr>))"
    by (simp add: withPeriodLockCheck_def assertNotLocked_def getCachedLockDate_def queried_lock_date_def toIsoDateString_def
        findLockedDate_def demo_body_def lockable_def LOCK_CACHE_TTL_MS_def less_eq_char_def less_char_def)
  have lock_inside: "\<exists>c'. assertNotLocked 0 (\<lambda>_. Some (DateString ''2025-12-31'')) ''book'' [lockable (bd_post_date demo_body)] True c
      = (Inr (), c')" for c
    by (simp add: assertNotLocked_def getCachedLockDate_def queried_lock_date_def toIsoDateString_def
        findLockedDate_def demo_body_def lockable_def less_eq_char_def less_char_def)
  have accounts: "map ts_account (map filled (map to_trade (body_splits demo_body))) = [guid_of CHR ''a'', guid_of CHR ''b'']"
    "map (\<lambda>t. ts_account (to_trade t)) (body_splits demo_body) = [guid_of CHR ''a'', guid_of CHR ''b'']"
    by (simp_all add: body_splits_def demo_body_def to_trade_def demo_body_split_def filled_def)
  obtain p q where pq: "post_splits (\<lambda>i. guid_of CHR ''8'') (map filled (map to_trade (body_splits demo_body))) = Inr [p, q]"
    "ps_guid p = guid_of CHR ''2''" "ps_guid q = guid_of CHR ''3''" using posts by blast
  have outside: "\<not> list_ex (\<lambda>t. ts_account t \<notin> {guid_of CHR ''0'', guid_of CHR ''a'', guid_of CHR ''b''})
      (map filled (map to_trade (body_splits demo_body)))"
    by (simp add: body_splits_def demo_body_def to_trade_def demo_body_split_def filled_def)
  obtain c where c: "assertNotLocked 0 (\<lambda>_. Some (DateString ''2025-12-31'')) ''book'' [lockable (bd_post_date demo_body)] True
      ((\<lambda>_. None)(''book'' \<mapsto> \<lparr>cl_lock_date = Some ''2025-12-31'', cl_expires_at = 1000\<rparr>)) = (Inr (), c)"
    using lock_inside by blast
  have ledger: "sv_ledger demo_server = []" "sv_locks demo_server = (\<lambda>_. None)" by (simp_all add: demo_server_def)
  show ?thesis
    using demo_valid single lock pq outside c accounts(2) ledger
    by (simp add: transactions_POST_def demo_route_def save_transaction_def Let_def guids_free_def)
qed



section \<open>A replayed request\<close>

lemma save_duplicate:
  assumes "g \<in> pt_guid ` set (sv_ledger s)"
    and "findLockedDate (queried_lock_date (settings_inside env) book) [lockable (bd_post_date b)] = None"
  shows "\<exists>s'. save_transaction env book b g guids s = (Inl SaveFailed, s') \<and> sv_ledger s' = sv_ledger s \<or>
     save_transaction env book b g guids s = (Inl OutOfBookSplit, s') \<and> sv_ledger s' = sv_ledger s"
proof -
  have lock: "\<exists>c. assertNotLocked (clock env) (settings_inside env) book [lockable (bd_post_date b)] True (sv_locks s) = (Inr (), c)"
    using assms(2) by (simp add: assertNotLocked_def getCachedLockDate_def)
  obtain res s' where run: "save_transaction env book b g guids s = (res, s')" by fastforce
  show ?thesis
  proof (cases res)
    case (Inl e)
    moreover have "e \<noteq> SaveLocked l" for l
      using run Inl lock by (auto simp: save_transaction_def Let_def split: prod.splits sum.splits if_splits)
    ultimately show ?thesis using run save_transaction_Inl [of env book b g guids s e s'] by (cases e) auto
  next
    case (Inr r)
    obtain tx multi where r: "r = (tx, multi)" by fastforce
    have "guids_free tx (sv_ledger s)" "pt_guid tx = g"
      by (rule save_transaction_Inr [OF run [unfolded Inr r]], assumption)+
    then show ?thesis using assms(1) by (simp add: guids_free_def)
  qed
qed

lemma error_bodies_not_synced:
  "\<not> ALREADY_SYNCED_RE (json_error ''Failed to create transaction'')" "\<not> ALREADY_SYNCED_RE (json_error NOT_IN_BOOK)"
  by code_simp+

text \<open>
  A replayed request is never recognised: the queue's comment says that the server rejects a
  guid it has already stored in a way the client takes for synced, but the handler answers with
  a general error, so that an item whose first answer was lost is marked failed however often
  it is posted again. (The checks before the write pass as they did the first time.)
\<close>
theorem replayed_request_reported_failed:
  assumes "role env = Inr book" "isValidGuid (rq_guid r)" "rq_guid r \<in> pt_guid ` set (sv_ledger s)"
    and "transaction_ok (date_ok env) (as_input (body_of_request r))"
    and "fst (withPeriodLockCheck (clock env) (settings_before env) book [DateString (rq_post_date r)] False (sv_locks s)) = None"
    and "findLockedDate (queried_lock_date (settings_inside env) book) [DateString (rq_post_date r)] = None"
  shows "\<exists>e s'. postQuickAdd (server put_tags env) r tags s = (NotSynced e, s') \<and> sv_ledger s' = sv_ledger s"
proof -
  let ?b = "body_of_request r" and ?guids = "set (accounts_of_book env book)"
  have d: "lockable (bd_post_date ?b) = DateString (rq_post_date r)" by (simp add: lockable_def body_of_request_def)
  have g: "chosen_guid (bd_guid ?b) (fresh_tx_guid env) = rq_guid r"
    using assms(2) valid_guid_not_missing [OF assms(2)] by (simp add: chosen_guid_def body_of_request_def)
  obtain locks where w: "withPeriodLockCheck (clock env) (settings_before env) book [lockable (bd_post_date ?b)] False (sv_locks s) = (None, locks)"
    using assms(5) d by (metis prod.collapse)
  obtain s2 where sv: "save_transaction env book ?b (rq_guid r) ?guids (s\<lparr>sv_locks := locks\<rparr>) = (Inl SaveFailed, s2) \<and> sv_ledger s2 = sv_ledger s \<or>
     save_transaction env book ?b (rq_guid r) ?guids (s\<lparr>sv_locks := locks\<rparr>) = (Inl OutOfBookSplit, s2) \<and> sv_ledger s2 = sv_ledger s"
    using save_duplicate [of "rq_guid r" "s\<lparr>sv_locks := locks\<rparr>" env book ?b ?guids] assms(3,6) d by auto
  have "\<exists>s'. (transactions_POST env (Some ?b) s = (Refused 500 ''Failed to create transaction'', s') \<or>
      transactions_POST env (Some ?b) s = (Refused 404 NOT_IN_BOOK, s')) \<and> sv_ledger s' = sv_ledger s"
    using assms(1,4) w sv transaction_errors_Nil_iff [of "date_ok env" "as_input ?b"]
    by (auto simp: transactions_POST_def Let_def g error_reply_def)
  then obtain s' where "(transactions_POST env (Some ?b) s = (Refused 500 ''Failed to create transaction'', s') \<or>
      transactions_POST env (Some ?b) s = (Refused 404 NOT_IN_BOOK, s'))" "sv_ledger s' = sv_ledger s" by blast
  then show ?thesis using error_bodies_not_synced
    by (auto simp: postQuickAdd_def server_def server_response_def res_ok_def Let_def)
qed

definition demo_quick :: create_request where
  "demo_quick = \<lparr>rq_guid = guid_of CHR ''1'', rq_currency = guid_of CHR ''e'', rq_post_date = ''2026-03-01'',
     rq_description = ''Quick add'',
     rq_splits = [quick_split (guid_of CHR ''2'') (guid_of CHR ''a'') (JFin (-1250)) (JFin 100),
       quick_split (guid_of CHR ''3'') (guid_of CHR ''b'') (JFin 1250) (JFin 100)]\<rparr>"

definition demo_posted :: posted_tx where
  "demo_posted = \<lparr>pt_guid = guid_of CHR ''1'', pt_currency = guid_of CHR ''e'', pt_num = '''', pt_post_date = ''2026-03-01'',
     pt_description = ''Quick add'', pt_splits = []\<rparr>"

theorem replayed_request_reported_failed_witness:
  "\<exists>e s'. postQuickAdd (server (\<lambda>g tags s. (Response 200 None, s)) demo_route) demo_quick [] (demo_server\<lparr>sv_ledger := [demo_posted]\<rparr>)
     = (NotSynced e, s')"
proof -
  let ?s = "demo_server\<lparr>sv_ledger := [demo_posted]\<rparr>"
  have "role demo_route = Inr ''book''" by (simp add: demo_route_def)
  moreover have "isValidGuid (rq_guid demo_quick)" by (simp add: demo_quick_def isValidGuid_guid_of is_hex_def is_digit_def)
  moreover have "rq_guid demo_quick \<in> pt_guid ` set (sv_ledger ?s)" by (simp add: demo_quick_def demo_posted_def)
  moreover have "transaction_ok (date_ok demo_route) (as_input (body_of_request demo_quick))"
    by (simp add: transaction_ok_def as_input_def demo_route_def body_of_request_def demo_quick_def body_of_split_def quick_split_def
        split_input.truncate_def split_ok_def isValidGuid_guid_of is_hex_def is_digit_def falsy_def missing_def split_value_def
        exact_int_def is_safe_integer_def) code_simp
  moreover have "fst (withPeriodLockCheck (clock demo_route) (settings_before demo_route) ''book''
      [DateString (rq_post_date demo_quick)] False (sv_locks ?s)) = None"
    by (simp add: withPeriodLockCheck_def assertNotLocked_def getCachedLockDate_def queried_lock_date_def toIsoDateString_def
        findLockedDate_def demo_route_def demo_quick_def demo_server_def less_eq_char_def less_char_def)
  moreover have "findLockedDate (queried_lock_date (settings_inside demo_route) ''book'') [DateString (rq_post_date demo_quick)] = None"
    by (simp add: queried_lock_date_def toIsoDateString_def findLockedDate_def demo_route_def demo_quick_def
        less_eq_char_def less_char_def)
  ultimately show ?thesis
    using replayed_request_reported_failed [of demo_route "''book''" demo_quick ?s "\<lambda>g tags s. (Response 200 None, s)" "[]"] by blast
qed

section \<open>A save after the first multi-currency save\<close>

text \<open>
  The tables after a first save made the Trading accounts, while the handler still works with
  the account list cached before it.
\<close>

definition stale_walk :: trading_state where
  "stale_walk = demo_state\<lparr>rows := rows demo_state @
     [trading_row ''t'' ''Trading'' ''usd'' ''r'' 1, trading_row ''tc'' ''CURRENCY'' ''usd'' ''t'' 1,
      trading_row ''te'' ''EUR'' ''eur'' ''tc'' 0, trading_row ''tu'' ''USD'' ''usd'' ''tc'' 0]\<rparr>"

lemma stale_trade_ok: "trade_ok demo_env (demo_account ''r'' ''Root'' ''ROOT'' '''') stale_walk"
proof -
  have "findFirst (is_root (book_accounts stale_walk)) (rows stale_walk) = Some (demo_account ''r'' ''Root'' ''ROOT'' '''')"
    by (simp add: findFirst_def stable_sort_def stale_walk_def demo_state_def demo_account_def trading_row_def is_root_def)
  moreover have "inj (newGuids demo_env)"
    by (rule injI) (metis demo_env_def length_replicate nat.inject walk_env.select_convs(3))
  ultimately show ?thesis
    by (auto simp: trade_ok_def arrivals_def demo_env_def stale_walk_def demo_state_def demo_account_def trading_row_def Cons_replicate_eq)
qed

lemma stale_leaf:
  assumes "held (scope st) = [] \<or> key (hd (held (scope st))) = ''account:r:Trading''" "rows st = rows stale_walk"
    "book_accounts st = book_accounts stale_walk" "m = ''EUR'' \<and> leaf = ''te'' \<or> m = ''USD'' \<and> leaf = ''tu''"
  shows "\<exists>st'. getOrCreateTradingAccountWithin (Transaction True) demo_env k None g m ''CURRENCY'' st = (Inr leaf, st') \<and>
    key (hd (held (scope st'))) = ''account:r:Trading'' \<and> held (scope st') \<noteq> [] \<and> rows st' = rows stale_walk \<and>
    book_accounts st' = book_accounts stale_walk"
proof -
  have grant: "granted (accountNameLockKey ''r'' ''Trading'') \<lparr>book_root = ''r'', path = [''Trading'']\<rparr> (scope st)"
    using assms(1) by (cases "held (scope st)") (auto simp: granted_def holds_key_def accountNameLockKey_def)
  have claim: "acquireAccountNameLock (Transaction True) i ''r'' ''Trading'' \<lparr>book_root = ''r'', path = [''Trading'']\<rparr> None (scope st) =
      (Inr True, push_held \<lparr>ident = i, key = accountNameLockKey ''r'' ''Trading'', order = Some \<lparr>book_root = ''r'', path = [''Trading'']\<rparr>\<rparr> (scope st))"
    for i using claim_granted [OF grant] by simp
  show ?thesis
    using assms claim
    by (auto simp: getOrCreateTradingAccountWithin_def ensureLevel_def claimLevel_def findFirst_def stable_sort_def stale_walk_def
        demo_state_def demo_account_def trading_row_def is_root_def is_trading_root_def is_trading_child_def sibling_def
        demo_env_def tradingAccountLockOrder_def TRADING_ROOT_NAME_def Let_def accountNameLockKey_def hd_append)
qed

end
