(* ===== verification/Invoice_Totals.thy ===== *)
theory Invoice_Totals
  imports Js_Number Js_Calendar
begin

text \<open>
  The arithmetic of invoices and bills (src/lib/business/invoice-totals.ts): the value of an
  entry with its discount and taxes, the totals of a document, the splits that post it,
  the allocation of a payment over open documents and the splits of the payment, due dates
  and the status. Amounts are the source's doubles. The id counter is left out.
\<close>

section \<open>Types\<close>

datatype invoice_kind = InvoiceKind | BillKind
datatype amount_type = VALUE | PERCENT
datatype discount_how = PRETAX | SAMETIME | POSTTAX

record tax_entry =
  te_account :: string
  te_type :: amount_type
  te_amount :: js_number

record tax_table =
  tt_guid :: string
  tt_entries :: "tax_entry list"

record entry_line =
  el_account :: string
  el_description :: "string option"
  el_quantity :: js_number
  el_price :: js_number
  el_discount :: "js_number option"
  el_discount_type :: "amount_type option"
  el_discount_how :: "discount_how option"
  el_taxable :: "bool option"
  el_tax_included :: bool
  el_tax_table :: "tax_table option"

record computed_entry =
  ce_subtotal :: js_number
  ce_discount :: js_number
  ce_net :: js_number
  ce_taxes :: "(string \<times> js_number) list"
  ce_tax_total :: js_number
  ce_gross :: js_number

record invoice_totals =
  it_subtotal :: js_number
  it_discount :: js_number
  it_tax :: js_number
  it_total :: js_number
  it_entries :: "computed_entry list"
  it_tax_by_account :: "(string \<times> js_number) list"

section \<open>Entries and totals\<close>

definition roundCurrency :: "js_number \<Rightarrow> js_number \<Rightarrow> js_number" where
  "roundCurrency value fraction =
     (let sign = JFin (if js_less value (JFin 0) then -1 else 1)
      in js_div (js_mul sign (js_round (js_mul (js_abs value) fraction))) fraction)"

text \<open>The tax table in force, empty for none.\<close>

definition entry_table :: "entry_line \<Rightarrow> tax_entry list" where
  "entry_table line = (if el_taxable line = Some False then []
     else case el_tax_table line of None \<Rightarrow> [] | Some t \<Rightarrow> tt_entries t)"

definition tax_percent :: "tax_entry list \<Rightarrow> js_number" where
  "tax_percent table = js_div (foldl js_add (JFin 0) (map te_amount (filter (\<lambda>e. te_type e = PERCENT) table))) (JFin 100)"

definition tax_value :: "tax_entry list \<Rightarrow> js_number" where
  "tax_value table = foldl js_add (JFin 0) (map te_amount (filter (\<lambda>e. te_type e \<noteq> PERCENT) table))"

definition entry_pretax :: "entry_line \<Rightarrow> js_number" where
  "entry_pretax line =
     (let aggregate = js_mul (el_quantity line) (el_price line); table = entry_table line
      in if table \<noteq> [] \<and> el_tax_included line
         then js_div (js_sub aggregate (tax_value table)) (js_add (JFin 1) (tax_percent table))
         else aggregate)"

definition entry_discount_how :: "entry_line \<Rightarrow> discount_how" where
  "entry_discount_how line = (case el_discount_how line of None \<Rightarrow> PRETAX | Some h \<Rightarrow> h)"

definition entry_discount :: "entry_line \<Rightarrow> js_number" where
  "entry_discount line =
     (let pretax = entry_pretax line; table = entry_table line;
          discAmt = (case el_discount line of None \<Rightarrow> JFin 0 | Some d \<Rightarrow> d)
      in if js_eq discAmt (JFin 0) then JFin 0
         else if el_discount_type line = None \<or> el_discount_type line = Some VALUE then discAmt
         else if entry_discount_how line = POSTTAX
         then (let taxOnPretax = (if table \<noteq> [] then js_add (js_mul pretax (tax_percent table)) (tax_value table) else JFin 0)
               in js_div (js_mul (js_add pretax taxOnPretax) discAmt) (JFin 100))
         else js_div (js_mul pretax discAmt) (JFin 100))"

definition entry_net :: "entry_line \<Rightarrow> js_number" where
  "entry_net line = js_sub (entry_pretax line) (entry_discount line)"

definition entry_tax :: "entry_line \<Rightarrow> tax_entry \<Rightarrow> js_number" where
  "entry_tax line e =
     (let taxBase = (if entry_discount_how line = PRETAX then entry_net line else entry_pretax line)
      in if te_type e = PERCENT then js_div (js_mul taxBase (te_amount e)) (JFin 100) else te_amount e)"

definition entry_taxes :: "entry_line \<Rightarrow> js_number \<Rightarrow> (string \<times> js_number) list" where
  "entry_taxes line fraction =
     filter (\<lambda>(_, amt). \<not> js_eq amt (JFin 0))
       (map (\<lambda>e. (te_account e, roundCurrency (entry_tax line e) fraction)) (entry_table line))"

definition computeEntry :: "entry_line \<Rightarrow> js_number \<Rightarrow> computed_entry" where
  "computeEntry line fraction =
     (let net = roundCurrency (entry_net line) fraction;
          taxes = entry_taxes line fraction;
          taxTotal = roundCurrency (foldl js_add (JFin 0) (map snd taxes)) fraction
      in \<lparr>ce_subtotal = roundCurrency (entry_pretax line) fraction,
          ce_discount = roundCurrency (entry_discount line) fraction, ce_net = net, ce_taxes = taxes,
          ce_tax_total = taxTotal, ce_gross = roundCurrency (js_add net taxTotal) fraction\<rparr>)"

definition add_tax :: "js_number \<Rightarrow> (string \<times> js_number) list \<Rightarrow> string \<times> js_number \<Rightarrow> (string \<times> js_number) list" where
  "add_tax fraction m t =
     (let sofar = (case map_of m (fst t) of None \<Rightarrow> JFin 0 | Some a \<Rightarrow> a)
      in assoc_set (fst t) (roundCurrency (js_add sofar (snd t)) fraction) m)"

definition running :: "js_number \<Rightarrow> (computed_entry \<Rightarrow> js_number) \<Rightarrow> computed_entry list \<Rightarrow> js_number" where
  "running fraction f es = foldl (\<lambda>s e. roundCurrency (js_add s (f e)) fraction) (JFin 0) es"

definition computeInvoiceTotals :: "entry_line list \<Rightarrow> js_number \<Rightarrow> invoice_totals" where
  "computeInvoiceTotals lines fraction =
     (let es = map (\<lambda>l. computeEntry l fraction) lines
      in \<lparr>it_subtotal = running fraction ce_subtotal es, it_discount = running fraction ce_discount es,
          it_tax = running fraction ce_tax_total es,
          it_total = foldl (\<lambda>s e. roundCurrency (js_add (js_add s (ce_net e)) (ce_tax_total e)) fraction) (JFin 0) es,
          it_entries = es,
          it_tax_by_account = foldl (add_tax fraction) [] (concat (map ce_taxes es))\<rparr>)"

section \<open>Posting splits\<close>

record posting_spec =
  pp_account :: string
  pp_value :: js_number
  pp_memo :: string
  pp_action :: string
  pp_post :: bool

definition kind_sign :: "invoice_kind \<Rightarrow> rat" where
  "kind_sign kind = (if kind = InvoiceKind then 1 else -1)"

definition kind_action :: "invoice_kind \<Rightarrow> string" where
  "kind_action kind = (if kind = InvoiceKind then ''Invoice'' else ''Bill'')"

definition line_specs :: "invoice_kind \<Rightarrow> entry_line list \<Rightarrow> computed_entry list \<Rightarrow> posting_spec list" where
  "line_specs kind lines es =
     map (\<lambda>(l, e). \<lparr>pp_account = el_account l, pp_value = js_mul (JFin (- kind_sign kind)) (ce_net e),
         pp_memo = (case el_description l of None \<Rightarrow> '''' | Some d \<Rightarrow> d), pp_action = kind_action kind, pp_post = False\<rparr>)
       (filter (\<lambda>(_, e). \<not> js_eq (ce_net e) (JFin 0)) (zip lines es))"

definition tax_specs :: "invoice_kind \<Rightarrow> (string \<times> js_number) list \<Rightarrow> posting_spec list" where
  "tax_specs kind taxes =
     map (\<lambda>(g, a). \<lparr>pp_account = g, pp_value = js_mul (JFin (- kind_sign kind)) a, pp_memo = '''',
         pp_action = kind_action kind, pp_post = False\<rparr>)
       (filter (\<lambda>(_, a). \<not> js_eq a (JFin 0)) taxes)"

definition buildPostingSplits ::
    "invoice_kind \<Rightarrow> invoice_totals \<Rightarrow> entry_line list \<Rightarrow> string \<Rightarrow> string \<Rightarrow> posting_spec list" where
  "buildPostingSplits kind totals lines postAccountGuid memo =
     \<lparr>pp_account = postAccountGuid, pp_value = js_mul (JFin (kind_sign kind)) (it_total totals), pp_memo = memo,
       pp_action = kind_action kind, pp_post = True\<rparr>
     # line_specs kind lines (it_entries totals) @ tax_specs kind (it_tax_by_account totals)"

section \<open>Amounts due and payments\<close>

definition amountDueFromLotSplits :: "invoice_kind \<Rightarrow> js_number list \<Rightarrow> js_number \<Rightarrow> js_number" where
  "amountDueFromLotSplits kind splitValues fraction =
     (let balance = foldl js_add (JFin 0) splitValues
      in roundCurrency (if kind = InvoiceKind then balance else js_neg balance) fraction)"

record open_invoice =
  oi_guid :: string
  oi_posted :: "int option"
  oi_due :: js_number

definition half_unit :: "js_number \<Rightarrow> js_number" where
  "half_unit fraction = js_div (JFin (1 / 2)) fraction"

definition compare_open :: "open_invoice \<Rightarrow> open_invoice \<Rightarrow> int" where
  "compare_open a b =
     (let ta = (case oi_posted a of Some t \<Rightarrow> t | None \<Rightarrow> 2 ^ 53 - 1);
          tb = (case oi_posted b of Some t \<Rightarrow> t | None \<Rightarrow> 2 ^ 53 - 1)
      in if ta \<noteq> tb then ta - tb else if oi_guid a < oi_guid b then -1 else if oi_guid a > oi_guid b then 1 else 0)"

fun allocate :: "js_number \<Rightarrow> open_invoice list \<Rightarrow> js_number \<Rightarrow> (string \<times> js_number) list \<times> js_number" where
  "allocate fraction [] remaining = ([], remaining)"
| "allocate fraction (i # is) remaining =
     (if js_ge (half_unit fraction) remaining then ([], remaining)
      else let part = roundCurrency (js_min (oi_due i) remaining) fraction;
               (rest, left) = allocate fraction is (roundCurrency (js_sub remaining part) fraction)
           in ((oi_guid i, part) # rest, left))"

definition allocatePaymentFifo ::
    "open_invoice list \<Rightarrow> js_number \<Rightarrow> js_number \<Rightarrow> (string \<times> js_number) list \<times> js_number" where
  "allocatePaymentFifo openInvoices amount fraction =
     allocate fraction (stable_sort compare_open (filter (\<lambda>i. js_less (half_unit fraction) (oi_due i)) openInvoices))
       (roundCurrency amount fraction)"

record payment_spec =
  py_account :: string
  py_value :: js_number
  py_memo :: string
  py_action :: string
  py_lot :: "string option"

record lot_allocation =
  la_account :: string
  la_lot :: string
  la_amount :: js_number

definition buildPaymentSplits ::
    "invoice_kind \<Rightarrow> js_number \<Rightarrow> string \<Rightarrow> lot_allocation list \<Rightarrow> string \<Rightarrow> payment_spec list" where
  "buildPaymentSplits kind amount transferAccountGuid allocations memo =
     \<lparr>py_account = transferAccountGuid, py_value = js_mul (JFin (kind_sign kind)) amount, py_memo = memo,
       py_action = '''', py_lot = None\<rparr>
     # map (\<lambda>a. \<lparr>py_account = la_account a, py_value = js_mul (JFin (- kind_sign kind)) (la_amount a), py_memo = '''',
         py_action = ''Payment'', py_lot = Some (la_lot a)\<rparr>) allocations"

section \<open>Due dates and status\<close>

record bill_term =
  bt_type :: string
  bt_duedays :: "int option"
  bt_cutoff :: "int option"

definition daysInMonthUTC :: "int \<Rightarrow> int \<Rightarrow> int" where
  "daysInMonthUTC year month0 = getDate (newDate year (month0 + 1) 0)"

definition computeDueDate :: "int \<Rightarrow> bill_term option \<Rightarrow> int" where
  "computeDueDate postDate t =
     (case t of None \<Rightarrow> postDate
      | Some tm \<Rightarrow> (case bt_duedays tm of
          None \<Rightarrow> postDate
        | Some duedays \<Rightarrow>
            if contains_text ''proximo'' (map lower_char (bt_type tm))
            then let year = getFullYear postDate; month = getMonth postDate; day = getDate postDate;
                   cut = (case bt_cutoff tm of None \<Rightarrow> 0 | Some c \<Rightarrow> c);
                   cutoff = (if cut \<le> 0 then cut + daysInMonthUTC year month else cut);
                   targetMonth = month + (if day > cutoff then 2 else 1);
                   targetYear = year + targetMonth div 12;
                   normMonth = targetMonth mod 12
                 in newDate targetYear normMonth (min duedays (daysInMonthUTC targetYear normMonth)) + 12 * 60 * 60 * 1000
            else postDate + duedays * 24 * 60 * 60 * 1000))"

datatype invoice_status = Draft | Open | Paid | Overdue

definition invoiceStatus :: "bool \<Rightarrow> js_number \<Rightarrow> int option \<Rightarrow> int \<Rightarrow> js_number \<Rightarrow> invoice_status" where
  "invoiceStatus posted amountDue dueDate today fraction =
     (if \<not> posted then Draft
      else if js_ge (half_unit fraction) (js_abs amountDue) then Paid
      else case dueDate of Some d \<Rightarrow> if d < today then Overdue else Open | None \<Rightarrow> Open)"

section \<open>Rounded amounts are whole units\<close>

lemma round_near:
  assumes "0 < d" "d \<le> 2 ^ 38" "near d (1 / 4) x k" "\<bar>k\<bar> \<le> 2 ^ 38"
  shows "roundCurrency x (JFin (of_int d)) = money d k"
proof -
  obtain q where q: "x = JFin q" "\<bar>q * of_int d - of_int k\<bar> \<le> 1 / 4" using assms(3) by (auto simp: near_def)
  have d: "(0::rat) < of_int d" using assms(1) by simp
  define s :: int where "s = (if q < 0 then -1 else 1)"
  have qs: "\<bar>q\<bar> = of_int s * q" by (simp add: s_def)
  have sk: "\<bar>\<bar>q\<bar> * of_int d - of_int (s * k)\<bar> \<le> 1 / 4" unfolding qs using q(2) by (auto simp: s_def abs_minus_commute)
  have sign: "(if js_less x (JFin 0) then -1 else 1) = (of_int s :: rat)" by (simp add: s_def q(1))
  have "js_round (js_mul (JFin \<bar>q\<bar>) (JFin (of_int d))) = JFin (of_int (s * k))"
    using assms(4) by (intro round_near_int sk) (auto simp: s_def)
  moreover have "js_mul (JFin (of_int s)) (JFin (of_int (s * k))) = JFin (of_int k)"
  proof -
    have "(of_int s * of_int (s * k) :: rat) = of_int k" by (simp add: s_def)
    moreover have "fl (of_int k) = JFin (of_int k)" using assms(4) by (intro fl_int) simp
    ultimately show ?thesis by (simp only: js_mul.simps)
  qed
  ultimately have "js_mul (JFin (if js_less x (JFin 0) then -1 else 1)) (js_round (js_mul (js_abs x) (JFin (of_int d)))) = JFin (of_int k)"
    unfolding sign unfolding q(1) js_abs.simps by (simp only:)
  then show ?thesis by (simp only: roundCurrency_def Let_def money_def)
qed

text \<open>How many units an amount can have; a bound no sum meets for what is not finite.\<close>

definition size_of :: "int \<Rightarrow> js_number \<Rightarrow> int" where
  "size_of d x = (case x of JFin q \<Rightarrow> \<lceil>\<bar>q\<bar> * of_int d\<rceil> + 1 | _ \<Rightarrow> 2 ^ 39)"

lemma size_of_pos: "0 < d \<Longrightarrow> 1 \<le> size_of d x"
proof -
  assume "0 < d"
  then have "(0::rat) \<le> \<bar>q\<bar> * of_int d" for q by (intro mult_nonneg_nonneg) auto
  then have "0 \<le> \<lceil>\<bar>q\<bar> * of_int d\<rceil>" for q :: rat by (metis ceiling_mono ceiling_zero)
  then show ?thesis by (simp add: size_of_def split: js_number.split)
qed

lemma round_units:
  assumes "0 < d" "d \<le> 2 ^ 38" "size_of d x \<le> 2 ^ 38"
  obtains k where "roundCurrency x (JFin (of_int d)) = money d k" "\<bar>k\<bar> \<le> size_of d x"
proof -
  obtain q where q: "x = JFin q" using assms(3) by (cases x) (auto simp: size_of_def)
  define c where "c = \<lceil>\<bar>q\<bar> * of_int d\<rceil>"
  have c: "size_of d x = c + 1" "\<bar>q\<bar> * of_int d \<le> of_int c" by (simp_all add: q size_of_def c_def)
  have "c \<le> 2 ^ 38" using c(1) assms(3) by simp
  then have c2: "(of_int c :: rat) \<le> 2 ^ 38" using of_int_le_iff [of c "2 ^ 38", where ?'a = rat] by simp
  have nonneg: "0 \<le> \<bar>q\<bar> * of_int d" using assms(1) by (intro mult_nonneg_nonneg) auto
  then have "\<bar>\<bar>q\<bar> * of_int d\<bar> \<le> 2 ^ 60" using c(2) c2 by simp
  from fl_error [OF in_range [OF this]] obtain z where
    z: "fl (\<bar>q\<bar> * of_int d) = JFin z" "\<bar>z - \<bar>q\<bar> * of_int d\<bar> \<le> ulp_half * \<bar>\<bar>q\<bar> * of_int d\<bar> + tiny" by blast
  have "ulp_half * \<bar>\<bar>q\<bar> * of_int d\<bar> \<le> 1 / 2 ^ 53 * 2 ^ 38" using roundoff_bounds nonneg c(2) c2 by (intro mult_mono) auto
  then have zq: "\<bar>z - \<bar>q\<bar> * of_int d\<bar> \<le> 1 / 4" using z(2) roundoff_bounds by simp
  define n where "n = \<lfloor>z + 1 / 2\<rfloor>"
  have n: "0 \<le> n" "n \<le> c + 1" unfolding n_def using zq nonneg c(2) by linarith+
  define k where "k = (if q < 0 then - n else n)"
  have "fl (of_int k) = JFin (of_int k)" using n \<open>c \<le> 2 ^ 38\<close> by (intro fl_int) (auto simp: k_def)
  then have "roundCurrency x (JFin (of_int d)) = money d k"
    using z(1) by (auto simp: roundCurrency_def q money_def Let_def k_def n_def)
  moreover have "\<bar>k\<bar> \<le> size_of d x" using n c(1) by (simp add: k_def)
  ultimately show ?thesis by (rule that)
qed

section \<open>A document in units\<close>

definition raw_amounts :: "entry_line \<Rightarrow> js_number list" where
  "raw_amounts l = entry_net l # map (entry_tax l) (entry_table l)"

definition postable :: "int \<Rightarrow> entry_line list \<Rightarrow> bool" where
  "postable d lines \<longleftrightarrow> list_all (\<lambda>l. length (entry_table l) \<le> 1024) lines \<and>
     sum_list (map (size_of d) (concat (map raw_amounts lines))) \<le> 2 ^ 38"

text \<open>The units of an entry: its net, and its non-zero taxes with their accounts.\<close>

definition in_units :: "int \<Rightarrow> computed_entry \<Rightarrow> int \<times> (string \<times> int) list \<Rightarrow> bool" where
  "in_units d e u \<longleftrightarrow> ce_net e = money d (fst u) \<and> ce_taxes e = map (apsnd (money d)) (snd u) \<and>
     ce_tax_total e = money d (sum_list (map snd (snd u))) \<and> 0 \<notin> snd ` set (snd u)"

definition bulk :: "int \<times> (string \<times> int) list \<Rightarrow> int" where
  "bulk u = \<bar>fst u\<bar> + sum_list (map (\<lambda>t. \<bar>snd t\<bar>) (snd u))"

lemma units_of_taxes:
  assumes d: "0 < d" "d \<le> 2 ^ 38" and b: "sum_list (map (\<lambda>e. size_of d (entry_tax l e)) es) \<le> 2 ^ 38"
  obtains ts where "filter (\<lambda>(_, amt). \<not> js_eq amt (JFin 0))
      (map (\<lambda>e. (te_account e, roundCurrency (entry_tax l e) (JFin (of_int d)))) es) = map (apsnd (money d)) ts"
    "0 \<notin> snd ` set ts" "sum_list (map (\<lambda>t. \<bar>snd t\<bar>) ts) \<le> sum_list (map (\<lambda>e. size_of d (entry_tax l e)) es)" "length ts \<le> length es"
proof -
  let ?f = "\<lambda>es. filter (\<lambda>(_, amt). \<not> js_eq amt (JFin 0))
      (map (\<lambda>e. (te_account e, roundCurrency (entry_tax l e) (JFin (of_int d)))) es)"
  have "\<exists>ts. ?f es = map (apsnd (money d)) ts \<and> 0 \<notin> snd ` set ts \<and>
      sum_list (map (\<lambda>t. \<bar>snd t\<bar>) ts) \<le> sum_list (map (\<lambda>e. size_of d (entry_tax l e)) es) \<and> length ts \<le> length es"
    using b
  proof (induction es)
    case (Cons e es)
    have rest: "0 \<le> sum_list (map (\<lambda>e. size_of d (entry_tax l e)) es)"
      using size_of_pos [OF d(1)] by (intro sum_list_nonneg) (auto intro: order_trans [of 0 1])
    have here: "size_of d (entry_tax l e) \<le> 2 ^ 38" using Cons.prems rest by simp
    obtain k where k: "roundCurrency (entry_tax l e) (JFin (of_int d)) = money d k" "\<bar>k\<bar> \<le> size_of d (entry_tax l e)"
      by (rule round_units [OF d here])
    obtain ts where ts: "?f es = map (apsnd (money d)) ts" "0 \<notin> snd ` set ts"
      "sum_list (map (\<lambda>t. \<bar>snd t\<bar>) ts) \<le> sum_list (map (\<lambda>e. size_of d (entry_tax l e)) es)" "length ts \<le> length es"
      using Cons.IH Cons.prems size_of_pos [OF d(1), of "entry_tax l e"] by auto
    have zero: "js_eq (money d k) (JFin 0) \<longleftrightarrow> k = 0" using k(2) here by (intro money_eq_0 [OF d]) simp
    show ?case
    proof (cases "k = 0")
      case True
      then show ?thesis using ts zero k size_of_pos [OF d(1), of "entry_tax l e"] by (intro exI [of _ ts]) auto
    next
      case False
      then show ?thesis using ts zero k by (intro exI [of _ "(te_account e, k) # ts"]) auto
    qed
  qed simp
  then show ?thesis using that by blast
qed

lemma size_of_nonneg: "0 < d \<Longrightarrow> 0 \<le> size_of d x"
  using size_of_pos [of d x] by simp

lemma near_two:
  assumes "0 < d" "d \<le> 2 ^ 38" "\<bar>a\<bar> \<le> 2 ^ 39" "\<bar>b\<bar> \<le> 2 ^ 39"
  shows "near d (1 / 8) (js_add (money d a) (money d b)) (a + b)" "near d (1 / 8) (js_sub (money d a) (money d b)) (a - b)"
proof -
  have m: "near d (1 / 2 ^ 10) (money d a) a" "near d (1 / 2 ^ 10) (money d b) b"
    using near_money [OF assms(1,2), of a] near_money [OF assms(1,2), of b] assms(3,4) by simp_all
  show "near d (1 / 8) (js_add (money d a) (money d b)) (a + b)"
    using near_add [OF assms(1,2) m _ _ assms(3,4)] by (rule near_mono) simp_all
  show "near d (1 / 8) (js_sub (money d a) (money d b)) (a - b)"
    using near_sub [OF assms(1,2) m _ _ assms(3,4)] by (rule near_mono) simp_all
qed

lemma near_three:
  assumes "0 < d" "d \<le> 2 ^ 38" "\<bar>a\<bar> \<le> 2 ^ 38" "\<bar>b\<bar> \<le> 2 ^ 38" "\<bar>c\<bar> \<le> 2 ^ 38"
  shows "near d (1 / 4) (js_add (js_add (money d a) (money d b)) (money d c)) (a + b + c)"
proof -
  have two: "near d (1 / 8) (js_add (money d a) (money d b)) (a + b)"
    using near_two [OF assms(1,2), of a b] assms(3,4) by simp
  have m: "near d (1 / 2 ^ 10) (money d c) c" using near_money [OF assms(1,2), of c] assms(5) by simp
  show ?thesis
    by (rule near_mono [OF near_add [OF assms(1,2) two m]]) (use assms(3-5) in simp_all)
qed

lemma computeEntry_units:
  assumes d: "0 < d" "d \<le> 2 ^ 38" and "length (entry_table l) \<le> 1024"
    and b: "sum_list (map (size_of d) (raw_amounts l)) \<le> 2 ^ 38"
  obtains u where "in_units d (computeEntry l (JFin (of_int d))) u" "bulk u \<le> sum_list (map (size_of d) (raw_amounts l))"
proof -
  have tb: "size_of d (entry_net l) + sum_list (map (\<lambda>e. size_of d (entry_tax l e)) (entry_table l)) \<le> 2 ^ 38"
    using b by (simp add: raw_amounts_def comp_def)
  have pos: "1 \<le> size_of d (entry_net l)" "0 \<le> sum_list (map (\<lambda>e. size_of d (entry_tax l e)) (entry_table l))"
    using size_of_pos [OF d(1)] size_of_nonneg [OF d(1)] by (auto intro!: sum_list_nonneg)
  have "size_of d (entry_net l) \<le> 2 ^ 38" using tb pos by linarith
  then obtain n where n: "roundCurrency (entry_net l) (JFin (of_int d)) = money d n" "\<bar>n\<bar> \<le> size_of d (entry_net l)"
    by (rule round_units [OF d])
  have "sum_list (map (\<lambda>e. size_of d (entry_tax l e)) (entry_table l)) \<le> 2 ^ 38" using tb pos by linarith
  then obtain ts where ts: "entry_taxes l (JFin (of_int d)) = map (apsnd (money d)) ts" "0 \<notin> snd ` set ts"
    "sum_list (map (\<lambda>t. \<bar>snd t\<bar>) ts) \<le> sum_list (map (\<lambda>e. size_of d (entry_tax l e)) (entry_table l))"
    "length ts \<le> length (entry_table l)"
    using units_of_taxes [OF d, of l "entry_table l"] unfolding entry_taxes_def by blast
  have sums: "sum_list (map abs (map snd ts)) \<le> 2 ^ 38" using ts(3) tb pos by (simp add: comp_def)
  then have "near d (1 / 4) (foldl js_add (JFin 0) (map (money d) (map snd ts))) (sum_list (map snd ts))"
    using ts(4) assms(3) by (intro near_sum [OF d]) auto
  then have "roundCurrency (foldl js_add (JFin 0) (map (money d) (map snd ts))) (JFin (of_int d)) = money d (sum_list (map snd ts))"
    using sums sum_list_abs [of "map snd ts"] by (intro round_near [OF d]) auto
  moreover have "map snd (entry_taxes l (JFin (of_int d))) = map (money d) (map snd ts)"
    by (simp add: ts(1) comp_def)
  ultimately have "in_units d (computeEntry l (JFin (of_int d))) (n, ts)"
    using n(1) ts(1,2) by (simp add: in_units_def computeEntry_def Let_def)
  moreover have "bulk (n, ts) \<le> sum_list (map (size_of d) (raw_amounts l))"
    using n(2) ts(3) by (simp add: bulk_def raw_amounts_def comp_def)
  ultimately show ?thesis by (rule that)
qed

lemma entries_units:
  assumes d: "0 < d" "d \<le> 2 ^ 38" and "list_all (\<lambda>l. length (entry_table l) \<le> 1024) ls"
    and "sum_list (map (size_of d) (concat (map raw_amounts ls))) \<le> 2 ^ 38"
  shows "\<exists>us. list_all2 (in_units d) (map (\<lambda>l. computeEntry l (JFin (of_int d))) ls) us \<and>
    sum_list (map bulk us) \<le> sum_list (map (size_of d) (concat (map raw_amounts ls)))"
  using assms(3,4)
proof (induction ls)
  case (Cons l ls)
  have pos: "0 \<le> sum_list (map (size_of d) xs)" for xs
    using size_of_nonneg [OF d(1)] by (auto intro!: sum_list_nonneg)
  have b: "sum_list (map (size_of d) (raw_amounts l)) + sum_list (map (size_of d) (concat (map raw_amounts ls))) \<le> 2 ^ 38"
    using Cons.prems(2) by simp
  have "length (entry_table l) \<le> 1024" "sum_list (map (size_of d) (raw_amounts l)) \<le> 2 ^ 38"
    using Cons.prems(1) b pos [of "concat (map raw_amounts ls)"] by (simp_all add: list_all_iff)
  then obtain u where u: "in_units d (computeEntry l (JFin (of_int d))) u" "bulk u \<le> sum_list (map (size_of d) (raw_amounts l))"
    by (rule computeEntry_units [OF d])
  have "list_all (\<lambda>l. length (entry_table l) \<le> 1024) ls" "sum_list (map (size_of d) (concat (map raw_amounts ls))) \<le> 2 ^ 38"
    using Cons.prems(1) b pos [of "raw_amounts l"] by simp_all
  then obtain us where "list_all2 (in_units d) (map (\<lambda>l. computeEntry l (JFin (of_int d))) ls) us"
    "sum_list (map bulk us) \<le> sum_list (map (size_of d) (concat (map raw_amounts ls)))" using Cons.IH by blast
  then show ?case using u by (intro exI [of _ "u # us"]) simp
qed simp

section \<open>Totals in units\<close>

definition entry_units :: "int \<times> (string \<times> int) list \<Rightarrow> int" where
  "entry_units u = fst u + sum_list (map snd (snd u))"

lemma entry_units_le: "\<bar>entry_units u\<bar> \<le> bulk u" "\<bar>fst u\<bar> \<le> bulk u" "\<bar>sum_list (map snd (snd u))\<bar> \<le> bulk u" "0 \<le> bulk u"
proof -
  have a: "\<bar>sum_list (map snd (snd u))\<bar> \<le> sum_list (map (\<lambda>t. \<bar>snd t\<bar>) (snd u))"
    using sum_list_abs [of "map snd (snd u)"] by (simp add: comp_def)
  then show "\<bar>entry_units u\<bar> \<le> bulk u" "\<bar>fst u\<bar> \<le> bulk u" "\<bar>sum_list (map snd (snd u))\<bar> \<le> bulk u" "0 \<le> bulk u"
    by (simp_all add: entry_units_def bulk_def)
qed

lemma bulk_sum_nonneg: "0 \<le> sum_list (map bulk us)"
  by (rule sum_list_nonneg) (auto simp: entry_units_le(4))

lemma total_units:
  assumes d: "0 < d" "d \<le> 2 ^ 38" and "list_all2 (in_units d) es us" "\<bar>k\<bar> + sum_list (map bulk us) \<le> 2 ^ 38"
  shows "foldl (\<lambda>s e. roundCurrency (js_add (js_add s (ce_net e)) (ce_tax_total e)) (JFin (of_int d))) (money d k) es
    = money d (k + sum_list (map entry_units us))"
  using assms(3,4)
proof (induction es us arbitrary: k rule: list_all2_induct)
  case (Cons e es u us)
  have b: "\<bar>k\<bar> + bulk u \<le> 2 ^ 38" "\<bar>k + entry_units u\<bar> + sum_list (map bulk us) \<le> 2 ^ 38"
    using Cons.prems bulk_sum_nonneg [of us] entry_units_le [of u] by simp_all
  have small: "\<bar>k\<bar> \<le> 2 ^ 38" "\<bar>fst u\<bar> \<le> 2 ^ 38" "\<bar>sum_list (map snd (snd u))\<bar> \<le> 2 ^ 38"
    using b(1) entry_units_le [of u] by linarith+
  have "near d (1 / 4) (js_add (js_add (money d k) (ce_net e)) (ce_tax_total e)) (k + entry_units u)"
    using near_three [OF d small] Cons.hyps(1) by (simp add: in_units_def entry_units_def add.assoc)
  then have "roundCurrency (js_add (js_add (money d k) (ce_net e)) (ce_tax_total e)) (JFin (of_int d)) = money d (k + entry_units u)"
    using b(1) entry_units_le [of u] by (intro round_near [OF d]) linarith+
  then show ?case using Cons.IH [OF b(2)] by (simp add: add.assoc)
qed simp

definition add_units :: "(string \<times> int) list \<Rightarrow> string \<times> int \<Rightarrow> (string \<times> int) list" where
  "add_units m t = assoc_set (fst t) ((case map_of m (fst t) of None \<Rightarrow> 0 | Some a \<Rightarrow> a) + snd t) m"

lemma map_of_apsnd: "map_of (map (apsnd f) m) k = map_option f (map_of m k)"
  by (induction m) auto

lemma assoc_set_apsnd: "assoc_set k (f v) (map (apsnd f) m) = map (apsnd f) (assoc_set k v m)"
  by (induction m) auto

lemma sum_assoc_set:
  fixes v :: int
  shows "sum_list (map snd (assoc_set k v m)) = sum_list (map snd m) - (case map_of m k of None \<Rightarrow> 0 | Some a \<Rightarrow> a) + v"
  by (induction m) auto

lemma abs_sum_assoc_set:
  fixes v :: int
  shows "sum_list (map (\<lambda>t. \<bar>snd t\<bar>) (assoc_set k v m)) =
    sum_list (map (\<lambda>t. \<bar>snd t\<bar>) m) - (case map_of m k of None \<Rightarrow> 0 | Some a \<Rightarrow> \<bar>a\<bar>) + \<bar>v\<bar>"
  by (induction m) auto

lemma add_units_sums:
  "sum_list (map snd (add_units m t)) = sum_list (map snd m) + snd t"
  "sum_list (map (\<lambda>t. \<bar>snd t\<bar>) (add_units m t)) \<le> sum_list (map (\<lambda>t. \<bar>snd t\<bar>) m) + \<bar>snd t\<bar>"
  by (auto simp: add_units_def sum_assoc_set abs_sum_assoc_set split: option.split)

lemma map_of_le: "map_of m k = Some a \<Longrightarrow> \<bar>a\<bar> \<le> sum_list (map (\<lambda>t. \<bar>snd t\<bar>) m)" for a :: int
proof (induction m)
  case (Cons e m)
  have "0 \<le> sum_list (map (\<lambda>t. \<bar>snd t\<bar>) m)" by (rule sum_list_nonneg) auto
  then show ?case using Cons by (cases e) (auto split: if_splits)
qed simp

lemma taxes_units:
  assumes d: "0 < d" "d \<le> 2 ^ 38"
    and "sum_list (map (\<lambda>t. \<bar>snd t\<bar>) m) + sum_list (map (\<lambda>t. \<bar>snd t\<bar>) ts) \<le> 2 ^ 38"
  shows "foldl (add_tax (JFin (of_int d))) (map (apsnd (money d)) m) (map (apsnd (money d)) ts)
      = map (apsnd (money d)) (foldl add_units m ts)"
  using assms(3)
proof (induction ts arbitrary: m)
  case (Cons t ts)
  define a where "a = (case map_of m (fst t) of None \<Rightarrow> 0 | Some a \<Rightarrow> a)"
  have ts0: "0 \<le> sum_list (map (\<lambda>t. \<bar>snd t\<bar>) ts)" by (rule sum_list_nonneg) auto
  have "\<bar>a\<bar> \<le> sum_list (map (\<lambda>t. \<bar>snd t\<bar>) m)"
  proof (cases "map_of m (fst t)")
    case None
    have "0 \<le> sum_list (map (\<lambda>t. \<bar>snd t\<bar>) m)" by (rule sum_list_nonneg) auto
    then show ?thesis using None by (simp add: a_def)
  next
    case (Some b)
    from map_of_le [OF this] show ?thesis by (simp add: a_def Some)
  qed
  then have a: "\<bar>a\<bar> + \<bar>snd t\<bar> \<le> 2 ^ 38" using Cons.prems ts0 by simp
  have "near d (1 / 4) (js_add (money d a) (money d (snd t))) (a + snd t)"
    by (rule near_mono [OF near_two(1) [OF d]]) (use a in simp_all)
  then have "roundCurrency (js_add (money d a) (money d (snd t))) (JFin (of_int d)) = money d (a + snd t)"
    by (rule round_near [OF d]) (use a in simp)
  moreover have "(case map_of (map (apsnd (money d)) m) (fst t) of None \<Rightarrow> JFin 0 | Some a \<Rightarrow> a) = money d a"
    using d(1) by (simp add: a_def map_of_apsnd split: option.split)
  ultimately have "add_tax (JFin (of_int d)) (map (apsnd (money d)) m) (apsnd (money d) t) = map (apsnd (money d)) (add_units m t)"
    by (simp add: add_tax_def add_units_def a_def [symmetric] assoc_set_apsnd [symmetric])
  then show ?case using Cons.IH [of "add_units m t"] Cons.prems add_units_sums(2) [of m t] by simp
qed simp

lemma add_units_total:
  "sum_list (map snd (foldl add_units m ts)) = sum_list (map snd m) + sum_list (map snd ts)"
  "sum_list (map (\<lambda>t. \<bar>snd t\<bar>) (foldl add_units m ts)) \<le> sum_list (map (\<lambda>t. \<bar>snd t\<bar>) m) + sum_list (map (\<lambda>t. \<bar>snd t\<bar>) ts)"
proof (induction ts arbitrary: m)
  case (Cons t ts)
  {
    case 1
    show ?case using Cons.IH(1) [of "add_units m t"] add_units_sums(1) [of m t] by simp
  next
    case 2
    show ?case using Cons.IH(2) [of "add_units m t"] add_units_sums(2) [of m t] by simp
  }
qed simp_all

text \<open>A document that fits is computed in whole units throughout.\<close>

lemma document_units:
  assumes "0 < d" "d \<le> 2 ^ 38" "postable d lines"
  obtains us where "list_all2 (in_units d) (it_entries (computeInvoiceTotals lines (JFin (of_int d)))) us"
    "sum_list (map bulk us) \<le> 2 ^ 38" "length us = length lines"
    "it_total (computeInvoiceTotals lines (JFin (of_int d))) = money d (sum_list (map entry_units us))"
    "it_tax_by_account (computeInvoiceTotals lines (JFin (of_int d))) = map (apsnd (money d)) (foldl add_units [] (concat (map snd us)))"
proof -
  let ?es = "map (\<lambda>l. computeEntry l (JFin (of_int d))) lines"
  obtain us where us: "list_all2 (in_units d) ?es us" "sum_list (map bulk us) \<le> 2 ^ 38"
    using entries_units [OF assms(1,2)] assms(3) unfolding postable_def by (metis order_trans)
  have taxes: "concat (map ce_taxes ?es) = map (apsnd (money d)) (concat (map snd us))"
    using us(1) by (induction ?es us arbitrary: lines rule: list_all2_induct) (auto simp: in_units_def)
  have "sum_list (map (\<lambda>t. \<bar>snd t\<bar>) (concat (map snd us))) \<le> sum_list (map bulk us)"
    by (induction us) (simp_all add: bulk_def)
  then have "foldl (add_tax (JFin (of_int d))) [] (concat (map ce_taxes ?es)) = map (apsnd (money d)) (foldl add_units [] (concat (map snd us)))"
    using taxes_units [OF assms(1,2), of "[]" "concat (map snd us)"] us(2) unfolding taxes by simp
  moreover have "foldl (\<lambda>s e. roundCurrency (js_add (js_add s (ce_net e)) (ce_tax_total e)) (JFin (of_int d))) (JFin 0) ?es
      = money d (sum_list (map entry_units us))"
    using total_units [OF assms(1,2) us(1), of 0] us(2) assms(1) by simp
  ultimately show ?thesis using us list_all2_lengthD [OF us(1)]
    by (intro that [of us]) (simp_all only: computeInvoiceTotals_def Let_def invoice_totals.select_convs length_map)
qed

section \<open>A posting balances\<close>

lemma kind_sign_int: obtains s :: int where "kind_sign kind = of_int s" "s = 1 \<or> s = -1"
  by (cases kind) (auto simp: kind_sign_def intro: that [of 1] that [of "-1"])

lemma signed_units:
  assumes "0 < d" "d \<le> 2 ^ 38" "\<bar>k\<bar> \<le> 2 ^ 38" "s = 1 \<or> s = -1"
  shows "js_round (js_mul (js_mul (JFin (of_int s)) (money d k)) (JFin (of_int d))) = JFin (of_int (s * k))"
proof -
  have "near d (1 / 2 ^ 10) (money d k) k" using near_money [OF assms(1,2), of k] assms(3) by simp
  from near_sign [OF assms(1,2) this _ _ assms(4)]
  have "near d (1 / 2 ^ 10 + 1 / 2 ^ 10) (js_mul (JFin (of_int s)) (money d k)) (s * k)" using assms(3) by simp
  then have "near d (1 / 4) (js_mul (JFin (of_int s)) (money d k)) (s * k)" by (rule near_mono) simp
  then show ?thesis using assms(3,4) by (intro near_round [OF assms(1)]) auto
qed

definition split_units :: "int \<Rightarrow> js_number \<Rightarrow> js_number" where
  "split_units d x = js_round (js_mul x (JFin (of_int d)))"

lemma line_specs_units:
  assumes "0 < d" "d \<le> 2 ^ 38" "kind_sign kind = of_int s" "s = 1 \<or> s = -1"
    and "list_all2 (in_units d) es us" "length lines = length es" "sum_list (map bulk us) \<le> 2 ^ 38"
  shows "map (split_units d \<circ> pp_value) (line_specs kind lines es) =
    map (\<lambda>k. JFin (of_int k)) (map (\<lambda>u. - s * fst u) (filter (\<lambda>u. fst u \<noteq> 0) us))"
  using assms(5-7)
proof (induction es us arbitrary: lines rule: list_all2_induct)
  case (Cons e es u us)
  obtain l ls where lines: "lines = l # ls" using Cons.prems(1) by (cases lines) auto
  have b: "\<bar>fst u\<bar> \<le> 2 ^ 38" "sum_list (map bulk us) \<le> 2 ^ 38"
    using Cons.prems(2) entry_units_le [of u] bulk_sum_nonneg [of us] by simp_all
  have net: "ce_net e = money d (fst u)" using Cons.hyps(1) by (simp add: in_units_def)
  have "js_eq (ce_net e) (JFin 0) \<longleftrightarrow> fst u = 0" unfolding net using b(1) by (intro money_eq_0 [OF assms(1,2)]) simp
  moreover have "split_units d (js_mul (JFin (of_int (- s))) (ce_net e)) = JFin (of_int (- s * fst u))"
    unfolding net split_units_def using b(1) assms(4) by (intro signed_units [OF assms(1,2)]) auto
  ultimately show ?case using Cons.IH [of ls] Cons.prems(1) b(2) assms(3) by (simp add: lines line_specs_def)
qed (simp add: line_specs_def)

lemma tax_specs_units:
  assumes "0 < d" "d \<le> 2 ^ 38" "kind_sign kind = of_int s" "s = 1 \<or> s = -1"
    and "sum_list (map (\<lambda>t. \<bar>snd t\<bar>) m) \<le> 2 ^ 38"
  shows "map (split_units d \<circ> pp_value) (tax_specs kind (map (apsnd (money d)) m)) =
    map (\<lambda>k. JFin (of_int k)) (map (\<lambda>t. - s * snd t) (filter (\<lambda>t. snd t \<noteq> 0) m))"
  using assms(5)
proof (induction m)
  case (Cons t m)
  have "0 \<le> sum_list (map (\<lambda>t. \<bar>snd t\<bar>) m)" by (rule sum_list_nonneg) auto
  then have b: "\<bar>snd t\<bar> \<le> 2 ^ 38" "sum_list (map (\<lambda>t. \<bar>snd t\<bar>) m) \<le> 2 ^ 38" using Cons.prems by simp_all
  have "js_eq (money d (snd t)) (JFin 0) \<longleftrightarrow> snd t = 0" using b(1) by (intro money_eq_0 [OF assms(1,2)]) simp
  moreover have "split_units d (js_mul (JFin (of_int (- s))) (money d (snd t))) = JFin (of_int (- s * snd t))"
    unfolding split_units_def using b(1) assms(4) by (intro signed_units [OF assms(1,2)]) auto
  ultimately show ?case using Cons.IH [OF b(2)] assms(3) by (cases t) (simp add: tax_specs_def)
qed (simp add: tax_specs_def)

lemma sum_filter_nonzero: "sum_list (map f (filter (\<lambda>x. f x \<noteq> 0) xs)) = sum_list (map f xs)" for f :: "'a \<Rightarrow> int"
  by (induction xs) auto

lemma sum_scaled_nonzero: "sum_list (map (\<lambda>x. c * f x) (filter (\<lambda>x. f x \<noteq> 0) xs)) = c * sum_list (map f xs)" for f :: "'a \<Rightarrow> int"
  by (induction xs) (auto simp: distrib_left)

lemma entry_units_sum:
  "sum_list (map entry_units us) = sum_list (map fst us) + sum_list (map snd (concat (map snd us)))"
  by (induction us) (simp_all add: entry_units_def)

lemma posting_units:
  assumes "0 < d" "d \<le> 2 ^ 38" "postable d lines"
  shows "\<exists>ns. map (split_units d \<circ> pp_value) (buildPostingSplits kind (computeInvoiceTotals lines (JFin (of_int d))) lines acc memo)
      = map (\<lambda>k. JFin (of_int k)) ns \<and> sum_list ns = 0"
proof -
  obtain us where us: "list_all2 (in_units d) (it_entries (computeInvoiceTotals lines (JFin (of_int d)))) us"
    "sum_list (map bulk us) \<le> 2 ^ 38" "length us = length lines"
    "it_total (computeInvoiceTotals lines (JFin (of_int d))) = money d (sum_list (map entry_units us))"
    "it_tax_by_account (computeInvoiceTotals lines (JFin (of_int d))) = map (apsnd (money d)) (foldl add_units [] (concat (map snd us)))"
    by (rule document_units [OF assms])
  obtain s where s: "kind_sign kind = of_int s" "s = 1 \<or> s = -1" by (rule kind_sign_int)
  let ?m = "foldl add_units [] (concat (map snd us))"
  let ?ns = "s * sum_list (map entry_units us) # map (\<lambda>u. - s * fst u) (filter (\<lambda>u. fst u \<noteq> 0) us)
    @ map (\<lambda>t. - s * snd t) (filter (\<lambda>t. snd t \<noteq> 0) ?m)"
  have "sum_list (map (\<lambda>t. \<bar>snd t\<bar>) (concat (map snd us))) \<le> sum_list (map bulk us)" by (induction us) (simp_all add: bulk_def)
  then have m: "sum_list (map (\<lambda>t. \<bar>snd t\<bar>) ?m) \<le> 2 ^ 38" using add_units_total(2) [of "[]" "concat (map snd us)"] us(2) by simp
  have "\<bar>sum_list (map entry_units us)\<bar> \<le> sum_list (map bulk us)"
    by (induction us) (use entry_units_le(1) in \<open>auto intro: order_trans [OF abs_triangle_ineq] add_mono\<close>)
  then have total: "split_units d (js_mul (JFin (kind_sign kind)) (it_total (computeInvoiceTotals lines (JFin (of_int d)))))
      = JFin (of_int (s * sum_list (map entry_units us)))"
    unfolding us(4) s(1) split_units_def using us(2) s(2) by (intro signed_units [OF assms(1,2)]) auto
  have lines: "length lines = length (it_entries (computeInvoiceTotals lines (JFin (of_int d))))"
    using list_all2_lengthD [OF us(1)] us(3) by simp
  have "map (split_units d \<circ> pp_value) (buildPostingSplits kind (computeInvoiceTotals lines (JFin (of_int d))) lines acc memo)
      = map (\<lambda>k. JFin (of_int k)) ?ns"
    using total line_specs_units [OF assms(1,2) s us(1) lines us(2)] tax_specs_units [OF assms(1,2) s m]
    by (simp add: buildPostingSplits_def us(5))
  moreover have "sum_list ?ns = 0"
    using sum_scaled_nonzero [of "- s" fst us] sum_scaled_nonzero [of "- s" snd ?m] add_units_total(1) [of "[]" "concat (map snd us)"]
    by (simp add: entry_units_sum distrib_left)
  ultimately show ?thesis by blast
qed

section \<open>Payments go to the oldest documents first\<close>

lemma money_less:
  assumes "0 < d" "d \<le> 2 ^ 38" "\<bar>a\<bar> \<le> 2 ^ 40" "\<bar>b\<bar> \<le> 2 ^ 40"
  shows "js_less (money d a) (money d b) \<longleftrightarrow> a < b"
proof -
  have strict: "js_less (money d a) (money d b)" if ab: "a < b" "\<bar>a\<bar> \<le> 2 ^ 40" "\<bar>b\<bar> \<le> 2 ^ 40" for a b
  proof -
    obtain q r where q: "money d a = JFin q" "\<bar>q * of_int d - of_int a\<bar> \<le> 1 / 2 ^ 10"
      and r: "money d b = JFin r" "\<bar>r * of_int d - of_int b\<bar> \<le> 1 / 2 ^ 10"
      using near_money [OF assms(1,2) ab(2)] near_money [OF assms(1,2) ab(3)] by (auto simp: near_def)
    have "(of_int a :: rat) + 1 \<le> of_int b" using ab(1) by (metis of_int_1 of_int_add of_int_le_iff zless_imp_add1_zle)
    moreover have "\<bar>q * of_int d - of_int a\<bar> \<le> 1 / 1024" "\<bar>r * of_int d - of_int b\<bar> \<le> 1 / 1024" using q(2) r(2) by simp_all
    ultimately have "q * of_int d < r * of_int d" by linarith
    then have "q < r" using assms(1) by (simp add: mult_less_cancel_right)
    then show ?thesis by (simp add: q(1) r(1))
  qed
  obtain q r where "money d a = JFin q" "money d b = JFin r"
    using near_money [OF assms(1-3)] near_money [OF assms(1,2,4)] by (auto simp: near_def)
  then show ?thesis using strict [of a b] strict [of b a] assms(3,4) by (cases a b rule: linorder_cases) auto
qed

lemma half_unit_less:
  assumes "0 < d" "d \<le> 2 ^ 38" "\<bar>k\<bar> \<le> 2 ^ 40"
  shows "js_less (half_unit (JFin (of_int d))) (money d k) \<longleftrightarrow> 0 < k"
    "js_ge (half_unit (JFin (of_int d))) (money d k) \<longleftrightarrow> k \<le> 0"
proof -
  have d: "(0::rat) < of_int d" using assms(1) by simp
  have "\<bar>(1 / 2 / of_int d) * of_int d :: rat\<bar> \<le> 2 ^ 41" using d by simp
  from fl_near [OF assms(1,2) this] obtain h where h: "half_unit (JFin (of_int d)) = JFin h" "\<bar>h * of_int d - 1 / 2\<bar> \<le> 1 / 2 ^ 10"
    using d by (auto simp: half_unit_def)
  obtain q where q: "money d k = JFin q" "\<bar>q * of_int d - of_int k\<bar> \<le> 1 / 2 ^ 10"
    using near_money [OF assms] by (auto simp: near_def)
  have e: "\<bar>h * of_int d - 1 / 2\<bar> \<le> 1 / 1024" "\<bar>q * of_int d - of_int k\<bar> \<le> 1 / 1024" using h(2) q(2) by simp_all
  have "h < q \<longleftrightarrow> 0 < k"
  proof
    assume "h < q"
    then have "h * of_int d < q * of_int d" using d by simp
    then have "(0::rat) < of_int k" using e by linarith
    then show "0 < k" by simp
  next
    assume "0 < k"
    then have "(1::rat) \<le> of_int k" by simp
    then have "h * of_int d < q * of_int d" using e by linarith
    then show "h < q" using d by (simp add: mult_less_cancel_right)
  qed
  then show "js_less (half_unit (JFin (of_int d))) (money d k) \<longleftrightarrow> 0 < k"
    "js_ge (half_unit (JFin (of_int d))) (money d k) \<longleftrightarrow> k \<le> 0"
    by (auto simp: h(1) q(1) js_ge_def js_eq_def)
qed

lemma round_money:
  assumes "0 < d" "d \<le> 2 ^ 38" "\<bar>k\<bar> \<le> 2 ^ 38"
  shows "roundCurrency (money d k) (JFin (of_int d)) = money d k"
proof (rule round_near [OF assms(1,2) _ assms(3)])
  have "near d (1 / 2 ^ 10) (money d k) k" using near_money [OF assms(1,2), of k] assms(3) by simp
  then show "near d (1 / 4) (money d k) k" by (rule near_mono) simp
qed

lemma js_min_money:
  assumes "0 < d" "d \<le> 2 ^ 38" "\<bar>a\<bar> \<le> 2 ^ 38" "\<bar>b\<bar> \<le> 2 ^ 38"
  shows "js_min (money d a) (money d b) = money d (min a b)"
proof -
  obtain q r where "money d a = JFin q" "money d b = JFin r"
    using near_money [OF assms(1,2), of a] near_money [OF assms(1,2), of b] assms(3,4) by (auto simp: near_def)
  moreover have "js_less (money d b) (money d a) \<longleftrightarrow> b < a" using money_less [OF assms(1,2), of b a] assms(3,4) by simp
  ultimately show ?thesis by (auto simp: js_min_def min_def)
qed

text \<open>
  What paying \<open>r\<close> units over the documents \<open>is\<close> means: a first part of them is paid in full, at
  most the next one in part (\<open>p\<close>), and something is left only when no document is.
\<close>

definition paid_in_order ::
    "int \<Rightarrow> (open_invoice \<Rightarrow> int) \<Rightarrow> open_invoice list \<Rightarrow> int \<Rightarrow> (string \<times> js_number) list \<times> js_number \<Rightarrow> bool" where
  "paid_in_order d owed is r result \<longleftrightarrow> (\<exists>full rest p left. is = full @ rest \<and>
     result = (map (\<lambda>i. (oi_guid i, oi_due i)) full @ (if p = 0 then [] else [(oi_guid (hd rest), money d p)]), money d left) \<and>
     sum_list (map owed full) + p + left = r \<and> 0 \<le> p \<and> 0 \<le> left \<and>
     (p \<noteq> 0 \<longrightarrow> rest \<noteq> [] \<and> p < owed (hd rest)) \<and> (left \<noteq> 0 \<longrightarrow> rest = []))"

lemma paid_in_order_Cons:
  assumes "paid_in_order d owed js (r - owed i) (ps, l)" "oi_due i = money d (owed i)"
  shows "paid_in_order d owed (i # js) r ((oi_guid i, money d (owed i)) # ps, l)"
proof -
  obtain full rest p left where f: "js = full @ rest"
    "ps = map (\<lambda>i. (oi_guid i, oi_due i)) full @ (if p = 0 then [] else [(oi_guid (hd rest), money d p)])" "l = money d left"
    "sum_list (map owed full) + p + left = r - owed i" "0 \<le> p" "0 \<le> left"
    "p \<noteq> 0 \<longrightarrow> rest \<noteq> [] \<and> p < owed (hd rest)" "left \<noteq> 0 \<longrightarrow> rest = []"
    using assms(1) by (auto simp: paid_in_order_def)
  show ?thesis unfolding paid_in_order_def
    by (rule exI [of _ "i # full"], rule exI [of _ rest], rule exI [of _ p], rule exI [of _ left])
      (use f assms(2) in simp)
qed

lemma allocate_units:
  assumes d: "0 < d" "d \<le> 2 ^ 38" and r: "0 \<le> r" "r \<le> 2 ^ 38"
    and "\<forall>i \<in> set is. oi_due i = money d (owed i) \<and> 0 < owed i \<and> owed i \<le> 2 ^ 38"
  shows "paid_in_order d owed is r (allocate (JFin (of_int d)) is (money d r))"
  using r assms(5)
proof (induction "is" arbitrary: r)
  case Nil
  have "[] = ([] :: open_invoice list) @ []" by simp
  then show ?case unfolding paid_in_order_def
    by (intro exI [of _ "[]"] exI [of _ "[] :: open_invoice list"] exI [of _ 0] exI [of _ r]) (use Nil in simp)
next
  case (Cons i js)
  have due: "oi_due i = money d (owed i)" "0 < owed i" "owed i \<le> 2 ^ 38" using Cons.prems(3) by auto
  have stop: "paid_in_order d owed (i # js) q ((if q = 0 then [] else [(oi_guid i, money d q)]), money d 0)"
    if "0 \<le> q" "q < owed i" for q
    unfolding paid_in_order_def
    by (rule exI [of _ "[]"], rule exI [of _ "i # js"], rule exI [of _ q], rule exI [of _ 0]) (use that in simp)
  show ?case
  proof (cases "r = 0")
    case True
    have "allocate (JFin (of_int d)) (i # js) (money d r) = ([], money d 0)"
      using half_unit_less(2) [OF d, of 0] True d(1) by simp
    then show ?thesis using stop [of 0] True due(2) by simp
  next
    case False
    define p where "p = min (owed i) r"
    have p: "0 < p" "p \<le> r" "p \<le> owed i" "p \<le> 2 ^ 38" using False Cons.prems(1) due by (auto simp: p_def)
    have "roundCurrency (js_min (oi_due i) (money d r)) (JFin (of_int d)) = money d p"
      using js_min_money [OF d, of "owed i" r] round_money [OF d, of p] due Cons.prems p by (simp add: p_def [symmetric])
    moreover have "near d (1 / 4) (js_sub (money d r) (money d p)) (r - p)"
      by (rule near_mono [OF near_two(2) [OF d]]) (use p Cons.prems in simp_all)
    then have "roundCurrency (js_sub (money d r) (money d p)) (JFin (of_int d)) = money d (r - p)"
      by (rule round_near [OF d]) (use p Cons.prems in simp)
    moreover have "\<not> js_ge (half_unit (JFin (of_int d))) (money d r)"
      using half_unit_less(2) [OF d, of r] False Cons.prems by simp
    ultimately have step: "allocate (JFin (of_int d)) (i # js) (money d r) =
        (case allocate (JFin (of_int d)) js (money d (r - p)) of (rest, left) \<Rightarrow> ((oi_guid i, money d p) # rest, left))"
      by (simp add: Let_def)
    show ?thesis
    proof (cases "p = owed i")
      case True
      have "0 \<le> r - p" "r - p \<le> 2 ^ 38" using p Cons.prems by auto
      from Cons.IH [OF this] Cons.prems(3) have "paid_in_order d owed js (r - owed i) (allocate (JFin (of_int d)) js (money d (r - p)))"
        by (simp add: True)
      then show ?thesis unfolding step True
        by (cases "allocate (JFin (of_int d)) js (money d (r - owed i))") (simp add: paid_in_order_Cons [where owed = owed and i = i, OF _ due(1)])
    next
      case False
      then have "p = r" using p_def p(3) by linarith
      then have "allocate (JFin (of_int d)) js (money d (r - p)) = ([], money d 0)"
        using half_unit_less(2) [OF d, of 0] d(1) by (cases js) simp_all
      then show ?thesis using step stop [of p] False p \<open>p = r\<close> by simp
    qed
  qed
qed

interpretation open_cmp: comparison compare_open
  by unfold_locales (auto simp: compare_open_def Let_def split: if_splits option.splits)

text \<open>The time a document counts from; one without a posting date comes last.\<close>

definition posting_time :: "open_invoice \<Rightarrow> int" where
  "posting_time i = (case oi_posted i of Some t \<Rightarrow> t | None \<Rightarrow> 2 ^ 53 - 1)"

lemma sorted_by_time: "sorted (map posting_time (stable_sort compare_open is))"
proof -
  have "compare_open i j \<le> 0 \<Longrightarrow> posting_time i \<le> posting_time j" for i j
    by (auto simp: compare_open_def posting_time_def Let_def split: if_splits)
  then show ?thesis
    unfolding sorted_map by (intro sorted_wrt_mono_rel [OF _ open_cmp.sorted_stable_sort])
qed

lemma fifo_in_order:
  assumes "0 < d" "d \<le> 2 ^ 38" "0 \<le> r" "r \<le> 2 ^ 38"
    and "\<forall>i \<in> set is. oi_due i = money d (owed i) \<and> \<bar>owed i\<bar> \<le> 2 ^ 38"
  shows "paid_in_order d owed (stable_sort compare_open (filter (\<lambda>i. 0 < owed i) is)) r (allocatePaymentFifo is (money d r) (JFin (of_int d)))"
proof -
  have positive: "js_less (half_unit (JFin (of_int d))) (oi_due i) \<longleftrightarrow> 0 < owed i" if "i \<in> set is" for i
    using assms(5) that half_unit_less(1) [OF assms(1,2), of "owed i"] by auto
  then have "filter (\<lambda>i. js_less (half_unit (JFin (of_int d))) (oi_due i)) is = filter (\<lambda>i. 0 < owed i) is"
    by (intro filter_cong) auto
  moreover have "roundCurrency (money d r) (JFin (of_int d)) = money d r"
    using assms(3,4) by (intro round_money [OF assms(1,2)]) simp
  ultimately have run: "allocatePaymentFifo is (money d r) (JFin (of_int d)) =
      allocate (JFin (of_int d)) (stable_sort compare_open (filter (\<lambda>i. 0 < owed i) is)) (money d r)"
    by (simp add: allocatePaymentFifo_def)
  have "\<forall>i \<in> set (stable_sort compare_open (filter (\<lambda>i. 0 < owed i) is)). oi_due i = money d (owed i) \<and> 0 < owed i \<and> owed i \<le> 2 ^ 38"
    using assms(5) by auto
  from allocate_units [OF assms(1-4) this] show ?thesis unfolding run .
qed

text \<open>
  C23. A payment goes to the oldest documents first and to the last cent: the documents that are
  owed, in the order of their posting dates, are paid in full as far as the payment reaches, at
  most one more in part, and what is left over is left only when nothing more is owed.
\<close>
theorem payment_oldest_first:
  assumes "0 < d" "d \<le> 2 ^ 38" "0 \<le> r" "r \<le> 2 ^ 38"
    and "\<forall>i \<in> set is. oi_due i = money d (owed i) \<and> \<bar>owed i\<bar> \<le> 2 ^ 38"
  shows "\<exists>docs. mset docs = mset (filter (\<lambda>i. 0 < owed i) is) \<and> sorted (map posting_time docs) \<and>
    paid_in_order d owed docs r (allocatePaymentFifo is (money d r) (JFin (of_int d)))"
  using fifo_in_order [OF assms] sorted_by_time mset_stable_sort by blast

section \<open>Due dates\<close>

lemma last_of_month: "0 \<le> m \<Longrightarrow> m \<le> 11 \<Longrightarrow> make_day y (m + 1) 0 = make_day y m (month_length y m)"
proof (cases "m = 11")
  case True
  then show ?thesis using day_from_year_step [of y] days_before_year [of y]
    by (simp add: make_day_def numeral_eq_Suc)
next
  case False
  assume m: "0 \<le> m" "m \<le> 11"
  then have "nat (m + 1) = Suc (nat m)" by simp
  with False m show ?thesis by (simp add: make_day_def mod_pos_pos_trivial div_pos_pos_trivial)
qed

lemma days_in_month: "100 \<le> y \<Longrightarrow> 0 \<le> m \<Longrightarrow> m \<le> 11 \<Longrightarrow> daysInMonthUTC y m = month_length y m"
  using civil_make_day(3) [of "month_length y m" y m] month_length_bounds [of y m]
  by (simp add: daysInMonthUTC_def newDate_def last_of_month getDate_def day_number_def MS_PER_DAY_def mod_pos_pos_trivial
      div_pos_pos_trivial)

lemma noon_of_day: "day_number (make_day y m d * MS_PER_DAY + 43200000) = make_day y m d"
  by (simp add: day_number_def MS_PER_DAY_def)

text \<open>
  Proximo terms: the due date is the agreed day of the following month, or of the month after
  that when the posting is past the cutoff day, and the last day of the month where the
  month is shorter.
\<close>
theorem proximo_due_date:
  assumes "contains_text ''proximo'' (map lower_char (bt_type t))" "bt_duedays t = Some dd" "1 \<le> dd"
    and "100 \<le> getFullYear postDate"
  shows "let due = computeDueDate postDate (Some t);
      ahead = 12 * getFullYear due + getMonth due - (12 * getFullYear postDate + getMonth postDate)
    in getDate due = min dd (month_length (getFullYear due) (getMonth due)) \<and>
      ahead = (if (case bt_cutoff t of None \<Rightarrow> 0 | Some c \<Rightarrow> c) \<le> 0
          then if getDate postDate > (case bt_cutoff t of None \<Rightarrow> 0 | Some c \<Rightarrow> c) + month_length (getFullYear postDate) (getMonth postDate)
            then 2 else 1
          else if getDate postDate > (case bt_cutoff t of None \<Rightarrow> 0 | Some c \<Rightarrow> c) then 2 else 1)"
proof -
  define y where "y = getFullYear postDate"
  define m where "m = getMonth postDate"
  define c where "c = (case bt_cutoff t of None \<Rightarrow> 0 | Some c \<Rightarrow> c)"
  define cut where "cut = (if c \<le> 0 then c + daysInMonthUTC y m else c)"
  define n where "n = m + (if getDate postDate > cut then 2 else 1)"
  define Y where "Y = y + n div 12"
  define M where "M = n mod 12"
  have m: "0 \<le> m" "m \<le> 11" using civil_bounds [of "day_number postDate"] by (simp_all add: m_def getMonth_def)
  then have n: "0 \<le> n" by (simp add: n_def)
  have Y: "100 \<le> Y" using assms(4) n by (simp add: Y_def y_def)
  have M: "0 \<le> M" "M \<le> 11" by (simp_all add: M_def)
  have dim: "daysInMonthUTC y m = month_length y m" "daysInMonthUTC Y M = month_length Y M"
    using days_in_month [OF _ m, of y] days_in_month [OF Y M] assms(4) by (simp_all add: y_def)
  define day where "day = min dd (month_length Y M)"
  have day: "1 \<le> day" "day \<le> month_length (Y + M div 12) (M mod 12)"
    using assms(3) month_length_bounds [of Y M] M by (simp_all add: day_def)
  have due: "computeDueDate postDate (Some t) = make_day Y M day * MS_PER_DAY + 43200000"
    using assms(1,2) Y
    by (simp add: computeDueDate_def Let_def newDate_def y_def [symmetric] m_def [symmetric] c_def [symmetric]
        cut_def [symmetric] n_def [symmetric] Y_def [symmetric] M_def [symmetric] dim(2) day_def)
  have civil: "getFullYear (computeDueDate postDate (Some t)) = Y" "getMonth (computeDueDate postDate (Some t)) = M"
    "getDate (computeDueDate postDate (Some t)) = day"
    using civil_make_day [OF day] M
    by (simp_all add: due getFullYear_def getMonth_def getDate_def noon_of_day)
  have "12 * Y + M - (12 * y + m) = n - m" by (simp add: Y_def M_def)
  then show ?thesis
    by (simp add: Let_def civil day_def y_def [symmetric] m_def [symmetric] c_def [symmetric] n_def cut_def dim(1))
qed

theorem proximo_due_date_witness:
  "let t = \<lparr>bt_type = ''GNC_TERM_TYPE_PROXIMO'', bt_duedays = Some 31, bt_cutoff = Some 20\<rparr>; due = computeDueDate 0 (Some t);
      ahead = 12 * getFullYear due + getMonth due - (12 * getFullYear 0 + getMonth 0)
    in getDate due = min 31 (month_length (getFullYear due) (getMonth due)) \<and> ahead = 1"
proof -
  have "contains_text ''proximo'' (map lower_char ''GNC_TERM_TYPE_PROXIMO'')" "100 \<le> getFullYear 0" "getDate 0 = 1" by code_simp+
  then show ?thesis
    using proximo_due_date [of "\<lparr>bt_type = ''GNC_TERM_TYPE_PROXIMO'', bt_duedays = Some 31, bt_cutoff = Some 20\<rparr>" 31 0]
    by (simp add: Let_def)
qed

definition demo_open :: "open_invoice list" where
  "demo_open = [\<lparr>oi_guid = ''b'', oi_posted = Some 5, oi_due = money 100 2000\<rparr>,
     \<lparr>oi_guid = ''a'', oi_posted = Some 3, oi_due = money 100 1000\<rparr>]"

theorem payment_oldest_first_witness:
  "\<exists>docs. mset docs = mset (filter (\<lambda>i. 0 < (if oi_guid i = ''a'' then 1000 else 2000 :: int)) demo_open) \<and>
    sorted (map posting_time docs) \<and>
    paid_in_order 100 (\<lambda>i. if oi_guid i = ''a'' then 1000 else 2000) docs 1500
      (allocatePaymentFifo demo_open (money 100 1500) (JFin (of_int 100)))"
  by (rule payment_oldest_first) (simp_all add: demo_open_def)

text \<open>
  The header of the source promises rounding half away from zero; a price of 1.005 is no
  exact double, and is rounded down.
\<close>

lemma half_cent_rounded_down: "roundCurrency (fl (1005 / 1000)) (JFin 100) = JFin 1"
proof -
  have a: "fl (1005 / 1000) = JFin (1131529406376837 / 2 ^ 50)"
    by (subst fl_eval [of 0 _ 4526117625507348]) (simp_all add: pow2_def)
  have b: "fl (\<bar>1131529406376837 / 2 ^ 50\<bar> * 100) = JFin (7072058789855231 / 2 ^ 46)"
    by (subst fl_eval [of 6 _ 7072058789855231]) (simp_all add: pow2_def)
  have c: "js_round (JFin (7072058789855231 / 2 ^ 46)) = JFin 100"
    by (simp, intro floor_unique) simp_all
  show ?thesis using b c fl_int [of 100] fl_int [of 1] by (simp add: roundCurrency_def a [simplified])
qed

end
