(* ===== verification/Invoice_Engine.thy ===== *)
theory Invoice_Engine
  imports Invoice_Totals Period_Lock Reconcile
begin

text \<open>
  The life of an invoice or bill (src/lib/business/invoice-engine.ts): posting it, unposting it
  by a reversal, and paying it. The state holds the rows of the tables the three operations
  read and write; a database transaction that throws leaves those rows as they were. The row
  locks of the source make the operations on one document serial, so that an operation is a
  function of the state it finds; what another transaction may have done meanwhile is what
  that state holds. Creating, editing and listing documents is left out.
\<close>

section \<open>Operations on a state that may throw\<close>

type_synonym ('s, 'e, 'a) op = "'s \<Rightarrow> ('e + 'a) \<times> 's"

definition bind_op :: "('s, 'e, 'a) op \<Rightarrow> ('a \<Rightarrow> ('s, 'e, 'b) op) \<Rightarrow> ('s, 'e, 'b) op" where
  "bind_op m f s = (case m s of (Inl e, s') \<Rightarrow> (Inl e, s') | (Inr a, s') \<Rightarrow> f a s')"

definition yield :: "'a \<Rightarrow> ('s, 'e, 'a) op" where
  "yield a s = (Inr a, s)"

definition throw :: "'e \<Rightarrow> ('s, 'e, 'a) op" where
  "throw e s = (Inl e, s)"

definition require :: "bool \<Rightarrow> 'e \<Rightarrow> ('s, 'e, unit) op" where
  "require ok e s = (if ok then Inr () else Inl e, s)"

definition found :: "'a option \<Rightarrow> 'e \<Rightarrow> ('s, 'e, 'a) op" where
  "found v e s = (case v of None \<Rightarrow> (Inl e, s) | Some a \<Rightarrow> (Inr a, s))"

definition read_op :: "('s \<Rightarrow> 'a) \<Rightarrow> ('s, 'e, 'a) op" where
  "read_op f s = (Inr (f s), s)"

definition write_op :: "('s \<Rightarrow> 's) \<Rightarrow> ('s, 'e, unit) op" where
  "write_op f s = (Inr (), f s)"

fun for_each :: "('a \<Rightarrow> ('s, 'e, unit) op) \<Rightarrow> 'a list \<Rightarrow> ('s, 'e, unit) op" where
  "for_each f [] = yield ()"
| "for_each f (x # xs) = bind_op (f x) (\<lambda>_. for_each f xs)"

lemma bind_op_Inr_iff:
  "bind_op m f s = (Inr b, s') \<longleftrightarrow> (\<exists>a s1. m s = (Inr a, s1) \<and> f a s1 = (Inr b, s'))"
  by (auto simp: bind_op_def split: prod.splits sum.splits)

lemma op_Inr_iff [simp]:
  "yield a s = (Inr b, s') \<longleftrightarrow> b = a \<and> s' = s"
  "throw e s \<noteq> (Inr b, s')"
  "require ok e s = (Inr u, s') \<longleftrightarrow> ok \<and> s' = s"
  "found v e s = (Inr x, s') \<longleftrightarrow> v = Some x \<and> s' = s"
  "read_op g s = (Inr y, s') \<longleftrightarrow> y = g s \<and> s' = s"
  "write_op h s = (Inr u, s') \<longleftrightarrow> s' = h s"
  by (auto simp: yield_def throw_def require_def found_def read_op_def write_op_def split: option.splits)

section \<open>Tables\<close>

datatype slot_value = SlotString string | SlotGuid string | SlotTimespec int | SlotFrame string | SlotGdate string

record kvp_slot =
  kv_obj :: string
  kv_name :: string
  kv_value :: slot_value

record book_split =
  bx_guid :: string
  bx_tx :: string
  bx_account :: string
  bx_memo :: string
  bx_action :: string
  bx_state :: string
  bx_value :: "int \<times> int"
  bx_quantity :: "int \<times> int"
  bx_lot :: "string option"

record book_tx =
  by_guid :: string
  by_currency :: string
  by_num :: string
  by_post :: "int option"
  by_description :: string

record invoice_row =
  iv_guid :: string
  iv_id :: string
  iv_owner_type :: nat
  iv_owner :: string
  iv_currency :: string
  iv_terms :: "string option"
  iv_posted :: "int option"
  iv_post_txn :: "string option"
  iv_post_acc :: "string option"
  iv_post_lot :: "string option"

record business_lot =
  lt_guid :: string
  lt_account :: string
  lt_closed :: bool

record book_account =
  ba_guid :: string
  ba_name :: string
  ba_parent :: "string option"
  ba_type :: string
  ba_commodity :: "string option"
  ba_placeholder :: int
  ba_description :: string

type_synonym db_number = "int option \<times> int option"

record entry_row =
  en_date :: int
  en_description :: "string option"
  en_quantity :: db_number
  en_invoice :: "string option"
  en_i_acct :: "string option"
  en_i_price :: db_number
  en_i_discount :: db_number
  en_i_disc_type :: "amount_type option"
  en_i_disc_how :: "discount_how option"
  en_i_taxable :: int
  en_i_taxincluded :: int
  en_i_taxtable :: "string option"
  en_bill :: "string option"
  en_b_acct :: "string option"
  en_b_price :: db_number
  en_b_taxable :: int
  en_b_taxincluded :: int
  en_b_taxtable :: "string option"

record taxtable_row =
  tx_table :: string
  tx_account :: string
  tx_amount :: "int \<times> int"
  tx_kind :: int

record job_row =
  jb_guid :: string
  jb_owner_type :: nat
  jb_owner :: "string option"

record business =
  bz_accounts :: "book_account list"
  bz_invoices :: "invoice_row list"
  bz_entries :: "entry_row list"
  bz_lots :: "business_lot list"
  bz_txs :: "book_tx list"
  bz_splits :: "book_split list"
  bz_slots :: "kvp_slot list"
  bz_locks :: lock_cache
  bz_guids :: nat

text \<open>The errors: 400, 404 and 409 with what is wrong, and what the engine lets through.\<close>

datatype engine_error =
    InvoiceValidation string | InvoiceNotFound string | InvoiceState string
  | EnginePeriod period_error | SiblingKeyAdopted string | EngineLock lock_error
  | NoBigInt | NoEnd

text \<open>The tables the operations only read, and the clock, guids and dates of the process.\<close>

record engine_env =
  ev_now :: int
  ev_parse :: "string \<Rightarrow> int option"
  ev_settings :: lock_settings
  ev_guid :: "nat \<Rightarrow> string"
  ev_books :: "book_row list"
  ev_owned :: "string \<Rightarrow> string \<Rightarrow> string option"
  ev_customers :: "string \<Rightarrow> (string \<times> string) option"
  ev_vendors :: "string \<Rightarrow> (string \<times> string) option"
  ev_employees :: "string \<Rightarrow> (string \<times> string \<times> string) option"
  ev_jobs :: "job_row list"
  ev_fractions :: "string \<Rightarrow> int option"
  ev_taxtables :: "taxtable_row list"
  ev_terms :: "string \<Rightarrow> bill_term option"
  ev_adopt :: "book_account option"

type_synonym 'a engine = "(business, engine_error, 'a) op"

section \<open>Owners and the book\<close>

definition OWNER_TYPE_CUSTOMER :: nat where "OWNER_TYPE_CUSTOMER = 2"
definition OWNER_TYPE_JOB :: nat where "OWNER_TYPE_JOB = 3"
definition OWNER_TYPE_VENDOR :: nat where "OWNER_TYPE_VENDOR = 4"
definition OWNER_TYPE_EMPLOYEE :: nat where "OWNER_TYPE_EMPLOYEE = 5"

record resolved_owner =
  ro_name :: string
  ro_currency :: string
  ro_kind :: invoice_kind

definition resolveEndOwner :: "engine_env \<Rightarrow> nat \<Rightarrow> string \<Rightarrow> resolved_owner engine" where
  "resolveEndOwner env ownerType ownerGuid =
     (if ownerType = OWNER_TYPE_CUSTOMER then
        bind_op (found (ev_customers env ownerGuid) (InvoiceNotFound ''Customer''))
          (\<lambda>(n, c). yield \<lparr>ro_name = n, ro_currency = c, ro_kind = InvoiceKind\<rparr>)
      else if ownerType = OWNER_TYPE_VENDOR then
        bind_op (found (ev_vendors env ownerGuid) (InvoiceNotFound ''Vendor''))
          (\<lambda>(n, c). yield \<lparr>ro_name = n, ro_currency = c, ro_kind = BillKind\<rparr>)
      else if ownerType = OWNER_TYPE_EMPLOYEE then
        bind_op (found (ev_employees env ownerGuid) (InvoiceNotFound ''Employee''))
          (\<lambda>(addr, user, c). yield \<lparr>ro_name = (if addr = [] then user else addr), ro_currency = c, ro_kind = BillKind\<rparr>)
      else throw (InvoiceValidation ''Unsupported owner type''))"

text \<open>A job belongs to a customer or a vendor, so the source's recursion has depth one.\<close>

definition resolveOwner :: "engine_env \<Rightarrow> nat \<Rightarrow> string \<Rightarrow> resolved_owner engine" where
  "resolveOwner env ownerType ownerGuid =
     (if ownerType = OWNER_TYPE_JOB then
        bind_op (found (find (\<lambda>j. jb_guid j = ownerGuid) (ev_jobs env)) (InvoiceNotFound ''Job''))
          (\<lambda>job. if jb_owner_type job \<noteq> OWNER_TYPE_CUSTOMER \<and> jb_owner_type job \<noteq> OWNER_TYPE_VENDOR
             then throw (InvoiceValidation ''Job has unsupported owner type'')
             else if jb_owner job = None \<or> jb_owner job = Some [] then throw (InvoiceValidation ''Job has no owner'')
             else resolveEndOwner env (jb_owner_type job) (the (jb_owner job)))
      else resolveEndOwner env ownerType ownerGuid)"

definition ownerEntityType :: "nat \<Rightarrow> string engine" where
  "ownerEntityType t =
     (if t = OWNER_TYPE_CUSTOMER then yield ''customer'' else if t = OWNER_TYPE_VENDOR then yield ''vendor''
      else if t = OWNER_TYPE_JOB then yield ''job'' else if t = OWNER_TYPE_EMPLOYEE then yield ''employee''
      else throw (InvoiceValidation ''Unsupported owner type''))"

definition isEntityOwnedByBook :: "engine_env \<Rightarrow> string \<Rightarrow> string \<Rightarrow> string \<Rightarrow> bool" where
  "isEntityOwnedByBook env entity guid book \<longleftrightarrow> ev_owned env entity guid = Some book"

definition assertOwnerInBook :: "engine_env \<Rightarrow> string \<Rightarrow> nat \<Rightarrow> string \<Rightarrow> unit engine" where
  "assertOwnerInBook env book ownerType ownerGuid =
     bind_op (ownerEntityType ownerType) (\<lambda>entity.
       require (isEntityOwnedByBook env entity ownerGuid book) (InvoiceNotFound entity))"

definition assertInvoiceInBook :: "engine_env \<Rightarrow> string \<Rightarrow> string \<Rightarrow> unit engine" where
  "assertInvoiceInBook env book guid =
     require (isEntityOwnedByBook env ''invoice'' guid book) (InvoiceNotFound ''Invoice'')"

definition bookRootGuidFor :: "engine_env \<Rightarrow> string \<Rightarrow> string engine" where
  "bookRootGuidFor env book =
     found (map_option bk_root (find (\<lambda>b. bk_guid b = book) (ev_books env))) (InvoiceValidation ''Book not found'')"

text \<open>The bounded walk up the account tree; \<open>limit\<close> is 200 in one place and 25 in the other.\<close>

fun underRoot :: "nat \<Rightarrow> book_account list \<Rightarrow> string \<Rightarrow> string option \<Rightarrow> bool" where
  "underRoot 0 accounts r cur = False"
| "underRoot (Suc n) accounts r None = False"
| "underRoot (Suc n) accounts r (Some g) = (case find (\<lambda>a. ba_guid a = g) accounts of
      None \<Rightarrow> False
    | Some a \<Rightarrow> ba_guid a = r \<or> underRoot n accounts r (if ba_parent a = Some [] then None else ba_parent a))"

definition assertAccountsInBook :: "string \<Rightarrow> string list \<Rightarrow> string \<Rightarrow> unit engine" where
  "assertAccountsInBook r guids lbl =
     bind_op (read_op bz_accounts) (\<lambda>accounts.
       require (list_all (\<lambda>g. underRoot 200 accounts r (Some g)) (filter (\<lambda>g. g \<noteq> []) guids)) (InvoiceNotFound lbl))"

definition ownerTypeNameToInt :: "string \<Rightarrow> nat engine" where
  "ownerTypeNameToInt n =
     (if n = ''customer'' then yield OWNER_TYPE_CUSTOMER else if n = ''vendor'' then yield OWNER_TYPE_VENDOR
      else if n = ''job'' then yield OWNER_TYPE_JOB else if n = ''employee'' then yield OWNER_TYPE_EMPLOYEE
      else throw (InvoiceValidation ''Unsupported owner type''))"

definition getCurrencyFraction :: "engine_env \<Rightarrow> string \<Rightarrow> int engine" where
  "getCurrencyFraction env currency =
     bind_op (found (ev_fractions env currency) (InvoiceValidation ''Currency not found''))
       (\<lambda>f. yield (if f = 0 then 100 else f))"

definition generateGuid :: "engine_env \<Rightarrow> string engine" where
  "generateGuid env s = (Inr (ev_guid env (bz_guids s)), s\<lparr>bz_guids := Suc (bz_guids s)\<rparr>)"

text \<open>\<open>/^\d{4}-\d{2}-\d{2}/\<close>, then what \<open>Date\<close> makes of the day at noon.\<close>

definition iso_prefix :: "string \<Rightarrow> bool" where
  "iso_prefix s \<longleftrightarrow> length s \<ge> 10 \<and> list_all is_digit (take 4 s) \<and> s ! 4 = CHR ''-'' \<and> is_digit (s ! 5) \<and> is_digit (s ! 6)
     \<and> s ! 7 = CHR ''-'' \<and> is_digit (s ! 8) \<and> is_digit (s ! 9)"

definition parseIsoDateNoon :: "engine_env \<Rightarrow> string \<Rightarrow> int engine" where
  "parseIsoDateNoon env v =
     (if iso_prefix v then found (ev_parse env (take 10 v @ ''T12:00:00Z'')) (InvoiceValidation ''Invalid date'')
      else throw (InvoiceValidation ''Invalid date''))"

section \<open>Slots\<close>

definition add_slot :: "kvp_slot \<Rightarrow> unit engine" where
  "add_slot r = write_op (\<lambda>s. s\<lparr>bz_slots := bz_slots s @ [r]\<rparr>)"

definition writeGuidFrameSlot :: "engine_env \<Rightarrow> string \<Rightarrow> string \<Rightarrow> string \<Rightarrow> string \<Rightarrow> unit engine" where
  "writeGuidFrameSlot env obj frameName child guidVal =
     bind_op (generateGuid env) (\<lambda>frameGuid.
     bind_op (add_slot \<lparr>kv_obj = obj, kv_name = frameName, kv_value = SlotFrame frameGuid\<rparr>) (\<lambda>_.
       add_slot \<lparr>kv_obj = frameGuid, kv_name = frameName @ ''/'' @ child, kv_value = SlotGuid guidVal\<rparr>))"

definition writeStringSlot :: "string \<Rightarrow> string \<Rightarrow> string \<Rightarrow> unit engine" where
  "writeStringSlot obj n v =
     bind_op (write_op (\<lambda>s. s\<lparr>bz_slots := filter (\<lambda>r. \<not> (kv_obj r = obj \<and> kv_name r = n)) (bz_slots s)\<rparr>)) (\<lambda>_.
       add_slot \<lparr>kv_obj = obj, kv_name = n, kv_value = SlotString v\<rparr>)"

definition frames_of :: "kvp_slot list \<Rightarrow> string list" where
  "frames_of rs = concat (map (\<lambda>r. case kv_value r of SlotFrame g \<Rightarrow> if g = [] then [] else [g] | _ \<Rightarrow> []) rs)"

text \<open>
  The source's recursion follows the frames below an object and would not end on frames that
  contain one another; here it throws when it is deeper than \<open>fuel\<close>.
\<close>

fun deleteSlotsRecursive :: "nat \<Rightarrow> string \<Rightarrow> unit engine" where
  "deleteSlotsRecursive 0 obj = throw NoEnd"
| "deleteSlotsRecursive (Suc fuel) obj =
     bind_op (read_op (\<lambda>s. filter (\<lambda>r. kv_obj r = obj) (bz_slots s))) (\<lambda>rs.
     bind_op (for_each (deleteSlotsRecursive fuel) (frames_of rs)) (\<lambda>_.
       write_op (\<lambda>s. s\<lparr>bz_slots := filter (\<lambda>r. kv_obj r \<noteq> obj) (bz_slots s)\<rparr>)))"

definition deleteFrameSlot :: "string \<Rightarrow> string \<Rightarrow> unit engine" where
  "deleteFrameSlot obj frameName =
     bind_op (read_op (\<lambda>s. (length (bz_slots s), filter (\<lambda>r. kv_obj r = obj \<and> kv_name r = frameName) (bz_slots s)))) (\<lambda>(fuel, rs).
     bind_op (for_each (deleteSlotsRecursive (Suc fuel)) (frames_of rs)) (\<lambda>_.
       write_op (\<lambda>s. s\<lparr>bz_slots := filter (\<lambda>r. \<not> (kv_obj r = obj \<and> kv_name r = frameName)) (bz_slots s)\<rparr>)))"

section \<open>Posting\<close>

definition in_transaction :: "'a engine \<Rightarrow> 'a engine" where
  "in_transaction m s = (case m s of
      (Inl e, s') \<Rightarrow> (Inl e, s\<lparr>bz_locks := bz_locks s', bz_guids := bz_guids s'\<rparr>)
    | (Inr a, s') \<Rightarrow> (Inr a, s'))"

definition check_period :: "engine_env \<Rightarrow> string option \<Rightarrow> lockable_date list \<Rightarrow> unit engine" where
  "check_period env book dates s =
     (case book of
        None \<Rightarrow> (Inr (), s)
      | Some b \<Rightarrow> if b = [] then (Inr (), s)
          else (case assertNotLocked (ev_now env) (ev_settings env) b dates False (bz_locks s) of
              (Inl e, locks) \<Rightarrow> (Inl (EnginePeriod e), s\<lparr>bz_locks := locks\<rparr>)
            | (Inr _, locks) \<Rightarrow> (Inr (), s\<lparr>bz_locks := locks\<rparr>)))"

definition compare_post_accounts :: "string \<Rightarrow> book_account \<Rightarrow> book_account \<Rightarrow> int" where
  "compare_post_accounts currency a b =
     (let am = (if ba_commodity a = Some currency then 0 else 1); bm = (if ba_commodity b = Some currency then 0 else 1 :: int)
      in if am \<noteq> bm then am - bm else if ba_guid a < ba_guid b then -1 else if ba_guid a > ba_guid b then 1 else 0)"

definition post_account_name :: "invoice_kind \<Rightarrow> string" where
  "post_account_name kind = (if kind = InvoiceKind then ''Accounts Receivable'' else ''Accounts Payable'')"

definition post_account_type :: "invoice_kind \<Rightarrow> string" where
  "post_account_type kind = (if kind = InvoiceKind then ''RECEIVABLE'' else ''PAYABLE'')"

definition coerced :: "invoice_kind \<Rightarrow> book_account \<Rightarrow> book_account" where
  "coerced kind a = a\<lparr>ba_type := post_account_type kind, ba_placeholder := 0, ba_description := post_account_name kind\<rparr>"

text \<open>
  \<open>ev_adopt\<close> is the row the look-up under the claimed key finds, when another transaction
  committed one while this one waited for the key. The claim is the first of its transaction.
\<close>

definition findOrCreatePostAccount :: "engine_env \<Rightarrow> invoice_kind \<Rightarrow> string \<Rightarrow> string \<Rightarrow> string engine" where
  "findOrCreatePostAccount env kind r currency =
     bind_op (read_op bz_accounts) (\<lambda>accounts.
       let candidates = stable_sort (compare_post_accounts currency)
             (filter (\<lambda>a. ba_type a = post_account_type kind \<and> ba_placeholder a \<noteq> 1 \<and> underRoot 25 accounts r (Some (ba_guid a))) accounts);
           name = post_account_name kind
       in if candidates \<noteq> [] \<and> ba_commodity (hd candidates) = Some currency then yield (ba_guid (hd candidates))
       else case find (\<lambda>a. ba_parent a = Some r \<and> ba_name a = name) accounts of
           Some existing \<Rightarrow>
             bind_op (write_op (\<lambda>s. s\<lparr>bz_accounts := map (\<lambda>a. if ba_guid a = ba_guid existing then coerced kind a else a) (bz_accounts s)\<rparr>))
               (\<lambda>_. yield (ba_guid existing))
         | None \<Rightarrow>
             (case acquireAccountNameLock (Transaction True) 0 r name \<lparr>book_root = r, path = [name]\<rparr> None newScope of
                (Inl e, _) \<Rightarrow> throw (EngineLock e)
              | (Inr _, _) \<Rightarrow>
                  if ev_adopt env \<noteq> None then throw (SiblingKeyAdopted name)
                  else bind_op (generateGuid env) (\<lambda>guid.
                    bind_op (write_op (\<lambda>s. s\<lparr>bz_accounts := bz_accounts s @
                      [\<lparr>ba_guid = guid, ba_name = name, ba_parent = Some r, ba_type = post_account_type kind,
                        ba_commodity = Some currency, ba_placeholder = 0, ba_description = name\<rparr>]\<rparr>))
                      (\<lambda>_. yield guid))))"

definition dec_number :: "db_number \<Rightarrow> js_number" where
  "dec_number v = (case v of
      (Some n, Some d) \<Rightarrow> (case toDecimalNumber n d of Some x \<Rightarrow> x | None \<Rightarrow> JNaN)
    | _ \<Rightarrow> JFin 0)"

definition tax_table_of :: "engine_env \<Rightarrow> string option \<Rightarrow> tax_table option" where
  "tax_table_of env guid = (case guid of
      None \<Rightarrow> None
    | Some g \<Rightarrow> if g = [] then None else Some \<lparr>tt_guid = g, tt_entries =
        map (\<lambda>r. \<lparr>te_account = tx_account r, te_type = (if tx_kind r = 2 then PERCENT else VALUE),
            te_amount = dec_number (Some (fst (tx_amount r)), Some (snd (tx_amount r)))\<rparr>)
          (filter (\<lambda>r. tx_table r = g) (ev_taxtables env))\<rparr>)"

definition or_empty :: "string option \<Rightarrow> string" where
  "or_empty v = (case v of None \<Rightarrow> '''' | Some s \<Rightarrow> s)"

definition entryRowToLine :: "engine_env \<Rightarrow> invoice_kind \<Rightarrow> entry_row \<Rightarrow> entry_line" where
  "entryRowToLine env kind row =
     (if kind = InvoiceKind then
        \<lparr>el_account = or_empty (en_i_acct row), el_description = Some (or_empty (en_description row)),
         el_quantity = dec_number (en_quantity row), el_price = dec_number (en_i_price row),
         el_discount = Some (dec_number (en_i_discount row)),
         el_discount_type = Some (case en_i_disc_type row of Some t \<Rightarrow> t | None \<Rightarrow> VALUE),
         el_discount_how = Some (case en_i_disc_how row of Some h \<Rightarrow> h | None \<Rightarrow> PRETAX),
         el_taxable = Some (en_i_taxable row = 1), el_tax_included = (en_i_taxincluded row = 1),
         el_tax_table = tax_table_of env (en_i_taxtable row)\<rparr>
      else
        \<lparr>el_account = or_empty (en_b_acct row), el_description = Some (or_empty (en_description row)),
         el_quantity = dec_number (en_quantity row), el_price = dec_number (en_b_price row),
         el_discount = Some (JFin 0), el_discount_type = None, el_discount_how = None,
         el_taxable = Some (en_b_taxable row = 1), el_tax_included = (en_b_taxincluded row = 1),
         el_tax_table = tax_table_of env (en_b_taxtable row)\<rparr>)"

definition document_entries :: "invoice_kind \<Rightarrow> string \<Rightarrow> entry_row list \<Rightarrow> entry_row list" where
  "document_entries kind guid es =
     stable_sort (\<lambda>a b. en_date a - en_date b)
       (filter (\<lambda>e. (if kind = InvoiceKind then en_invoice e else en_bill e) = Some guid) es)"

definition fromDecimal :: "js_number \<Rightarrow> int \<Rightarrow> (int \<times> int) engine" where
  "fromDecimal v denom =
     (case js_round (js_mul v (JFin (of_int denom))) of JFin q \<Rightarrow> yield (\<lfloor>q\<rfloor>, denom) | _ \<Rightarrow> throw NoBigInt)"

record post_input =
  pi_date :: string
  pi_due :: "string option"
  pi_memo :: "string option"
  pi_description :: "string option"

record post_result =
  pr_tx :: string
  pr_lot :: string
  pr_account :: string
  pr_total :: js_number
  pr_due :: string

definition add_tx :: "book_tx \<Rightarrow> unit engine" where
  "add_tx t = write_op (\<lambda>s. s\<lparr>bz_txs := bz_txs s @ [t]\<rparr>)"

definition add_book_split :: "engine_env \<Rightarrow> (string \<Rightarrow> book_split) \<Rightarrow> unit engine" where
  "add_book_split env f = bind_op (generateGuid env) (\<lambda>g. write_op (\<lambda>s. s\<lparr>bz_splits := bz_splits s @ [f g]\<rparr>))"

definition write_posting_split :: "engine_env \<Rightarrow> string \<Rightarrow> string \<Rightarrow> int \<Rightarrow> posting_spec \<Rightarrow> unit engine" where
  "write_posting_split env txnGuid lotGuid fraction spec =
     bind_op (fromDecimal (pp_value spec) fraction) (\<lambda>frac.
       add_book_split env (\<lambda>g. \<lparr>bx_guid = g, bx_tx = txnGuid, bx_account = pp_account spec, bx_memo = pp_memo spec,
         bx_action = pp_action spec, bx_state = ''n'', bx_value = frac, bx_quantity = frac,
         bx_lot = (if pp_post spec then Some lotGuid else None)\<rparr>))"

definition TXN_READONLY_REASON :: string where
  "TXN_READONLY_REASON = ''Generated from an invoice. Try unposting the invoice.''"

definition due_date_of :: "engine_env \<Rightarrow> post_input \<Rightarrow> invoice_row \<Rightarrow> int \<Rightarrow> int engine" where
  "due_date_of env inp invoice postedAt =
     (case pi_due inp of
        Some d \<Rightarrow> if d \<noteq> [] then parseIsoDateNoon env d
          else yield (computeDueDate postedAt (case iv_terms invoice of Some g \<Rightarrow> if g = [] then None else ev_terms env g | None \<Rightarrow> None))
      | None \<Rightarrow> yield (computeDueDate postedAt (case iv_terms invoice of Some g \<Rightarrow> if g = [] then None else ev_terms env g | None \<Rightarrow> None)))"

definition set_invoice :: "string \<Rightarrow> (invoice_row \<Rightarrow> invoice_row) \<Rightarrow> unit engine" where
  "set_invoice guid f = write_op (\<lambda>s. s\<lparr>bz_invoices := map (\<lambda>i. if iv_guid i = guid then f i else i) (bz_invoices s)\<rparr>)"

definition find_invoice :: "string \<Rightarrow> invoice_row engine" where
  "find_invoice guid = bind_op (read_op (\<lambda>s. find (\<lambda>i. iv_guid i = guid) (bz_invoices s))) (\<lambda>i. found i (InvoiceNotFound ''Invoice''))"

text \<open>The writes of a posting, once everything has been checked: its lot and transaction, then its splits.\<close>

definition open_posting ::
    "engine_env \<Rightarrow> string \<Rightarrow> post_input \<Rightarrow> invoice_row \<Rightarrow> resolved_owner \<Rightarrow> int \<Rightarrow> int \<Rightarrow> string \<Rightarrow> (string \<times> string) engine" where
  "open_posting env guid inp invoice owner postedAt dueDate postAccount =
     bind_op (generateGuid env) (\<lambda>lotGuid.
     bind_op (write_op (\<lambda>s. s\<lparr>bz_lots := bz_lots s @ [\<lparr>lt_guid = lotGuid, lt_account = postAccount, lt_closed = False\<rparr>]\<rparr>)) (\<lambda>_.
     bind_op (writeGuidFrameSlot env lotGuid ''gncInvoice'' ''invoice-guid'' guid) (\<lambda>_.
     bind_op (generateGuid env) (\<lambda>txnGuid.
     bind_op (add_tx \<lparr>by_guid = txnGuid, by_currency = iv_currency invoice, by_num = iv_id invoice, by_post = Some postedAt,
         by_description = (case pi_description inp of Some d \<Rightarrow> d | None \<Rightarrow> ro_name owner)\<rparr>) (\<lambda>_.
     bind_op (writeGuidFrameSlot env txnGuid ''gncInvoice'' ''invoice-guid'' guid) (\<lambda>_.
     bind_op (for_each add_slot
        [\<lparr>kv_obj = txnGuid, kv_name = ''trans-txn-type'', kv_value = SlotString ''I''\<rparr>,
         \<lparr>kv_obj = txnGuid, kv_name = ''trans-date-due'', kv_value = SlotTimespec dueDate\<rparr>,
         \<lparr>kv_obj = txnGuid, kv_name = ''trans-read-only'', kv_value = SlotString TXN_READONLY_REASON\<rparr>,
         \<lparr>kv_obj = txnGuid, kv_name = ''date-posted'', kv_value = SlotGdate (take 10 (pi_date inp))\<rparr>]) (\<lambda>_.
     yield (lotGuid, txnGuid))))))))"

definition write_posting ::
    "engine_env \<Rightarrow> string \<Rightarrow> post_input \<Rightarrow> invoice_row \<Rightarrow> resolved_owner \<Rightarrow> string \<Rightarrow> entry_line list \<Rightarrow> int
      \<Rightarrow> int \<Rightarrow> int \<Rightarrow> string \<Rightarrow> post_result engine" where
  "write_posting env guid inp invoice owner bookRoot lines fraction postedAt dueDate postAccount =
     (let totals = computeInvoiceTotals lines (JFin (of_int fraction));
          specs = buildPostingSplits (ro_kind owner) totals lines postAccount (or_empty (pi_memo inp))
      in bind_op (open_posting env guid inp invoice owner postedAt dueDate postAccount) (\<lambda>(lotGuid, txnGuid).
         bind_op (assertAccountsInBook bookRoot (map pp_account specs) ''Posting account(s)'') (\<lambda>_.
         bind_op (for_each (write_posting_split env txnGuid lotGuid fraction) specs) (\<lambda>_.
         bind_op (set_invoice guid (\<lambda>i. i\<lparr>iv_posted := Some postedAt, iv_post_txn := Some txnGuid, iv_post_acc := Some postAccount,
             iv_post_lot := Some lotGuid\<rparr>)) (\<lambda>_.
         yield \<lparr>pr_tx = txnGuid, pr_lot = lotGuid, pr_account = postAccount, pr_total = it_total totals, pr_due = iso_date dueDate\<rparr>)))))"

definition falsy_guid :: "string option \<Rightarrow> bool" where
  "falsy_guid g \<longleftrightarrow> g = None \<or> g = Some []"

definition post_once :: "engine_env \<Rightarrow> string \<Rightarrow> string \<Rightarrow> string \<Rightarrow> post_input \<Rightarrow> post_result engine" where
  "post_once env book bookRoot guid inp = in_transaction (
     bind_op (assertInvoiceInBook env book guid) (\<lambda>_.
     bind_op (find_invoice guid) (\<lambda>invoice.
     bind_op (require (falsy_guid (iv_post_txn invoice)) (InvoiceState ''Invoice is already posted'')) (\<lambda>_.
     bind_op (resolveOwner env (iv_owner_type invoice) (iv_owner invoice)) (\<lambda>owner.
     bind_op (read_op (\<lambda>s. document_entries (ro_kind owner) guid (bz_entries s))) (\<lambda>entryRows.
     bind_op (require (entryRows \<noteq> []) (InvoiceValidation ''Cannot post an invoice with no entries'')) (\<lambda>_.
     let lines = map (entryRowToLine env (ro_kind owner)) entryRows
     in bind_op (getCurrencyFraction env (iv_currency invoice)) (\<lambda>fraction.
     bind_op (require (\<not> js_eq (it_total (computeInvoiceTotals lines (JFin (of_int fraction)))) (JFin 0))
       (InvoiceValidation ''Cannot post an invoice with a zero total'')) (\<lambda>_.
     bind_op (parseIsoDateNoon env (pi_date inp)) (\<lambda>postedAt.
     bind_op (due_date_of env inp invoice postedAt) (\<lambda>dueDate.
     bind_op (findOrCreatePostAccount env (ro_kind owner) bookRoot (iv_currency invoice)) (\<lambda>postAccount.
       write_posting env guid inp invoice owner bookRoot lines fraction postedAt dueDate postAccount))))))))))))"

text \<open>
  The retry: attempt \<open>n\<close> runs with its own \<open>ev_adopt\<close>, and the row it adopted is in the table
  when the next attempt starts.
\<close>

definition with_adopt :: "engine_env \<Rightarrow> book_account option \<Rightarrow> engine_env" where
  "with_adopt env r = env\<lparr>ev_adopt := r\<rparr>"

fun withAdoptionRetry :: "(book_account option \<Rightarrow> 'a engine) \<Rightarrow> nat \<Rightarrow> book_account option list \<Rightarrow> 'a engine" where
  "withAdoptionRetry attempt left adopts s =
     (let adopt = (case adopts of [] \<Rightarrow> None | a # _ \<Rightarrow> a)
      in case attempt adopt s of
        (Inl (SiblingKeyAdopted n), s') \<Rightarrow>
          (case left of
             0 \<Rightarrow> (Inl (SiblingKeyAdopted n), s')
           | Suc left' \<Rightarrow> withAdoptionRetry attempt left' (tl adopts)
               (s'\<lparr>bz_accounts := bz_accounts s' @ (case adopt of None \<Rightarrow> [] | Some a \<Rightarrow> [a])\<rparr>))
      | r \<Rightarrow> r)"

definition postInvoice ::
    "engine_env \<Rightarrow> book_account option list \<Rightarrow> string \<Rightarrow> string \<Rightarrow> post_input \<Rightarrow> post_result engine" where
  "postInvoice env adopts book guid inp =
     bind_op (bookRootGuidFor env book) (\<lambda>bookRoot.
     bind_op (check_period env (getBookGuidForRoot (ev_books env) bookRoot) [DateString (pi_date inp)]) (\<lambda>_.
       withAdoptionRetry (\<lambda>adopt. post_once (with_adopt env adopt) book bookRoot guid inp) 2 adopts))"

section \<open>Unposting\<close>

function bigint_gcd_loop :: "int \<Rightarrow> int \<Rightarrow> int" where
  "bigint_gcd_loop x y = (if y \<le> 0 then x else bigint_gcd_loop y (x mod y))"
  by pat_completeness auto
termination by (relation "measure (\<lambda>(x, y). nat y)") auto

definition bigintGcd :: "int \<Rightarrow> int \<Rightarrow> int" where
  "bigintGcd a b = (let x = bigint_gcd_loop \<bar>a\<bar> \<bar>b\<bar> in if x = 0 then 1 else x)"

definition sumSplitValues :: "(int \<times> int) list \<Rightarrow> int \<times> int" where
  "sumSplitValues vs = foldl (\<lambda>(num, denom) (n, d).
     let num' = num * d + n * denom; denom' = denom * d; g = bigintGcd num' denom'
     in (num' sdiv g, denom' sdiv g)) (0, 1) vs"

definition assertReversiblePosting :: "invoice_row \<Rightarrow> book_tx option \<Rightarrow> book_split list \<Rightarrow> book_tx engine" where
  "assertReversiblePosting invoice postingTxn postingSplits =
     bind_op (found postingTxn (InvoiceState ''posting transaction no longer exists'')) (\<lambda>t.
     bind_op (require (postingSplits \<noteq> []) (InvoiceState ''posting transaction has no splits left'')) (\<lambda>_.
     bind_op (require (\<not> list_ex (\<lambda>s. snd (bx_value s) = 0 \<or> snd (bx_quantity s) = 0) postingSplits)
       (InvoiceState ''posting transaction has a split with a zero denominator'')) (\<lambda>_.
     bind_op (require (fst (sumSplitValues (map bx_value postingSplits)) = 0) (InvoiceState ''posting transaction does not balance'')) (\<lambda>_.
     if falsy_guid (iv_post_lot invoice) then yield t
     else let lotSplits = filter (\<lambda>s. bx_lot s = iv_post_lot invoice) postingSplits
       in bind_op (require (length lotSplits = 1) (InvoiceState ''expected exactly one split to carry the lot'')) (\<lambda>_.
          bind_op (require (falsy_guid (iv_post_acc invoice) \<or> Some (bx_account (hd lotSplits)) = iv_post_acc invoice)
            (InvoiceState ''the receivable or payable split has moved'')) (\<lambda>_. yield t))))))"

definition reversalPostDate :: "int option \<Rightarrow> int \<Rightarrow> int" where
  "reversalPostDate original clock =
     (let today = day_number clock * MS_PER_DAY + 43200000
      in case original of Some t \<Rightarrow> if t > today then t else today | None \<Rightarrow> today)"

definition parent_map :: "book_account list \<Rightarrow> string \<Rightarrow> string option option" where
  "parent_map accounts g = map_option ba_parent (find (\<lambda>a. ba_guid a = g) accounts)"

definition book_of_account :: "engine_env \<Rightarrow> string \<Rightarrow> string option engine" where
  "book_of_account env account =
     bind_op (read_op bz_accounts) (\<lambda>accounts.
       found (getBookGuidForAccount (Suc (length accounts)) (parent_map accounts) (ev_books env) account) NoEnd)"

definition SLOT_REVERSES_TXN :: string where "SLOT_REVERSES_TXN = ''gncweb-reverses-txn''"
definition SLOT_REVERSED_BY_TXN :: string where "SLOT_REVERSED_BY_TXN = ''gncweb-reversed-by-txn''"
definition SLOT_UNPOSTED_INVOICE :: string where "SLOT_UNPOSTED_INVOICE = ''gncweb-unposted-invoice-guid''"

definition reversed_split :: "string \<Rightarrow> string \<Rightarrow> book_split \<Rightarrow> string \<Rightarrow> book_split" where
  "reversed_split reversalGuid memo s g =
     \<lparr>bx_guid = g, bx_tx = reversalGuid, bx_account = bx_account s, bx_memo = memo, bx_action = bx_action s, bx_state = ''n'',
      bx_value = (- fst (bx_value s), snd (bx_value s)), bx_quantity = (- fst (bx_quantity s), snd (bx_quantity s)),
      bx_lot = bx_lot s\<rparr>"

text \<open>The dash of the description is written with the two hyphens it has no ASCII form for.\<close>

definition reversal_tx :: "string \<Rightarrow> int \<Rightarrow> invoice_row \<Rightarrow> book_tx \<Rightarrow> book_tx" where
  "reversal_tx guid posted invoice t =
     \<lparr>by_guid = guid, by_currency = by_currency t, by_num = by_num t, by_post = Some posted,
      by_description = ''Unpost reversal -- '' @ (if by_description t = [] then ''invoice '' @ iv_id invoice else by_description t)\<rparr>"

definition set_lot_closed :: "string \<Rightarrow> unit engine" where
  "set_lot_closed lot = write_op (\<lambda>s. s\<lparr>bz_lots := map (\<lambda>l. if lt_guid l = lot then l\<lparr>lt_closed := True\<rparr> else l) (bz_lots s)\<rparr>)"

definition unpostInvoice :: "engine_env \<Rightarrow> string \<Rightarrow> string \<Rightarrow> unit engine" where
  "unpostInvoice env book guid = in_transaction (
     bind_op (assertInvoiceInBook env book guid) (\<lambda>_.
     bind_op (find_invoice guid) (\<lambda>invoice.
     bind_op (require (\<not> falsy_guid (iv_post_txn invoice)) (InvoiceState ''Invoice is not posted'')) (\<lambda>_.
     let postTxnGuid = the (iv_post_txn invoice)
     in bind_op (read_op (\<lambda>s. list_ex (\<lambda>x. bx_lot x = iv_post_lot invoice \<and> bx_tx x \<noteq> postTxnGuid) (bz_splits s))) (\<lambda>foreign.
     bind_op (require (falsy_guid (iv_post_lot invoice) \<or> \<not> foreign) (InvoiceState ''payments are applied to this invoice'')) (\<lambda>_.
     bind_op (read_op (\<lambda>s. (find (\<lambda>t. by_guid t = postTxnGuid) (bz_txs s), filter (\<lambda>x. bx_tx x = postTxnGuid) (bz_splits s)))) (\<lambda>(t, postingSplits).
     bind_op (assertReversiblePosting invoice t postingSplits) (\<lambda>postingTxn.
     let reversalDate = reversalPostDate (by_post postingTxn) (ev_now env)
     in bind_op (if falsy_guid (iv_post_acc invoice) then yield None else book_of_account env (the (iv_post_acc invoice))) (\<lambda>lockBook.
     bind_op (check_period env lockBook [DateValue reversalDate]) (\<lambda>_.
     bind_op (generateGuid env) (\<lambda>reversalGuid.
     bind_op (add_tx (reversal_tx reversalGuid reversalDate invoice postingTxn)) (\<lambda>_.
     let memo = ''Reverses invoice '' @ iv_id invoice @ '' posted '' @ (case by_post postingTxn of Some d \<Rightarrow> iso_date d | None \<Rightarrow> ''undated'')
     in bind_op (for_each (\<lambda>x. add_book_split env (reversed_split reversalGuid memo x)) postingSplits) (\<lambda>_.
     bind_op (writeStringSlot reversalGuid SLOT_REVERSES_TXN postTxnGuid) (\<lambda>_.
     bind_op (writeStringSlot reversalGuid SLOT_UNPOSTED_INVOICE guid) (\<lambda>_.
     bind_op (writeStringSlot reversalGuid ''trans-read-only'' (''Reverses the posting of invoice '' @ iv_id invoice @
       ''. Deleting it would leave that posting standing alone.'')) (\<lambda>_.
     bind_op (deleteFrameSlot postTxnGuid ''gncInvoice'') (\<lambda>_.
     bind_op (writeStringSlot postTxnGuid SLOT_UNPOSTED_INVOICE guid) (\<lambda>_.
     bind_op (writeStringSlot postTxnGuid SLOT_REVERSED_BY_TXN reversalGuid) (\<lambda>_.
     bind_op (writeStringSlot postTxnGuid ''trans-read-only'' (''Reversed when invoice '' @ iv_id invoice @
       '' was unposted. Kept for the audit trail.'')) (\<lambda>_.
     bind_op (if falsy_guid (iv_post_lot invoice) then yield ()
       else bind_op (deleteFrameSlot (the (iv_post_lot invoice)) ''gncInvoice'') (\<lambda>_. set_lot_closed (the (iv_post_lot invoice)))) (\<lambda>_.
       set_invoice guid (\<lambda>i. i\<lparr>iv_posted := None, iv_post_txn := None, iv_post_acc := None, iv_post_lot := None\<rparr>))))))))))))))))))))))"

section \<open>Payments\<close>

record open_document =
  od_guid :: string
  od_id :: string
  od_posted :: "int option"
  od_lot :: string
  od_acc :: string
  od_currency :: string
  od_due :: js_number

record payment_input =
  pm_owner_type :: string
  pm_owner :: string
  pm_transfer :: string
  pm_amount :: js_number
  pm_date :: string
  pm_num :: "string option"
  pm_memo :: "string option"
  pm_tx :: "string option"
  pm_allocations :: "(string \<times> js_number) list option"

record payment_result =
  pq_tx :: string
  pq_allocations :: "(string \<times> js_number) list"
  pq_paid :: "string list"

definition postedOwnerDocs :: "engine_env \<Rightarrow> string \<Rightarrow> nat \<Rightarrow> string \<Rightarrow> invoice_row list \<Rightarrow> invoice_row list" where
  "postedOwnerDocs env book endType owner is =
     (let jobGuids = map jb_guid (filter (\<lambda>j. ev_owned env ''job'' (jb_guid j) = Some book \<and> jb_owner_type j = endType \<and> jb_owner j = Some owner) (ev_jobs env))
      in filter (\<lambda>i. ev_owned env ''invoice'' (iv_guid i) = Some book \<and> iv_post_txn i \<noteq> None \<and>
           (iv_owner_type i = endType \<and> iv_owner i = owner \<or> iv_owner_type i = OWNER_TYPE_JOB \<and> iv_owner i \<in> set jobGuids)) is)"

text \<open>The amount due is rounded with the default fraction here: the call passes none.\<close>

definition lot_values :: "book_split list \<Rightarrow> string \<Rightarrow> js_number list" where
  "lot_values ss lot = map (\<lambda>x. dec_number (Some (fst (bx_value x)), Some (snd (bx_value x)))) (filter (\<lambda>x. bx_lot x = Some lot) ss)"

definition loadOpenDocuments :: "invoice_kind \<Rightarrow> invoice_row list \<Rightarrow> book_split list \<Rightarrow> open_document list" where
  "loadOpenDocuments kind is ss =
     map (\<lambda>i. \<lparr>od_guid = iv_guid i, od_id = iv_id i, od_posted = iv_posted i, od_lot = the (iv_post_lot i), od_acc = the (iv_post_acc i),
         od_currency = iv_currency i, od_due = amountDueFromLotSplits kind (lot_values ss (the (iv_post_lot i))) (JFin 100)\<rparr>)
       (filter (\<lambda>i. \<not> falsy_guid (iv_post_lot i) \<and> \<not> falsy_guid (iv_post_acc i)) is)"

definition find_open :: "open_document list \<Rightarrow> string \<Rightarrow> open_document option" where
  "find_open docs g = find (\<lambda>d. od_guid d = g) docs"

definition check_allocation :: "string \<Rightarrow> int \<Rightarrow> open_document list \<Rightarrow> string \<times> js_number \<Rightarrow> unit engine" where
  "check_allocation currency fraction docs a =
     bind_op (found (find_open docs (fst a)) (InvoiceValidation ''not an open posted document for this owner'')) (\<lambda>doc.
     bind_op (require (js_less (JFin 0) (snd a)) (InvoiceValidation ''Allocation amounts must be positive'')) (\<lambda>_.
     bind_op (require (\<not> js_less (js_add (od_due doc) (half_unit (JFin (of_int fraction)))) (snd a)) (InvoiceValidation ''Allocation exceeds amount due'')) (\<lambda>_.
       require (od_currency doc = currency) (InvoiceValidation ''multi-currency payments are not supported''))))"

definition explicit_allocations ::
    "string \<Rightarrow> int \<Rightarrow> js_number \<Rightarrow> open_document list \<Rightarrow> (string \<times> js_number) list \<Rightarrow> (string \<times> js_number) list engine" where
  "explicit_allocations currency fraction amount docs as =
     bind_op (for_each (check_allocation currency fraction docs) as) (\<lambda>_.
     bind_op (require (distinct (map fst as)) (InvoiceValidation ''Duplicate invoice in allocations'')) (\<lambda>_.
     let sum = roundCurrency (foldl js_add (JFin 0) (map snd as)) (JFin (of_int fraction))
     in bind_op (require (\<not> js_less (half_unit (JFin (of_int fraction))) (js_abs (js_sub sum amount)))
          (InvoiceValidation ''Allocation total does not equal payment amount'')) (\<lambda>_.
        yield (map (\<lambda>a. (fst a, roundCurrency (snd a) (JFin (of_int fraction)))) as))))"

definition fifo_allocations ::
    "string \<Rightarrow> int \<Rightarrow> js_number \<Rightarrow> open_document list \<Rightarrow> (string \<times> js_number) list engine" where
  "fifo_allocations currency fraction amount docs =
     (let sameCurrency = filter (\<lambda>d. od_currency d = currency) docs;
          fifo = allocatePaymentFifo (map (\<lambda>d. \<lparr>oi_guid = od_guid d, oi_posted = od_posted d, oi_due = od_due d\<rparr>) sameCurrency)
            amount (JFin (of_int fraction))
      in bind_op (require (\<not> js_less (half_unit (JFin (of_int fraction))) (snd fifo)) (InvoiceValidation ''Payment exceeds the total amount due'')) (\<lambda>_.
         bind_op (require (fst fifo \<noteq> []) (InvoiceValidation ''No open posted invoices to apply the payment to'')) (\<lambda>_.
         yield (fst fifo))))"

definition write_payment_split :: "engine_env \<Rightarrow> string \<Rightarrow> int \<Rightarrow> payment_spec \<Rightarrow> unit engine" where
  "write_payment_split env txnGuid fraction spec =
     bind_op (fromDecimal (py_value spec) fraction) (\<lambda>frac.
       add_book_split env (\<lambda>g. \<lparr>bx_guid = g, bx_tx = txnGuid, bx_account = py_account spec, bx_memo = py_memo spec,
         bx_action = py_action spec, bx_state = ''n'', bx_value = frac, bx_quantity = frac, bx_lot = py_lot spec\<rparr>))"

definition fully_paid :: "int \<Rightarrow> open_document list \<Rightarrow> (string \<times> js_number) list \<Rightarrow> (string \<times> js_number) list" where
  "fully_paid fraction docs as =
     filter (\<lambda>a. js_ge (half_unit (JFin (of_int fraction))) (js_abs (js_sub (od_due (the (find_open docs (fst a)))) (snd a)))) as"

definition write_payment ::
    "engine_env \<Rightarrow> payment_input \<Rightarrow> resolved_owner \<Rightarrow> int \<Rightarrow> int \<Rightarrow> js_number \<Rightarrow> open_document list
      \<Rightarrow> (string \<times> js_number) list \<Rightarrow> payment_result engine" where
  "write_payment env inp owner posted fraction amount docs allocations =
     bind_op (case pm_tx inp of Some g \<Rightarrow> yield g | None \<Rightarrow> generateGuid env) (\<lambda>txnGuid.
     bind_op (add_tx \<lparr>by_guid = txnGuid, by_currency = ro_currency owner, by_num = or_empty (pm_num inp), by_post = Some posted,
         by_description = ro_name owner\<rparr>) (\<lambda>_.
     bind_op (for_each add_slot
        [\<lparr>kv_obj = txnGuid, kv_name = ''trans-txn-type'', kv_value = SlotString ''P''\<rparr>,
         \<lparr>kv_obj = txnGuid, kv_name = ''date-posted'', kv_value = SlotGdate (take 10 (pm_date inp))\<rparr>]) (\<lambda>_.
     bind_op (for_each (write_payment_split env txnGuid fraction)
        (buildPaymentSplits (ro_kind owner) amount (pm_transfer inp)
          (map (\<lambda>a. let doc = the (find_open docs (fst a)) in \<lparr>la_account = od_acc doc, la_lot = od_lot doc, la_amount = snd a\<rparr>) allocations)
          (or_empty (pm_memo inp)))) (\<lambda>_.
     bind_op (for_each (\<lambda>a. set_lot_closed (od_lot (the (find_open docs (fst a))))) (fully_paid fraction docs allocations)) (\<lambda>_.
       yield \<lparr>pq_tx = txnGuid, pq_allocations = allocations, pq_paid = map fst (fully_paid fraction docs allocations)\<rparr>)))))"

definition already_paid :: "payment_input \<Rightarrow> business \<Rightarrow> payment_result option" where
  "already_paid inp s = (case pm_tx inp of
      None \<Rightarrow> None
    | Some g \<Rightarrow> if g \<noteq> [] \<and> list_ex (\<lambda>t. by_guid t = g) (bz_txs s)
        then Some \<lparr>pq_tx = g, pq_allocations = (case pm_allocations inp of None \<Rightarrow> [] | Some as \<Rightarrow> as), pq_paid = []\<rparr>
        else None)"

text \<open>What the transaction does once its checks on owner and accounts have passed.\<close>

definition pay_documents ::
    "engine_env \<Rightarrow> string \<Rightarrow> payment_input \<Rightarrow> nat \<Rightarrow> resolved_owner \<Rightarrow> int \<Rightarrow> payment_result engine" where
  "pay_documents env book inp endType owner posted =
     bind_op (getCurrencyFraction env (ro_currency owner)) (\<lambda>fraction.
     bind_op (read_op (\<lambda>s. loadOpenDocuments (ro_kind owner) (postedOwnerDocs env book endType (pm_owner inp) (bz_invoices s)) (bz_splits s))) (\<lambda>docs.
     let amount = roundCurrency (pm_amount inp) (JFin (of_int fraction))
     in bind_op (case pm_allocations inp of
          Some (a # as) \<Rightarrow> explicit_allocations (ro_currency owner) fraction amount docs (a # as)
        | _ \<Rightarrow> fifo_allocations (ro_currency owner) fraction amount docs) (\<lambda>allocations.
        write_payment env inp owner posted fraction amount docs allocations)))"

definition applyPayment :: "engine_env \<Rightarrow> string \<Rightarrow> payment_input \<Rightarrow> payment_result engine" where
  "applyPayment env book inp =
     bind_op (require (js_less (JFin 0) (pm_amount inp)) (InvoiceValidation ''Payment amount must be positive'')) (\<lambda>_.
     bind_op (parseIsoDateNoon env (pm_date inp)) (\<lambda>posted.
     bind_op (read_op (already_paid inp)) (\<lambda>early.
     case early of Some r \<Rightarrow> yield r | None \<Rightarrow>
       bind_op (book_of_account env (pm_transfer inp)) (\<lambda>lockBook.
       bind_op (check_period env lockBook [DateValue posted]) (\<lambda>_.
       in_transaction (
         bind_op (ownerTypeNameToInt (pm_owner_type inp)) (\<lambda>endType.
         bind_op (assertOwnerInBook env book endType (pm_owner inp)) (\<lambda>_.
         bind_op (resolveOwner env endType (pm_owner inp)) (\<lambda>owner.
         bind_op (bookRootGuidFor env book) (\<lambda>r.
         bind_op (assertAccountsInBook r [pm_transfer inp] ''Transfer account'') (\<lambda>_.
         bind_op (read_op (already_paid inp)) (\<lambda>late.
         case late of Some r \<Rightarrow> yield r | None \<Rightarrow>
           bind_op (read_op (\<lambda>s. find (\<lambda>a. ba_guid a = pm_transfer inp) (bz_accounts s))) (\<lambda>account.
           bind_op (found account (InvoiceNotFound ''Transfer account'')) (\<lambda>acc.
           bind_op (require (ba_placeholder acc \<noteq> 1) (InvoiceValidation ''Transfer account is a placeholder'')) (\<lambda>_.
             pay_documents env book inp endType owner posted)))))))))))))))"

section \<open>What an operation leaves alone\<close>

definition keeps :: "('s \<Rightarrow> 'x) \<Rightarrow> ('s, 'e, 'a) op \<Rightarrow> bool" where
  "keeps f m \<longleftrightarrow> (\<forall>s r s'. m s = (r, s') \<longrightarrow> f s' = f s)"

named_theorems frame \<open>operations that keep a part of the state\<close>

lemma keepsD: "keeps f m \<Longrightarrow> m s = (r, s') \<Longrightarrow> f s' = f s"
  by (simp add: keeps_def)

lemma keeps_bind [frame]: "keeps f m \<Longrightarrow> (\<And>a. keeps f (g a)) \<Longrightarrow> keeps f (bind_op m g)"
  by (fastforce simp: keeps_def bind_op_def split: prod.splits sum.splits)

lemma keeps_basic [frame]:
  "keeps f (yield a)" "keeps f (throw e)" "keeps f (require ok e)" "keeps f (found v e)" "keeps f (read_op g)"
  by (auto simp: keeps_def yield_def throw_def require_def found_def read_op_def split: option.splits)

lemma keeps_write [frame]: "(\<And>s. f (h s) = f s) \<Longrightarrow> keeps f (write_op h)"
  by (auto simp: keeps_def write_op_def)

lemma keeps_for_each [frame]: "(\<And>x. keeps f (g x)) \<Longrightarrow> keeps f (for_each g xs)"
  by (induction xs) (auto intro: frame)

lemma keeps_guid [frame]: "(\<And>s n. f (s\<lparr>bz_guids := n\<rparr>) = f s) \<Longrightarrow> keeps f (generateGuid env)"
  by (auto simp: keeps_def generateGuid_def)

lemma keeps_period [frame]: "(\<And>s c. f (s\<lparr>bz_locks := c\<rparr>) = f s) \<Longrightarrow> keeps f (check_period env book dates)"
  by (auto simp: keeps_def check_period_def split: option.splits prod.splits sum.splits if_splits)

lemma keeps_parse [frame]: "keeps f (parseIsoDateNoon env v)"
  by (auto simp: parseIsoDateNoon_def intro: frame)

lemma keeps_owner [frame]:
  "keeps f (resolveOwner env t g)" "keeps f (assertOwnerInBook env book t g)" "keeps f (assertInvoiceInBook env book g)"
  "keeps f (getCurrencyFraction env c)" "keeps f (find_invoice g)" "keeps f (bookRootGuidFor env book)"
  "keeps f (assertAccountsInBook r gs lbl)" "keeps f (ownerTypeNameToInt nm)" "keeps f (book_of_account env a)"
  by (auto simp: resolveOwner_def resolveEndOwner_def assertOwnerInBook_def ownerEntityType_def assertInvoiceInBook_def
      getCurrencyFraction_def find_invoice_def bookRootGuidFor_def assertAccountsInBook_def ownerTypeNameToInt_def
      book_of_account_def intro!: frame split: prod.splits)

lemma keeps_add_slot [frame]: "(\<And>s v. f (s\<lparr>bz_slots := v\<rparr>) = f s) \<Longrightarrow> keeps f (add_slot r)"
  by (auto simp: add_slot_def intro!: frame)

lemma keeps_slots [frame]:
  assumes "\<And>s v. f (s\<lparr>bz_slots := v\<rparr>) = f s"
  shows "keeps f (writeStringSlot obj n v)" "keeps f (deleteSlotsRecursive k obj)" "keeps f (deleteFrameSlot obj n)"
proof -
  show "keeps f (writeStringSlot obj n v)" using assms by (auto simp: writeStringSlot_def intro!: frame)
  have rec: "keeps f (deleteSlotsRecursive k obj)" for k obj
    using assms by (induction k arbitrary: obj) (auto intro!: frame)
  then show "keeps f (deleteSlotsRecursive k obj)" .
  show "keeps f (deleteFrameSlot obj n)" using assms rec by (auto simp: deleteFrameSlot_def simp del: deleteSlotsRecursive.simps intro!: frame split: prod.splits)
qed

lemma keeps_guid_frame [frame]:
  "(\<And>s v. f (s\<lparr>bz_slots := v\<rparr>) = f s) \<Longrightarrow> (\<And>s n. f (s\<lparr>bz_guids := n\<rparr>) = f s) \<Longrightarrow> keeps f (writeGuidFrameSlot env obj n c g)"
  by (auto simp: writeGuidFrameSlot_def intro!: frame)

lemma keeps_post_account [frame]:
  "(\<And>s v. f (s\<lparr>bz_accounts := v\<rparr>) = f s) \<Longrightarrow> (\<And>s n. f (s\<lparr>bz_guids := n\<rparr>) = f s) \<Longrightarrow> keeps f (findOrCreatePostAccount env kind r c)"
  by (auto simp: findOrCreatePostAccount_def Let_def intro!: frame split: option.splits prod.splits sum.splits)

lemma keeps_due [frame]: "keeps f (due_date_of env inp i d)"
  by (auto simp: due_date_of_def intro!: frame split: option.splits)

lemma keeps_invoice [frame]: "(\<And>s v. f (s\<lparr>bz_invoices := v\<rparr>) = f s) \<Longrightarrow> keeps f (set_invoice g h)"
  by (auto simp: set_invoice_def intro!: frame)

lemma keeps_lot [frame]: "(\<And>s v. f (s\<lparr>bz_lots := v\<rparr>) = f s) \<Longrightarrow> keeps f (set_lot_closed g)"
  by (auto simp: set_lot_closed_def intro!: frame)

lemma keeps_tx [frame]: "(\<And>s v. f (s\<lparr>bz_txs := v\<rparr>) = f s) \<Longrightarrow> keeps f (add_tx t)"
  by (auto simp: add_tx_def intro!: frame)

section \<open>The splits a posting writes\<close>

lemma fromDecimal_Inr:
  "fromDecimal v d s = (Inr x, s') \<longleftrightarrow> s' = s \<and> snd x = d \<and> split_units d v = JFin (of_int (fst x))"
proof -
  have "js_round y = JFin q \<Longrightarrow> q = of_int \<lfloor>q\<rfloor>" for y q by (cases y) auto
  then show ?thesis
    by (cases x) (auto simp: fromDecimal_def split_units_def split: js_number.splits)
qed

lemma add_book_split_Inr:
  "add_book_split env f s = (Inr u, s') \<longleftrightarrow>
     s' = s\<lparr>bz_guids := Suc (bz_guids s), bz_splits := bz_splits s @ [f (ev_guid env (bz_guids s))]\<rparr>"
  by (auto simp: add_book_split_def bind_op_Inr_iff generateGuid_def)

text \<open>The rows a list of specifications became: all of one transaction, with the units they denote.\<close>

lemma written_splits:
  assumes "for_each (\<lambda>sp. bind_op (fromDecimal (v sp) d) (\<lambda>frac. add_book_split env (mk sp frac))) specs s = (Inr (), s')"
  shows "\<exists>new. bz_splits s' = bz_splits s @ new \<and>
    list_all2 (\<lambda>sp x. \<exists>g frac. x = mk sp frac g \<and> snd frac = d \<and> split_units d (v sp) = JFin (of_int (fst frac))) specs new"
  using assms
proof (induction specs arbitrary: s)
  case (Cons sp specs)
  obtain frac s1 where sp: "snd frac = d" "split_units d (v sp) = JFin (of_int (fst frac))"
    "s1 = s\<lparr>bz_guids := Suc (bz_guids s), bz_splits := bz_splits s @ [mk sp frac (ev_guid env (bz_guids s))]\<rparr>"
    "for_each (\<lambda>sp. bind_op (fromDecimal (v sp) d) (\<lambda>frac. add_book_split env (mk sp frac))) specs s1 = (Inr (), s')"
    using Cons.prems unfolding for_each.simps bind_op_Inr_iff fromDecimal_Inr add_book_split_Inr by blast
  from Cons.IH [OF sp(4)] obtain new where "bz_splits s' = bz_splits s1 @ new"
    "list_all2 (\<lambda>sp x. \<exists>g frac. x = mk sp frac g \<and> snd frac = d \<and> split_units d (v sp) = JFin (of_int (fst frac))) specs new" by blast
  then show ?case using sp(1,2) by (intro exI [of _ "mk sp frac (ev_guid env (bz_guids s)) # new"]) (auto simp: sp(3))
qed simp

definition split_total :: "book_split list \<Rightarrow> rat" where
  "split_total ss = sum_list (map (\<lambda>x. of_int (fst (bx_value x)) / of_int (snd (bx_value x))) ss)"

definition account_balance :: "book_split list \<Rightarrow> string \<Rightarrow> rat" where
  "account_balance ss a = split_total (filter (\<lambda>x. bx_account x = a) ss)"

lemma split_total_simps [simp]:
  "split_total [] = 0" "split_total (x # ss) = of_int (fst (bx_value x)) / of_int (snd (bx_value x)) + split_total ss"
  "split_total (ss @ ts) = split_total ss + split_total ts"
  by (simp_all add: split_total_def)

lemma account_balance_append [simp]: "account_balance (ss @ ts) a = account_balance ss a + account_balance ts a"
  by (simp add: account_balance_def)

lemma split_total_units:
  "list_all (\<lambda>x. snd (bx_value x) = d) ss \<Longrightarrow> split_total ss = of_int (sum_list (map (\<lambda>x. fst (bx_value x)) ss)) / of_int d"
  by (induction ss) (auto simp: add_divide_distrib)

lemma open_posting_run:
  "open_posting env guid inp invoice owner posted due acc s = (Inr (lot, tx), s') \<Longrightarrow>
     lot = ev_guid env (bz_guids s) \<and> tx = ev_guid env (bz_guids s + 2) \<and> bz_guids s' = bz_guids s + 4 \<and>
     bz_splits s' = bz_splits s \<and> bz_invoices s' = bz_invoices s \<and> bz_accounts s' = bz_accounts s \<and> bz_locks s' = bz_locks s \<and>
     bz_txs s' = bz_txs s @ [\<lparr>by_guid = tx, by_currency = iv_currency invoice, by_num = iv_id invoice, by_post = Some posted,
         by_description = (case pi_description inp of Some d \<Rightarrow> d | None \<Rightarrow> ro_name owner)\<rparr>]"
  by (auto simp: open_posting_def bind_op_def generateGuid_def write_op_def writeGuidFrameSlot_def add_slot_def add_tx_def yield_def)

definition posting_row :: "string \<Rightarrow> string \<Rightarrow> posting_spec \<Rightarrow> int \<times> int \<Rightarrow> string \<Rightarrow> book_split" where
  "posting_row tx lot sp qd g = \<lparr>bx_guid = g, bx_tx = tx, bx_account = pp_account sp, bx_memo = pp_memo sp,
     bx_action = pp_action sp, bx_state = ''n'', bx_value = qd, bx_quantity = qd, bx_lot = (if pp_post sp then Some lot else None)\<rparr>"

lemma write_posting_split_eq:
  "write_posting_split env tx lot d = (\<lambda>sp. bind_op (fromDecimal (pp_value sp) d) (\<lambda>frac. add_book_split env (posting_row tx lot sp frac)))"
  unfolding write_posting_split_def posting_row_def [abs_def] ..

lemma posting_rows:
  "list_all2 (\<lambda>sp x. \<exists>g frac. x = posting_row tx lot sp frac g \<and> snd frac = d \<and> split_units d (pp_value sp) = JFin (of_int (fst frac))) specs new
    \<Longrightarrow> list_all (\<lambda>x. bx_tx x = tx \<and> snd (bx_value x) = d) new \<and>
      map (\<lambda>x. JFin (of_int (fst (bx_value x)))) new = map (split_units d \<circ> pp_value) specs"
  by (induction specs new rule: list_all2_induct) (auto simp: posting_row_def)

text \<open>What a posting wrote.\<close>

lemma write_posting_Inr:
  assumes "write_posting env guid inp invoice owner bookRoot lines d posted due acc s = (Inr r, s')"
  obtains new where "bz_splits s' = bz_splits s @ new"
    "list_all2 (\<lambda>sp x. \<exists>g frac. x = posting_row (pr_tx r) (pr_lot r) sp frac g \<and> snd frac = d \<and> split_units d (pp_value sp) = JFin (of_int (fst frac)))
      (buildPostingSplits (ro_kind owner) (computeInvoiceTotals lines (JFin (of_int d))) lines acc (or_empty (pi_memo inp))) new"
    "bz_invoices s' = map (\<lambda>i. if iv_guid i = guid then i\<lparr>iv_posted := Some posted, iv_post_txn := Some (pr_tx r),
        iv_post_acc := Some acc, iv_post_lot := Some (pr_lot r)\<rparr> else i) (bz_invoices s)"
    "pr_tx r = ev_guid env (bz_guids s + 2)" "pr_lot r = ev_guid env (bz_guids s)"
    "\<exists>t. bz_txs s' = bz_txs s @ [t] \<and> by_guid t = pr_tx r"
proof -
  let ?spec = "buildPostingSplits (ro_kind owner) (computeInvoiceTotals lines (JFin (of_int d))) lines acc (or_empty (pi_memo inp))"
  obtain lot tx s1 s2 where run: "open_posting env guid inp invoice owner posted due acc s = (Inr (lot, tx), s1)"
    "for_each (write_posting_split env tx lot d) ?spec s1 = (Inr (), s2)"
    "s' = s2\<lparr>bz_invoices := map (\<lambda>i. if iv_guid i = guid then i\<lparr>iv_posted := Some posted, iv_post_txn := Some tx,
        iv_post_acc := Some acc, iv_post_lot := Some lot\<rparr> else i) (bz_invoices s2)\<rparr>"
    "pr_tx r = tx" "pr_lot r = lot"
    using assms unfolding write_posting_def Let_def bind_op_Inr_iff assertAccountsInBook_def set_invoice_def
    by (auto simp: bind_op_Inr_iff)
  have "keeps bz_invoices (for_each (write_posting_split env tx lot d) ?spec)" "keeps bz_txs (for_each (write_posting_split env tx lot d) ?spec)"
    by (auto simp: write_posting_split_def fromDecimal_def add_book_split_def intro!: frame split: js_number.splits)
  then have "bz_invoices s2 = bz_invoices s1" "bz_txs s2 = bz_txs s1" using run(2) by (blast dest: keepsD)+
  moreover obtain new where "bz_splits s2 = bz_splits s1 @ new"
    "list_all2 (\<lambda>sp x. \<exists>g frac. x = posting_row tx lot sp frac g \<and> snd frac = d \<and> split_units d (pp_value sp) = JFin (of_int (fst frac))) ?spec new"
    using written_splits [OF run(2) [unfolded write_posting_split_eq]] by blast
  ultimately show ?thesis using that [of new] open_posting_run [OF run(1)] run(3-5) by simp
qed

lemma posting_balanced:
  assumes "write_posting env guid inp invoice owner bookRoot lines d posted due acc s = (Inr r, s')"
    and "0 < d" "d \<le> 2 ^ 38" "postable d lines"
  obtains new where "bz_splits s' = bz_splits s @ new" "split_total new = 0"
    "list_all (\<lambda>x. bx_tx x = pr_tx r \<and> snd (bx_value x) = d) new"
proof -
  let ?spec = "buildPostingSplits (ro_kind owner) (computeInvoiceTotals lines (JFin (of_int d))) lines acc (or_empty (pi_memo inp))"
  obtain new where new: "bz_splits s' = bz_splits s @ new"
    "list_all2 (\<lambda>sp x. \<exists>g frac. x = posting_row (pr_tx r) (pr_lot r) sp frac g \<and> snd frac = d \<and> split_units d (pp_value sp) = JFin (of_int (fst frac))) ?spec new"
    by (rule write_posting_Inr [OF assms(1)])
  obtain ns where ns: "map (split_units d \<circ> pp_value) ?spec = map (\<lambda>k. JFin (of_int k)) ns" "sum_list ns = 0"
    using posting_units [OF assms(2-4)] by blast
  have rows: "list_all (\<lambda>x. bx_tx x = pr_tx r \<and> snd (bx_value x) = d) new"
    and "map (\<lambda>x. JFin (of_int (fst (bx_value x)))) new = map (split_units d \<circ> pp_value) ?spec"
    using posting_rows [OF new(2)] by blast+
  then have "map (\<lambda>x. JFin (of_int (fst (bx_value x)))) new = map (\<lambda>k. JFin (of_int k)) ns" by (simp only: ns(1))
  then have "map (\<lambda>x. fst (bx_value x)) new = ns"
    by (induction new arbitrary: ns) (auto simp: Cons_eq_map_conv)
  then have "split_total new = 0" using split_total_units [of d new] rows ns(2) by (simp add: list_all_iff)
  then show ?thesis using that new(1) rows by blast
qed

end
