(* ===== verification/Invoice_Postings.thy ===== *)
theory Invoice_Postings
  imports Invoice_Engine
begin

text \<open>
  What the operations of Invoice_Engine guarantee: a posting is written once and balances, a
  reversal cancels it in every account, a payment goes through once and balances when its
  parts are whole units of the currency, and an operation that throws writes nothing.
\<close>


section \<open>Runs of the operations\<close>

lemma in_transaction_Inr: "in_transaction m s = (Inr a, s') \<longleftrightarrow> m s = (Inr a, s')"
  by (auto simp: in_transaction_def split: prod.splits sum.splits)

lemma in_transaction_Inl:
  "in_transaction m s = (Inl e, s') \<longleftrightarrow> (\<exists>t. m s = (Inl e, t) \<and> s' = s\<lparr>bz_locks := bz_locks t, bz_guids := bz_guids t\<rparr>)"
  by (auto simp: in_transaction_def split: prod.splits sum.splits)

lemma reading_ops:
  "parseIsoDateNoon env v s = (r1, s') \<Longrightarrow> s' = s" "due_date_of env inp i p s = (r2, s') \<Longrightarrow> s' = s"
  "resolveOwner env t g s = (r3, s') \<Longrightarrow> s' = s" "assertOwnerInBook env book t g s = (r4, s') \<Longrightarrow> s' = s"
  "assertAccountsInBook r gs lbl s = (r5, s') \<Longrightarrow> s' = s" "book_of_account env a s = (r6, s') \<Longrightarrow> s' = s"
  "bookRootGuidFor env book s = (r7, s') \<Longrightarrow> s' = s" "getCurrencyFraction env c s = (r8, s') \<Longrightarrow> s' = s"
  "ownerTypeNameToInt nm s = (r9, s') \<Longrightarrow> s' = s" "find_invoice guid s = (r10, s') \<Longrightarrow> s' = s"
  "assertInvoiceInBook env book guid s = (r11, s') \<Longrightarrow> s' = s"
  by (rule keepsD [where f = "\<lambda>s. s"]; (assumption | auto intro!: frame))+

text \<open>The tables the engine writes, without the accounts.\<close>

definition tables where
  "tables s = (bz_invoices s, bz_entries s, bz_lots s, bz_txs s, bz_splits s, bz_slots s)"

lemma tables_eq: "tables s' = tables s \<longleftrightarrow> bz_invoices s' = bz_invoices s \<and> bz_entries s' = bz_entries s \<and> bz_lots s' = bz_lots s
    \<and> bz_txs s' = bz_txs s \<and> bz_splits s' = bz_splits s \<and> bz_slots s' = bz_slots s"
  by (auto simp: tables_def)

lemma tables_update [simp]:
  "tables (s\<lparr>bz_accounts := a\<rparr>) = tables s" "tables (s\<lparr>bz_guids := n\<rparr>) = tables s" "tables (s\<lparr>bz_locks := c\<rparr>) = tables s"
  by (simp_all add: tables_def)

lemma post_account_tables: "findOrCreatePostAccount env kind r c s = (x, s') \<Longrightarrow> tables s' = tables s"
  by (rule keepsD [where f = tables and m = "findOrCreatePostAccount env kind r c"]) (auto intro!: frame)

lemma check_period_tables: "check_period env b ds s = (x, s') \<Longrightarrow> tables s' = tables s \<and> bz_accounts s' = bz_accounts s"
  using keepsD [where f = "\<lambda>s. (tables s, bz_accounts s)" and m = "check_period env b ds", OF keeps_period] by simp

lemma post_once_Inr:
  assumes "post_once env book bookRoot guid inp s = (Inr r, s')"
  obtains i owner d posted due acc s1 where "find (\<lambda>i. iv_guid i = guid) (bz_invoices s) = Some i" "falsy_guid (iv_post_txn i)"
    "resolveOwner env (iv_owner_type i) (iv_owner i) s = (Inr owner, s)"
    "getCurrencyFraction env (iv_currency i) s = (Inr d, s)" "document_entries (ro_kind owner) guid (bz_entries s) \<noteq> []"
    "tables s1 = tables s"
    "write_posting env guid inp i owner bookRoot (map (entryRowToLine env (ro_kind owner)) (document_entries (ro_kind owner) guid (bz_entries s)))
       d posted due acc s1 = (Inr r, s')"
proof -
  obtain i owner s1 d s2 posted s3 due s4 acc s5 where run:
    "find (\<lambda>i. iv_guid i = guid) (bz_invoices s) = Some i" "falsy_guid (iv_post_txn i)"
    "resolveOwner env (iv_owner_type i) (iv_owner i) s = (Inr owner, s1)"
    "document_entries (ro_kind owner) guid (bz_entries s1) \<noteq> []"
    "getCurrencyFraction env (iv_currency i) s1 = (Inr d, s2)"
    "parseIsoDateNoon env (pi_date inp) s2 = (Inr posted, s3)" "due_date_of env inp i posted s3 = (Inr due, s4)"
    "findOrCreatePostAccount env (ro_kind owner) bookRoot (iv_currency i) s4 = (Inr acc, s5)"
    "write_posting env guid inp i owner bookRoot (map (entryRowToLine env (ro_kind owner)) (document_entries (ro_kind owner) guid (bz_entries s1)))
       d posted due acc s5 = (Inr r, s')"
    using assms unfolding post_once_def in_transaction_Inr Let_def assertInvoiceInBook_def find_invoice_def bind_op_Inr_iff op_Inr_iff
    by blast
  have "s1 = s" "s2 = s" "s3 = s" "s4 = s" using run(3,5-7) by (auto dest: reading_ops)
  with run post_account_tables [OF run(8)] show ?thesis by (intro that [of i owner d s5 posted due acc]) auto
qed

text \<open>An attempt that adopts is rolled back; the one that ends the loop ran on the same tables.\<close>

lemma retry_Inr:
  assumes "withAdoptionRetry attempt left adopts s = (Inr r, s')"
    and "\<And>a u e v. attempt a u = (Inl e, v) \<Longrightarrow> tables v = tables u"
  obtains adopt t where "attempt adopt t = (Inr r, s')" "tables t = tables s"
  using assms(1)
proof (induction left arbitrary: adopts s thesis)
  case 0
  then show ?case by (auto simp: Let_def split: prod.splits sum.splits engine_error.splits)
next
  case (Suc n)
  let ?a = "case adopts of [] \<Rightarrow> None | a # _ \<Rightarrow> a"
  obtain x v where run: "attempt ?a s = (x, v)" by (cases "attempt ?a s") auto
  show ?case
  proof (cases "\<exists>nm. x = Inl (SiblingKeyAdopted nm)")
    case True
    then obtain nm where "x = Inl (SiblingKeyAdopted nm)" by blast
    with run Suc.prems(2) have again: "withAdoptionRetry attempt n (tl adopts)
        (v\<lparr>bz_accounts := bz_accounts v @ (case ?a of None \<Rightarrow> [] | Some a \<Rightarrow> [a])\<rparr>) = (Inr r, s')"
      by (simp add: Let_def)
    obtain adopt t where "attempt adopt t = (Inr r, s')"
      "tables t = tables (v\<lparr>bz_accounts := bz_accounts v @ (case ?a of None \<Rightarrow> [] | Some a \<Rightarrow> [a])\<rparr>)"
      using Suc.IH [OF _ again] by blast
    moreover have "tables v = tables s" using assms(2) run True by blast
    ultimately show ?thesis using Suc.prems(1) by simp
  next
    case False
    with run Suc.prems(2) have "attempt ?a s = (Inr r, s')"
      by (auto simp: Let_def split: sum.splits engine_error.splits)
    then show ?thesis using Suc.prems(1) by blast
  qed
qed

lemma post_once_Inl: "post_once env book bookRoot guid inp s = (Inl e, s') \<Longrightarrow> tables s' = tables s"
  unfolding post_once_def in_transaction_Inl by auto

lemma with_adopt_fields [simp]:
  "ev_taxtables (with_adopt env a) = ev_taxtables env" "ev_customers (with_adopt env a) = ev_customers env"
  "ev_vendors (with_adopt env a) = ev_vendors env" "ev_employees (with_adopt env a) = ev_employees env"
  "ev_jobs (with_adopt env a) = ev_jobs env" "ev_fractions (with_adopt env a) = ev_fractions env" "ev_guid (with_adopt env a) = ev_guid env"
  by (simp_all add: with_adopt_def)

lemma tax_table_of_adopt [simp]: "tax_table_of (with_adopt env a) = tax_table_of env"
  unfolding tax_table_of_def with_adopt_fields ..

lemma resolveEndOwner_adopt [simp]: "resolveEndOwner (with_adopt env a) = resolveEndOwner env"
  unfolding resolveEndOwner_def [abs_def] with_adopt_fields ..

lemma with_adopt_same [simp]:
  "resolveOwner (with_adopt env a) = resolveOwner env" "getCurrencyFraction (with_adopt env a) = getCurrencyFraction env"
  "entryRowToLine (with_adopt env a) = entryRowToLine env"
  unfolding resolveOwner_def [abs_def] getCurrencyFraction_def [abs_def] entryRowToLine_def [abs_def]
    with_adopt_fields resolveEndOwner_adopt tax_table_of_adopt by (rule refl)+

lemma end_owner_of_env: "resolveEndOwner env t g u = (fst (resolveEndOwner env t g s), u)"
  by (simp add: resolveEndOwner_def bind_op_def found_def throw_def yield_def split: option.split)

lemma owner_of_env: "resolveOwner env t g s = (Inr x, s) \<Longrightarrow> resolveOwner env t g u = (Inr x, u)"
  using end_owner_of_env [of env _ _ u s]
  by (auto simp: resolveOwner_def bind_op_def found_def throw_def split: if_splits option.splits)

lemma fraction_of_env: "getCurrencyFraction env c s = (Inr x, s) \<Longrightarrow> getCurrencyFraction env c u = (Inr x, u)"
  by (auto simp: getCurrencyFraction_def bind_op_Inr_iff)

text \<open>What a document is computed from: its row, its owner and the fraction of its currency.\<close>

definition document_of :: "engine_env \<Rightarrow> string \<Rightarrow> business \<Rightarrow> (invoice_row \<times> resolved_owner \<times> int) option" where
  "document_of env guid s =
     (case bind_op (find_invoice guid) (\<lambda>i. bind_op (resolveOwner env (iv_owner_type i) (iv_owner i)) (\<lambda>owner.
         bind_op (getCurrencyFraction env (iv_currency i)) (\<lambda>d. yield (i, owner, d)))) s of
        (Inl _, _) \<Rightarrow> None | (Inr x, _) \<Rightarrow> Some x)"

definition document_lines :: "engine_env \<Rightarrow> invoice_kind \<Rightarrow> string \<Rightarrow> business \<Rightarrow> entry_line list" where
  "document_lines env kind guid s = map (entryRowToLine env kind) (document_entries kind guid (bz_entries s))"

definition document_fits :: "engine_env \<Rightarrow> string \<Rightarrow> business \<Rightarrow> bool" where
  "document_fits env guid s \<longleftrightarrow> (case document_of env guid s of
      None \<Rightarrow> True
    | Some (i, owner, d) \<Rightarrow> 0 < d \<and> d \<le> 2 ^ 38 \<and> postable d (document_lines env (ro_kind owner) guid s))"

lemma postInvoice_Inr:
  assumes "postInvoice env adopts book guid inp s = (Inr r, s')"
  obtains i owner d posted due acc env' bookRoot s1 where "document_of env guid s = Some (i, owner, d)"
    "find (\<lambda>i. iv_guid i = guid) (bz_invoices s) = Some i" "falsy_guid (iv_post_txn i)"
    "tables s1 = tables s" "ev_guid env' = ev_guid env"
    "write_posting env' guid inp i owner bookRoot (document_lines env (ro_kind owner) guid s) d posted due acc s1 = (Inr r, s')"
proof -
  obtain bookRoot s0 s1 where "check_period env (getBookGuidForRoot (ev_books env) bookRoot) [DateString (pi_date inp)] s0 = (Inr (), s1)"
    "bookRootGuidFor env book s = (Inr bookRoot, s0)"
    and run: "withAdoptionRetry (\<lambda>adopt. post_once (with_adopt env adopt) book bookRoot guid inp) 2 adopts s1 = (Inr r, s')"
    using assms unfolding postInvoice_def bind_op_Inr_iff by auto
  then have s1: "tables s1 = tables s" by (auto dest: reading_ops check_period_tables)
  obtain adopt t where t: "post_once (with_adopt env adopt) book bookRoot guid inp t = (Inr r, s')" "tables t = tables s1"
    by (rule retry_Inr [OF run]) (auto dest: post_once_Inl)
  have same: "bz_invoices t = bz_invoices s" "bz_entries t = bz_entries s" "tables t = tables s"
    using t(2) s1 by (simp_all add: tables_def)
  show ?thesis
  proof (rule post_once_Inr [OF t(1)])
    fix i owner d posted due acc t1
    assume run: "find (\<lambda>i. iv_guid i = guid) (bz_invoices t) = Some i" "falsy_guid (iv_post_txn i)"
      "resolveOwner (with_adopt env adopt) (iv_owner_type i) (iv_owner i) t = (Inr owner, t)"
      "getCurrencyFraction (with_adopt env adopt) (iv_currency i) t = (Inr d, t)" "tables t1 = tables t"
      "write_posting (with_adopt env adopt) guid inp i owner bookRoot
        (map (entryRowToLine (with_adopt env adopt) (ro_kind owner)) (document_entries (ro_kind owner) guid (bz_entries t))) d posted due acc t1 = (Inr r, s')"
    have "resolveOwner env (iv_owner_type i) (iv_owner i) s = (Inr owner, s)" "getCurrencyFraction env (iv_currency i) s = (Inr d, s)"
      using run(3,4) by (auto intro: owner_of_env fraction_of_env)
    with run(1) have "document_of env guid s = Some (i, owner, d)"
      by (simp add: document_of_def find_invoice_def bind_op_def read_op_def found_def same yield_def)
    then show thesis using run same
      by (intro that [of i owner d t1 "with_adopt env adopt" bookRoot posted due acc]) (simp_all add: document_lines_def)
  qed
qed

section \<open>Reversals\<close>

lemma write_each_Inr:
  assumes "for_each (\<lambda>x. add_book_split env (f x)) xs s = (Inr (), s')"
  shows "\<exists>new n. s' = s\<lparr>bz_guids := n, bz_splits := bz_splits s @ new\<rparr> \<and> list_all2 (\<lambda>x y. \<exists>g. y = f x g) xs new"
  using assms
proof (induction xs arbitrary: s)
  case Nil
  then show ?case by (intro exI [of _ "[]"] exI [of _ "bz_guids s"]) simp
next
  case (Cons x xs)
  let ?g = "ev_guid env (bz_guids s)"
  have "for_each (\<lambda>x. add_book_split env (f x)) xs (s\<lparr>bz_guids := Suc (bz_guids s), bz_splits := bz_splits s @ [f x ?g]\<rparr>) = (Inr (), s')"
    using Cons.prems by (simp add: bind_op_Inr_iff add_book_split_Inr)
  from Cons.IH [OF this] obtain new n where
    "s' = s\<lparr>bz_guids := n, bz_splits := bz_splits s @ f x ?g # new\<rparr>" "list_all2 (\<lambda>x y. \<exists>g. y = f x g) xs new"
    by auto
  then show ?case by (intro exI [of _ "f x ?g # new"] exI [of _ n]) auto
qed

lemma reversed_rows:
  "list_all2 (\<lambda>x y. \<exists>g. y = reversed_split rv memo x g) xs new \<Longrightarrow>
     account_balance new a = - account_balance xs a \<and> list_all (\<lambda>y. bx_tx y = rv) new"
  by (induction xs new rule: list_all2_induct) (auto simp: account_balance_def reversed_split_def)

text \<open>The ledger part of the state: invoices, transactions and splits.\<close>

definition ledger_part where "ledger_part s = (bz_invoices s, bz_txs s, bz_splits s)"

lemma ledger_part_eq: "ledger_part s' = ledger_part s \<longleftrightarrow> bz_invoices s' = bz_invoices s \<and> bz_txs s' = bz_txs s \<and> bz_splits s' = bz_splits s"
  by (auto simp: ledger_part_def)

lemma ledger_part_update [simp]:
  "ledger_part (s\<lparr>bz_slots := v\<rparr>) = ledger_part s" "ledger_part (s\<lparr>bz_lots := l\<rparr>) = ledger_part s"
  "ledger_part (s\<lparr>bz_guids := n\<rparr>) = ledger_part s" "ledger_part (s\<lparr>bz_locks := c\<rparr>) = ledger_part s"
  by (simp_all add: ledger_part_def)

lemma slot_ops_ledger:
  "writeStringSlot obj nm v s = (x, s') \<Longrightarrow> ledger_part s' = ledger_part s"
  "deleteFrameSlot obj nm s = (x, s') \<Longrightarrow> ledger_part s' = ledger_part s"
  "set_lot_closed lot s = (x, s') \<Longrightarrow> ledger_part s' = ledger_part s"
  "check_period env b ds s = (x, s') \<Longrightarrow> ledger_part s' = ledger_part s"
  using keepsD [OF keeps_slots(1) [of ledger_part]] keepsD [OF keeps_slots(3) [of ledger_part]]
    keepsD [OF keeps_lot [of ledger_part]] keepsD [OF keeps_period [of ledger_part]]
  by (metis ledger_part_update)+

lemma reversible_state: "assertReversiblePosting i t ss s = (r, s') \<Longrightarrow> s' = s"
  by (rule keepsD [where f = "\<lambda>s. s" and m = "assertReversiblePosting i t ss"])
    (auto simp: assertReversiblePosting_def Let_def intro!: frame)

lemma unpostInvoice_Inr:
  assumes "unpostInvoice env book guid s = (Inr (), s')"
  obtains i t rv posted memo new where "find (\<lambda>i. iv_guid i = guid) (bz_invoices s) = Some i" "\<not> falsy_guid (iv_post_txn i)"
    "fst (assertReversiblePosting i (find (\<lambda>t. by_guid t = the (iv_post_txn i)) (bz_txs s))
      (filter (\<lambda>x. bx_tx x = the (iv_post_txn i)) (bz_splits s)) s) = Inr t"
    "bz_txs s' = bz_txs s @ [reversal_tx rv posted i t]" "bz_splits s' = bz_splits s @ new"
    "list_all2 (\<lambda>x y. \<exists>g. y = reversed_split rv memo x g) (filter (\<lambda>x. bx_tx x = the (iv_post_txn i)) (bz_splits s)) new"
    "bz_invoices s' = map (\<lambda>i. if iv_guid i = guid then i\<lparr>iv_posted := None, iv_post_txn := None, iv_post_acc := None, iv_post_lot := None\<rparr>
        else i) (bz_invoices s)"
proof -
  obtain i t s1 lb s2 d s3 rv s4 s5 memo s6 s7 s8 s9 s10 s11 s12 s13 s14 a1 b1 c1 a2 b2 c2 a3 b3 c3 a4 b4 a5 b5 c5 a6 b6 c6 a7 b7 c7 where run:
    "find (\<lambda>i. iv_guid i = guid) (bz_invoices s) = Some i" "\<not> falsy_guid (iv_post_txn i)"
    "assertReversiblePosting i (find (\<lambda>t. by_guid t = the (iv_post_txn i)) (bz_txs s))
      (filter (\<lambda>x. bx_tx x = the (iv_post_txn i)) (bz_splits s)) s = (Inr t, s1)"
    "(if falsy_guid (iv_post_acc i) then yield None else book_of_account env (the (iv_post_acc i))) s1 = (Inr lb, s2)"
    "check_period env lb [DateValue d] s2 = (Inr (), s3)" "generateGuid env s3 = (Inr rv, s4)"
    "add_tx (reversal_tx rv d i t) s4 = (Inr (), s5)"
    "for_each (\<lambda>x. add_book_split env (reversed_split rv memo x)) (filter (\<lambda>x. bx_tx x = the (iv_post_txn i)) (bz_splits s)) s5 = (Inr (), s6)"
    and slots: "writeStringSlot a1 b1 c1 s6 = (Inr (), s7)" "writeStringSlot a2 b2 c2 s7 = (Inr (), s8)" "writeStringSlot a3 b3 c3 s8 = (Inr (), s9)"
    "deleteFrameSlot a4 b4 s9 = (Inr (), s10)" "writeStringSlot a5 b5 c5 s10 = (Inr (), s11)" "writeStringSlot a6 b6 c6 s11 = (Inr (), s12)"
    "writeStringSlot a7 b7 c7 s12 = (Inr (), s13)"
    and last: "(if falsy_guid (iv_post_lot i) then yield () else bind_op (deleteFrameSlot (the (iv_post_lot i)) ''gncInvoice'')
      (\<lambda>_. set_lot_closed (the (iv_post_lot i)))) s13 = (Inr (), s14)"
    "set_invoice guid (\<lambda>i. i\<lparr>iv_posted := None, iv_post_txn := None, iv_post_acc := None, iv_post_lot := None\<rparr>) s14 = (Inr (), s')"
    using assms
    by (clarsimp simp: unpostInvoice_def in_transaction_Inr Let_def bind_op_Inr_iff assertInvoiceInBook_def find_invoice_def simp del: if_splits)
  have "s1 = s" using run(3) by (rule reversible_state)
  moreover have "s2 = s1" using run(4) by (auto split: if_splits dest: reading_ops)
  moreover have "ledger_part s14 = ledger_part s6"
  proof -
    have "ledger_part s14 = ledger_part s13"
      using last(1) by (auto simp: bind_op_Inr_iff split: if_splits dest!: slot_ops_ledger)
    then show ?thesis using slots(1-3,5-7) [THEN slot_ops_ledger(1)] slots(4) [THEN slot_ops_ledger(2)] by simp
  qed
  moreover obtain new n where "s6 = s5\<lparr>bz_guids := n, bz_splits := bz_splits s5 @ new\<rparr>"
    "list_all2 (\<lambda>x y. \<exists>g. y = reversed_split rv memo x g) (filter (\<lambda>x. bx_tx x = the (iv_post_txn i)) (bz_splits s)) new"
    using write_each_Inr [OF run(8)] by blast
  ultimately show ?thesis using run last(2) slot_ops_ledger(4) [OF run(5)]
    by (intro that [of i t rv d new memo]) (auto simp: ledger_part_eq add_tx_def generateGuid_def set_invoice_def)
qed

section \<open>A refused operation writes nothing\<close>

definition fails_clean :: "('s \<Rightarrow> 'x) \<Rightarrow> ('s, 'e, 'a) op \<Rightarrow> bool" where
  "fails_clean f m \<longleftrightarrow> (\<forall>s e s'. m s = (Inl e, s') \<longrightarrow> f s' = f s)"

lemma fails_clean_keeps: "keeps f m \<Longrightarrow> fails_clean f m"
  by (simp add: fails_clean_def keeps_def)

lemma fails_clean_bind: "keeps f m \<Longrightarrow> (\<And>a. fails_clean f (g a)) \<Longrightarrow> fails_clean f (bind_op m g)"
  by (fastforce simp: fails_clean_def keeps_def bind_op_def split: prod.splits sum.splits)

lemma fails_clean_transaction: "fails_clean tables (in_transaction m)" "fails_clean bz_accounts (in_transaction m)"
  by (auto simp: fails_clean_def in_transaction_Inl)

lemma fails_clean_retry:
  assumes "\<And>a. fails_clean tables (attempt a)"
  shows "fails_clean tables (withAdoptionRetry attempt left adopts)"
proof (induction left arbitrary: adopts)
  case 0
  then show ?case using assms by (fastforce simp: fails_clean_def Let_def split: prod.splits sum.splits engine_error.splits)
next
  case (Suc n)
  have "tables s' = tables s" if run: "withAdoptionRetry attempt (Suc n) adopts s = (Inl e, s')" for s e s'
  proof -
    let ?a = "case adopts of [] \<Rightarrow> None | a # _ \<Rightarrow> a"
    obtain x v where a: "attempt ?a s = (x, v)" by (cases "attempt ?a s") auto
    have v: "tables v = tables s" if "x = Inl e'" for e' using assms [of ?a] a that by (auto simp: fails_clean_def)
    show ?thesis
    proof (cases "\<exists>nm. x = Inl (SiblingKeyAdopted nm)")
      case True
      then obtain nm where "x = Inl (SiblingKeyAdopted nm)" by blast
      with run a have "withAdoptionRetry attempt n (tl adopts)
          (v\<lparr>bz_accounts := bz_accounts v @ (case ?a of None \<Rightarrow> [] | Some a \<Rightarrow> [a])\<rparr>) = (Inl e, s')"
        by (simp add: Let_def)
      then show ?thesis using Suc.IH [of "tl adopts"] v True unfolding fails_clean_def by fastforce
    next
      case False
      with run a have "x = Inl e \<and> v = s'" by (auto simp: Let_def split: sum.splits engine_error.splits)
      then show ?thesis using v by blast
    qed
  qed
  then show ?case by (simp add: fails_clean_def)
qed

lemma refused_post: "fails_clean tables (postInvoice env adopts book guid inp)"
  unfolding postInvoice_def post_once_def
  by (intro fails_clean_bind fails_clean_retry fails_clean_transaction keeps_owner keeps_period) simp_all

lemma refused_payment: "fails_clean tables (applyPayment env book inp)"
proof -
  have early: "fails_clean tables (case x of None \<Rightarrow> m | Some r \<Rightarrow> yield r)" if "fails_clean tables m" for x :: "payment_result option" and m
    using that by (auto simp: fails_clean_def yield_def split: option.splits)
  show ?thesis unfolding applyPayment_def
    by (intro early fails_clean_bind fails_clean_transaction keeps_owner keeps_period keeps_parse keeps_basic) simp_all
qed


section \<open>What a payment writes\<close>

definition payment_row :: "string \<Rightarrow> payment_spec \<Rightarrow> int \<times> int \<Rightarrow> string \<Rightarrow> book_split" where
  "payment_row tx sp qd g = \<lparr>bx_guid = g, bx_tx = tx, bx_account = py_account sp, bx_memo = py_memo sp,
     bx_action = py_action sp, bx_state = ''n'', bx_value = qd, bx_quantity = qd, bx_lot = py_lot sp\<rparr>"

lemma write_payment_split_eq:
  "write_payment_split env tx d = (\<lambda>sp. bind_op (fromDecimal (py_value sp) d) (\<lambda>frac. add_book_split env (payment_row tx sp frac)))"
  unfolding write_payment_split_def payment_row_def [abs_def] ..

definition payment_specs :: "payment_input \<Rightarrow> invoice_kind \<Rightarrow> js_number \<Rightarrow> open_document list \<Rightarrow> (string \<times> js_number) list \<Rightarrow> payment_spec list" where
  "payment_specs inp kind amount docs allocations =
     buildPaymentSplits kind amount (pm_transfer inp)
       (map (\<lambda>a. let doc = the (find_open docs (fst a)) in \<lparr>la_account = od_acc doc, la_lot = od_lot doc, la_amount = snd a\<rparr>) allocations)
       (or_empty (pm_memo inp))"

lemma slots_ledger: "for_each add_slot rs s = (x, s') \<Longrightarrow> ledger_part s' = ledger_part s"
  by (rule keepsD [where m = "for_each add_slot rs"]) (auto intro!: keeps_for_each keeps_add_slot)

lemma lots_ledger: "for_each (\<lambda>a. set_lot_closed (f a)) as s = (x, s') \<Longrightarrow> ledger_part s' = ledger_part s"
  by (rule keepsD [where m = "for_each (\<lambda>a. set_lot_closed (f a)) as"]) (auto intro!: keeps_for_each keeps_lot)

lemma write_payment_Inr:
  assumes "write_payment env inp owner posted d amount docs allocations s = (Inr r, s')"
  obtains new t where "pm_tx inp = Some (pq_tx r) \<or> pm_tx inp = None" "bz_txs s' = bz_txs s @ [t]" "by_guid t = pq_tx r"
    "bz_splits s' = bz_splits s @ new" "pq_allocations r = allocations"
    "list_all2 (\<lambda>sp x. \<exists>g frac. x = payment_row (pq_tx r) sp frac g \<and> snd frac = d \<and> split_units d (py_value sp) = JFin (of_int (fst frac)))
      (payment_specs inp (ro_kind owner) amount docs allocations) new"
proof -
  let ?spec = "payment_specs inp (ro_kind owner) amount docs allocations"
  obtain tx s1 t u s2 s3 where run: "(case pm_tx inp of Some g \<Rightarrow> yield g | None \<Rightarrow> generateGuid env) s = (Inr tx, s1)"
    "u = s1\<lparr>bz_txs := bz_txs s1 @ [t]\<rparr>" "by_guid t = tx"
    "ledger_part s2 = ledger_part u" "for_each (write_payment_split env tx d) ?spec s2 = (Inr (), s3)"
    "ledger_part s' = ledger_part s3" "pq_tx r = tx" "pq_allocations r = allocations"
  proof -
    obtain tx s1 s2 s3 s4 where run: "(case pm_tx inp of Some g \<Rightarrow> yield g | None \<Rightarrow> generateGuid env) s = (Inr tx, s1)"
      "add_tx \<lparr>by_guid = tx, by_currency = ro_currency owner, by_num = or_empty (pm_num inp), by_post = Some posted,
         by_description = ro_name owner\<rparr> s1 = (Inr (), s2)"
      "for_each add_slot [\<lparr>kv_obj = tx, kv_name = ''trans-txn-type'', kv_value = SlotString ''P''\<rparr>,
         \<lparr>kv_obj = tx, kv_name = ''date-posted'', kv_value = SlotGdate (take 10 (pm_date inp))\<rparr>] s2 = (Inr (), s3)"
      "for_each (write_payment_split env tx d) ?spec s3 = (Inr (), s4)"
      "for_each (\<lambda>a. set_lot_closed (od_lot (the (find_open docs (fst a))))) (fully_paid d docs allocations) s4 = (Inr (), s')"
      "pq_tx r = tx" "pq_allocations r = allocations"
      using assms unfolding write_payment_def bind_op_Inr_iff payment_specs_def by auto
    moreover have "ledger_part s3 = ledger_part s2"
      using run(3) by (rule slots_ledger)
    moreover have "ledger_part s' = ledger_part s4"
      using run(5) by (rule lots_ledger)
    ultimately show ?thesis by (intro that [of tx s1 s2 _ s3 s4]) (auto simp: add_tx_def)
  qed
  obtain new where new: "bz_splits s3 = bz_splits s2 @ new"
    "list_all2 (\<lambda>sp x. \<exists>g frac. x = payment_row tx sp frac g \<and> snd frac = d \<and> split_units d (py_value sp) = JFin (of_int (fst frac))) ?spec new"
    using written_splits [OF run(5) [unfolded write_payment_split_eq]] by blast
  have "keeps bz_txs (for_each (write_payment_split env tx d) ?spec)"
    by (auto simp: write_payment_split_def fromDecimal_def add_book_split_def intro!: frame split: js_number.splits)
  then have "bz_txs s3 = bz_txs s2" using run(5) by (rule keepsD)
  moreover have "bz_txs s1 = bz_txs s" "bz_splits s1 = bz_splits s" "pm_tx inp = Some tx \<or> pm_tx inp = None"
    using run(1) by (auto simp: generateGuid_def split: option.splits)
  ultimately show ?thesis using run(2-4,6-8) new by (intro that [of t new]) (auto simp: ledger_part_eq)
qed

text \<open>What a payment that was not there before ran through.\<close>

lemma already_paid_tables: "tables s' = tables s \<Longrightarrow> already_paid inp s' = already_paid inp s"
  by (cases "pm_tx inp") (simp_all add: already_paid_def tables_eq)

lemma applyPayment_Inr:
  assumes "applyPayment env book inp s = (Inr r, s')"
  obtains "already_paid inp s = Some r" "s' = s"
  | endType owner posted s1 where "already_paid inp s = None" "tables s1 = tables s"
    "pay_documents env book inp endType owner posted s1 = (Inr r, s')"
proof (cases "already_paid inp s")
  case (Some x)
  then show ?thesis using assms that(1) unfolding applyPayment_def bind_op_Inr_iff by (auto dest: reading_ops)
next
  case None
  have late: "already_paid inp s1 = None" "tables s1 = tables s" if "check_period env lb ds s = (Inr u, s1)" for lb ds u s1
    using None check_period_tables [OF that] already_paid_tables by metis+
  have early: "already_paid inp s0 = None" if "parseIsoDateNoon env d s = (x, s0)" for d x s0
    using None reading_ops(1) [OF that] by simp
  show ?thesis
    using assms None unfolding applyPayment_def bind_op_Inr_iff
    apply (clarsimp dest!: reading_ops)
    apply (clarsimp simp: bind_op_Inr_iff in_transaction_Inr dest!: reading_ops)
    subgoal by (frule late(1), drule late(2), simp add: bind_op_Inr_iff, elim exE conjE, rule that(2); assumption)
    done
qed


section \<open>Postings and their reversals\<close>

lemma postInvoice_writes:
  assumes "postInvoice env adopts book guid inp s = (Inr r, s')"
  obtains i new acc posted where "find (\<lambda>i. iv_guid i = guid) (bz_invoices s) = Some i" "falsy_guid (iv_post_txn i)"
    "bz_splits s' = bz_splits s @ new" "list_all (\<lambda>x. bx_tx x = pr_tx r) new"
    "bz_invoices s' = map (\<lambda>i. if iv_guid i = guid then i\<lparr>iv_posted := Some posted, iv_post_txn := Some (pr_tx r),
        iv_post_acc := Some acc, iv_post_lot := Some (pr_lot r)\<rparr> else i) (bz_invoices s)"
    "\<exists>t. bz_txs s' = bz_txs s @ [t] \<and> by_guid t = pr_tx r"
proof (rule postInvoice_Inr [OF assms])
  fix i owner d posted due acc env' bookRoot s1
  assume run: "find (\<lambda>i. iv_guid i = guid) (bz_invoices s) = Some i" "falsy_guid (iv_post_txn i)" "tables s1 = tables s"
    "write_posting env' guid inp i owner bookRoot (document_lines env (ro_kind owner) guid s) d posted due acc s1 = (Inr r, s')"
  show thesis
  proof (rule write_posting_Inr [OF run(4)])
    fix new
    assume new: "bz_splits s' = bz_splits s1 @ new"
      "list_all2 (\<lambda>sp x. \<exists>g frac. x = posting_row (pr_tx r) (pr_lot r) sp frac g \<and> snd frac = d \<and> split_units d (pp_value sp) = JFin (of_int (fst frac)))
        (buildPostingSplits (ro_kind owner) (computeInvoiceTotals (document_lines env (ro_kind owner) guid s) (JFin (of_int d)))
          (document_lines env (ro_kind owner) guid s) acc (or_empty (pi_memo inp))) new"
      "bz_invoices s' = map (\<lambda>i. if iv_guid i = guid then i\<lparr>iv_posted := Some posted, iv_post_txn := Some (pr_tx r),
        iv_post_acc := Some acc, iv_post_lot := Some (pr_lot r)\<rparr> else i) (bz_invoices s1)"
      "\<exists>t. bz_txs s' = bz_txs s1 @ [t] \<and> by_guid t = pr_tx r"
    have "list_all (\<lambda>x. bx_tx x = pr_tx r) new" using posting_rows(1) [OF new(2)] by (auto simp: list_all_iff)
    then show thesis using that [OF run(1,2), of new acc posted] new run(3) by (simp add: tables_eq)
  qed
qed

lemma find_updated:
  "find (\<lambda>i. iv_guid i = g) (map (\<lambda>i. if iv_guid i = g then f i else i) is) = map_option f (find (\<lambda>i. iv_guid i = g) is)"
  if "\<And>i. iv_guid (f i) = iv_guid i"
  using that by (induction "is") auto

text \<open>
  C8. Posting an invoice writes one transaction whose splits balance exactly, whatever quantities,
  prices, discounts and taxes its entries have, as long as the document fits: every split carries
  the new transaction, and together they sum to zero. The invoice is marked with that transaction.
\<close>
theorem post_invoice_balanced:
  assumes "postInvoice env adopts book guid inp s = (Inr r, s')" "document_fits env guid s"
  shows "\<exists>new. bz_splits s' = bz_splits s @ new \<and> new \<noteq> [] \<and> split_total new = 0 \<and> list_all (\<lambda>x. bx_tx x = pr_tx r) new \<and>
    (\<exists>i. find (\<lambda>i. iv_guid i = guid) (bz_invoices s') = Some i \<and> iv_post_txn i = Some (pr_tx r) \<and> iv_post_lot i = Some (pr_lot r))"
proof (rule postInvoice_Inr [OF assms(1)])
  fix i owner d posted due acc env' bookRoot s1
  assume run: "document_of env guid s = Some (i, owner, d)" "find (\<lambda>i. iv_guid i = guid) (bz_invoices s) = Some i" "tables s1 = tables s"
    "write_posting env' guid inp i owner bookRoot (document_lines env (ro_kind owner) guid s) d posted due acc s1 = (Inr r, s')"
  have fits: "0 < d" "d \<le> 2 ^ 38" "postable d (document_lines env (ro_kind owner) guid s)"
    using assms(2) run(1) by (simp_all add: document_fits_def)
  obtain new where new: "bz_splits s' = bz_splits s1 @ new" "split_total new = 0" "list_all (\<lambda>x. bx_tx x = pr_tx r \<and> snd (bx_value x) = d) new"
    by (rule posting_balanced [OF run(4) fits])
  have splits: "bz_splits s1 = bz_splits s" "bz_invoices s1 = bz_invoices s" using run(3) by (simp_all add: tables_eq)
  show ?thesis
  proof (rule write_posting_Inr [OF run(4)])
    fix new'
    assume w: "bz_splits s' = bz_splits s1 @ new'"
      "list_all2 (\<lambda>sp x. \<exists>g frac. x = posting_row (pr_tx r) (pr_lot r) sp frac g \<and> snd frac = d \<and> split_units d (pp_value sp) = JFin (of_int (fst frac)))
        (buildPostingSplits (ro_kind owner) (computeInvoiceTotals (document_lines env (ro_kind owner) guid s) (JFin (of_int d)))
          (document_lines env (ro_kind owner) guid s) acc (or_empty (pi_memo inp))) new'"
      "bz_invoices s' = map (\<lambda>i. if iv_guid i = guid then i\<lparr>iv_posted := Some posted, iv_post_txn := Some (pr_tx r),
        iv_post_acc := Some acc, iv_post_lot := Some (pr_lot r)\<rparr> else i) (bz_invoices s1)"
    have "new' = new" using new(1) w(1) by simp
    then have "new \<noteq> []" using w(2) by (auto simp: buildPostingSplits_def)
    moreover have "list_all (\<lambda>x. bx_tx x = pr_tx r) new" using new(3) by (auto simp: list_all_iff)
    moreover have "find (\<lambda>i. iv_guid i = guid) (bz_invoices s') = Some (i\<lparr>iv_posted := Some posted, iv_post_txn := Some (pr_tx r),
        iv_post_acc := Some acc, iv_post_lot := Some (pr_lot r)\<rparr>)"
      unfolding w(3) splits by (subst find_updated) (simp_all add: run(2))
    ultimately show ?thesis using new(1,2) splits by auto
  qed
qed

text \<open>
  C33. A document is posted once: after a posting, posting it again is refused by anyone until it is
  unposted, and writes nothing.
\<close>
theorem document_posted_once:
  assumes "postInvoice env adopts book guid inp s = (Inr r, s')" "pr_tx r \<noteq> []"
  shows "\<exists>e s2. postInvoice env' adopts' book' guid again s' = (Inl e, s2) \<and> tables s2 = tables s'"
proof -
  have never: False if "postInvoice env' adopts' book' guid again s' = (Inr r2, s2)" for r2 s2
  proof (rule postInvoice_writes [OF assms(1)])
    fix i acc posted
    assume "find (\<lambda>i. iv_guid i = guid) (bz_invoices s) = Some i"
      "bz_invoices s' = map (\<lambda>i. if iv_guid i = guid then i\<lparr>iv_posted := Some posted, iv_post_txn := Some (pr_tx r),
        iv_post_acc := Some acc, iv_post_lot := Some (pr_lot r)\<rparr> else i) (bz_invoices s)"
    then have "find (\<lambda>i. iv_guid i = guid) (bz_invoices s') = Some (i\<lparr>iv_posted := Some posted, iv_post_txn := Some (pr_tx r),
        iv_post_acc := Some acc, iv_post_lot := Some (pr_lot r)\<rparr>)"
      by (simp add: find_updated)
    then show False using assms(2) by (rule_tac postInvoice_writes [OF that]) (simp add: falsy_guid_def)
  qed
  obtain x s2 where run: "postInvoice env' adopts' book' guid again s' = (x, s2)" by fastforce
  with never obtain e where "x = Inl e" by (cases x) auto
  with run refused_post [of env' adopts' book' guid again] show ?thesis by (auto simp: fails_clean_def)
qed


section \<open>A small shop\<close>

text \<open>One customer, one invoice over 3 pieces at 250 yen, a receivable and an income account.\<close>

definition shop_env :: engine_env where
  "shop_env = \<lparr>ev_now = 0, ev_parse = (\<lambda>_. Some 0), ev_settings = (\<lambda>_. None), ev_guid = (\<lambda>n. CHR ''g'' # replicate n CHR ''x''),
     ev_books = [\<lparr>bk_guid = ''b'', bk_root = ''r''\<rparr>], ev_owned = (\<lambda>_ _. Some ''b''),
     ev_customers = (\<lambda>_. Some (''Carol'', ''JPY'')), ev_vendors = (\<lambda>_. None), ev_employees = (\<lambda>_. None), ev_jobs = [],
     ev_fractions = (\<lambda>_. Some 1), ev_taxtables = [], ev_terms = (\<lambda>_. None), ev_adopt = None\<rparr>"

definition shop_entry :: entry_row where
  "shop_entry = \<lparr>en_date = 0, en_description = None, en_quantity = (Some 3, Some 1), en_invoice = Some ''i'', en_i_acct = Some ''inc'',
     en_i_price = (Some 250, Some 1), en_i_discount = (None, None), en_i_disc_type = None, en_i_disc_how = None,
     en_i_taxable = 0, en_i_taxincluded = 0, en_i_taxtable = None, en_bill = None, en_b_acct = None,
     en_b_price = (None, None), en_b_taxable = 0, en_b_taxincluded = 0, en_b_taxtable = None\<rparr>"

definition shop_invoice :: invoice_row where
  "shop_invoice = \<lparr>iv_guid = ''i'', iv_id = ''1'', iv_owner_type = OWNER_TYPE_CUSTOMER, iv_owner = ''c'', iv_currency = ''JPY'',
     iv_terms = None, iv_posted = None, iv_post_txn = None, iv_post_acc = None, iv_post_lot = None\<rparr>"

definition shop_account :: "string \<Rightarrow> string \<Rightarrow> string option \<Rightarrow> book_account" where
  "shop_account g ty p = \<lparr>ba_guid = g, ba_name = g, ba_parent = p, ba_type = ty, ba_commodity = Some ''JPY'', ba_placeholder = 0,
     ba_description = ''''\<rparr>"

definition shop :: business where
  "shop = \<lparr>bz_accounts = [shop_account ''r'' ''ROOT'' None, shop_account ''ar'' ''RECEIVABLE'' (Some ''r''),
       shop_account ''inc'' ''INCOME'' (Some ''r''), shop_account ''bank'' ''BANK'' (Some ''r'')],
     bz_invoices = [shop_invoice], bz_entries = [shop_entry], bz_lots = [], bz_txs = [], bz_splits = [], bz_slots = [],
     bz_locks = (\<lambda>_. Some \<lparr>cl_lock_date = None, cl_expires_at = 1\<rparr>), bz_guids = 0\<rparr>"

definition shop_post :: post_input where
  "shop_post = \<lparr>pi_date = ''2026-01-15'', pi_due = None, pi_memo = None, pi_description = None\<rparr>"

lemma fl_small: "fl 0 = JFin 0" "fl 1 = JFin 1" "fl (-1) = JFin (-1)"
  "numeral n \<le> (2 ^ 53 :: int) \<Longrightarrow> fl (numeral n) = JFin (numeral n)"
  "numeral n \<le> (2 ^ 53 :: int) \<Longrightarrow> fl (- numeral n) = JFin (- numeral n)"
  using fl_int [of 0] fl_int [of 1] fl_int [of "-1"] fl_int [of "numeral n"] fl_int [of "- numeral n"] by simp_all

lemma rat_floor: "\<lfloor>numeral m / numeral n :: rat\<rfloor> = numeral m div numeral n" "\<lfloor>1 / numeral n :: rat\<rfloor> = 1 div numeral n"
  using floor_divide_of_int_eq [of "numeral m" "numeral n", where 'a = rat] floor_divide_of_int_eq [of 1 "numeral n", where 'a = rat]
  by simp_all

lemma dec_number_exact: "\<bar>d\<bar> = 10 ^ p \<Longrightarrow> dec_number (Some n, Some d) = fl (of_int n / of_int d)"
  using toDecimal_exact [of d p n] by (auto simp: dec_number_def toDecimalNumber_def)

lemma dec_number_whole: "dec_number (Some n, Some 1) = fl (of_int n)"
  using dec_number_exact [of 1 0 n] by simp

lemma shop_dec: "dec_number (Some 3, Some 1) = JFin 3" "dec_number (Some 250, Some 1) = JFin 250" "dec_number (None, None) = JFin 0"
  by (simp_all add: dec_number_whole fl_small) (simp add: dec_number_def)

lemma shop_lines: "document_lines shop_env InvoiceKind ''i'' shop = [\<lparr>el_account = ''inc'', el_description = Some '''', el_quantity = JFin 3,
   el_price = JFin 250, el_discount = Some (JFin 0), el_discount_type = Some VALUE, el_discount_how = Some PRETAX,
   el_taxable = Some False, el_tax_included = False, el_tax_table = None\<rparr>]"
  by (simp add: document_lines_def document_entries_def shop_def shop_entry_def entryRowToLine_def shop_dec or_empty_def tax_table_of_def
      stable_sort_def)

lemma shop_document: "document_of shop_env ''i'' shop = Some (shop_invoice, \<lparr>ro_name = ''Carol'', ro_currency = ''JPY'', ro_kind = InvoiceKind\<rparr>, 1)"
  by (simp add: document_of_def shop_def shop_env_def shop_invoice_def find_invoice_def resolveOwner_def resolveEndOwner_def
      getCurrencyFraction_def bind_op_def read_op_def found_def yield_def OWNER_TYPE_CUSTOMER_def OWNER_TYPE_JOB_def)

lemma shop_fits: "document_fits shop_env ''i'' shop"
  by (simp add: document_fits_def shop_document shop_lines postable_def raw_amounts_def entry_table_def entry_net_def entry_pretax_def
      entry_discount_def size_of_def js_eq_def js_sub_def fl_small)

lemma shop_totals: "computeInvoiceTotals (document_lines shop_env InvoiceKind ''i'' shop) (JFin 1) =
    \<lparr>it_subtotal = JFin 750, it_discount = JFin 0, it_tax = JFin 0, it_total = JFin 750,
      it_entries = [\<lparr>ce_subtotal = JFin 750, ce_discount = JFin 0, ce_net = JFin 750, ce_taxes = [], ce_tax_total = JFin 0, ce_gross = JFin 750\<rparr>],
      it_tax_by_account = []\<rparr>"
  by (simp add: computeInvoiceTotals_def shop_lines computeEntry_def running_def roundCurrency_def entry_table_def entry_net_def entry_pretax_def
      entry_discount_def entry_taxes_def js_eq_def js_sub_def fl_small Let_def
      rat_floor)

definition shop_lot :: string where "shop_lot = ''g''"
definition shop_txn :: string where "shop_txn = ''gxx''"

definition shop_posting :: "book_split list" where
  "shop_posting = [
     \<lparr>bx_guid = ''gxxxx'', bx_tx = ''gxx'', bx_account = ''ar'', bx_memo = '''', bx_action = ''Invoice'', bx_state = ''n'',
       bx_value = (750, 1), bx_quantity = (750, 1), bx_lot = Some ''g''\<rparr>,
     \<lparr>bx_guid = ''gxxxxx'', bx_tx = ''gxx'', bx_account = ''inc'', bx_memo = '''', bx_action = ''Invoice'', bx_state = ''n'',
       bx_value = (-750, 1), bx_quantity = (-750, 1), bx_lot = None\<rparr>]"

lemma shop_specs: "buildPostingSplits InvoiceKind (computeInvoiceTotals (document_lines shop_env InvoiceKind ''i'' shop) (JFin 1))
    (document_lines shop_env InvoiceKind ''i'' shop) ''ar'' '''' =
   [\<lparr>pp_account = ''ar'', pp_value = JFin 750, pp_memo = '''', pp_action = ''Invoice'', pp_post = True\<rparr>,
    \<lparr>pp_account = ''inc'', pp_value = JFin (-750), pp_memo = '''', pp_action = ''Invoice'', pp_post = False\<rparr>]"
  unfolding shop_totals
  by (simp add: buildPostingSplits_def kind_sign_def kind_action_def shop_lines line_specs_def tax_specs_def fl_small js_eq_def)

definition shop_result :: post_result where
  "shop_result = \<lparr>pr_tx = ''gxx'', pr_lot = ''g'', pr_account = ''ar'', pr_total = JFin 750, pr_due = iso_date 0\<rparr>"

lemma underRoot_numeral [simp]:
  "underRoot (numeral n) accounts r None = False"
  "underRoot (numeral n) accounts r (Some g) = (case find (\<lambda>a. ba_guid a = g) accounts of None \<Rightarrow> False
    | Some a \<Rightarrow> ba_guid a = r \<or> underRoot (pred_numeral n) accounts r (if ba_parent a = Some [] then None else ba_parent a))"
  by (simp_all add: numeral_eq_Suc)

lemma shop_account_found: "findOrCreatePostAccount shop_env InvoiceKind ''r'' ''JPY'' shop = (Inr ''ar'', shop)"
  by (simp add: findOrCreatePostAccount_def bind_op_def read_op_def shop_def shop_account_def post_account_type_def stable_sort_def yield_def)

definition shop_owner :: resolved_owner where
  "shop_owner = \<lparr>ro_name = ''Carol'', ro_currency = ''JPY'', ro_kind = InvoiceKind\<rparr>"

definition posted_shop :: business where
  "posted_shop = shop\<lparr>bz_guids := 6, bz_lots := [\<lparr>lt_guid = ''g'', lt_account = ''ar'', lt_closed = False\<rparr>],
     bz_txs := [\<lparr>by_guid = ''gxx'', by_currency = ''JPY'', by_num = ''1'', by_post = Some 0, by_description = ''Carol''\<rparr>],
     bz_splits := shop_posting,
     bz_slots := [\<lparr>kv_obj = ''g'', kv_name = ''gncInvoice'', kv_value = SlotFrame ''gx''\<rparr>,
       \<lparr>kv_obj = ''gx'', kv_name = ''gncInvoice/invoice-guid'', kv_value = SlotGuid ''i''\<rparr>,
       \<lparr>kv_obj = ''gxx'', kv_name = ''gncInvoice'', kv_value = SlotFrame ''gxxx''\<rparr>,
       \<lparr>kv_obj = ''gxxx'', kv_name = ''gncInvoice/invoice-guid'', kv_value = SlotGuid ''i''\<rparr>,
       \<lparr>kv_obj = ''gxx'', kv_name = ''trans-txn-type'', kv_value = SlotString ''I''\<rparr>,
       \<lparr>kv_obj = ''gxx'', kv_name = ''trans-date-due'', kv_value = SlotTimespec 0\<rparr>,
       \<lparr>kv_obj = ''gxx'', kv_name = ''trans-read-only'', kv_value = SlotString TXN_READONLY_REASON\<rparr>,
       \<lparr>kv_obj = ''gxx'', kv_name = ''date-posted'', kv_value = SlotGdate ''2026-01-15''\<rparr>],
     bz_invoices := [shop_invoice\<lparr>iv_posted := Some 0, iv_post_txn := Some ''gxx'', iv_post_acc := Some ''ar'', iv_post_lot := Some ''g''\<rparr>]\<rparr>"

lemma shop_steps:
  "assertInvoiceInBook shop_env ''b'' ''i'' s = (Inr (), s)"
  "resolveOwner shop_env (iv_owner_type shop_invoice) (iv_owner shop_invoice) s = (Inr shop_owner, s)"
  "getCurrencyFraction shop_env c s = (Inr 1, s)"
  "find_invoice ''i'' shop = (Inr shop_invoice, shop)"
  "parseIsoDateNoon shop_env ''2026-01-15'' s = (Inr 0, s)"
  "due_date_of shop_env shop_post shop_invoice 0 s = (Inr 0, s)"
  "bookRootGuidFor shop_env ''b'' s = (Inr ''r'', s)"
  by (simp_all add: shop_env_def shop_invoice_def shop_owner_def shop_def shop_post_def assertInvoiceInBook_def isEntityOwnedByBook_def require_def
      resolveOwner_def resolveEndOwner_def getCurrencyFraction_def bind_op_def read_op_def found_def yield_def find_invoice_def
      OWNER_TYPE_CUSTOMER_def OWNER_TYPE_JOB_def parseIsoDateNoon_def iso_prefix_def due_date_of_def computeDueDate_def bookRootGuidFor_def
      is_digit_def numeral_eq_Suc)

lemma shop_entries: "document_entries InvoiceKind ''i'' (bz_entries shop) = [shop_entry]"
  by (simp add: document_entries_def shop_def shop_entry_def stable_sort_def)

lemma shop_open: "open_posting shop_env ''i'' shop_post shop_invoice shop_owner 0 0 ''ar'' shop =
    (Inr (''g'', ''gxx''), posted_shop\<lparr>bz_guids := 4, bz_splits := [], bz_invoices := [shop_invoice]\<rparr>)"
  by (simp add: open_posting_def bind_op_def generateGuid_def write_op_def writeGuidFrameSlot_def add_slot_def add_tx_def yield_def
      shop_def posted_shop_def shop_env_def shop_post_def shop_owner_def shop_invoice_def numeral_eq_Suc)

lemma shop_units: "fromDecimal (JFin 750) 1 s = (Inr (750, 1), s)" "fromDecimal (JFin (- 750)) 1 s = (Inr (- 750, 1), s)"
  using floor_divide_of_int_eq [of "-1499" 2, where 'a = rat]
  by (simp_all add: fromDecimal_def fl_small rat_floor yield_def)

lemma shop_write: "write_posting shop_env ''i'' shop_post shop_invoice shop_owner ''r'' (document_lines shop_env InvoiceKind ''i'' shop) 1 0 0 ''ar'' shop
    = (Inr shop_result, posted_shop)"
proof -
  have memo: "or_empty (pi_memo shop_post) = ''''" "ro_kind shop_owner = InvoiceKind"
    by (simp_all add: or_empty_def shop_post_def shop_owner_def)
  have check: "assertAccountsInBook ''r'' [''ar'', ''inc''] l (posted_shop\<lparr>bz_guids := n, bz_splits := sp, bz_invoices := iv\<rparr>)
      = (Inr (), posted_shop\<lparr>bz_guids := n, bz_splits := sp, bz_invoices := iv\<rparr>)" for l n sp iv
    by (simp add: assertAccountsInBook_def bind_op_def read_op_def require_def posted_shop_def shop_def shop_account_def)
  show ?thesis
    unfolding write_posting_def Let_def memo of_int_1 shop_specs
    by (simp add: shop_open bind_op_def check memo write_posting_split_def shop_units
        add_book_split_def generateGuid_def write_op_def set_invoice_def yield_def shop_totals [simplified])
      (simp add: shop_result_def posted_shop_def shop_posting_def shop_def shop_invoice_def shop_env_def numeral_eq_Suc)
qed

lemma shop_posted: "postInvoice shop_env [] ''b'' ''i'' shop_post shop = (Inr shop_result, posted_shop)"
proof -
  have adopt: "with_adopt shop_env None = shop_env" by (simp add: with_adopt_def shop_env_def)
  have "ro_kind shop_owner = InvoiceKind" "iv_currency shop_invoice = ''JPY''" "pi_date shop_post = ''2026-01-15''"
    "falsy_guid (iv_post_txn shop_invoice)"
    by (simp_all add: shop_owner_def shop_invoice_def shop_post_def falsy_guid_def)
  moreover have "map (entryRowToLine shop_env InvoiceKind) [shop_entry] = document_lines shop_env InvoiceKind ''i'' shop"
    by (simp add: document_lines_def shop_entries)
  ultimately have "post_once shop_env ''b'' ''r'' ''i'' shop_post shop = (Inr shop_result, posted_shop)"
    by (simp add: post_once_def in_transaction_Inr bind_op_Inr_iff Let_def shop_steps shop_entries shop_totals [simplified] js_eq_def
      shop_account_found shop_write)
  moreover have "check_period shop_env b ds shop = (Inr (), shop)" for b ds
    by (cases b) (simp_all add: check_period_def assertNotLocked_def getCachedLockDate_def findLockedDate_def shop_def shop_env_def)
  ultimately show ?thesis
    by (simp add: postInvoice_def bind_op_def shop_steps adopt)
qed

theorem post_invoice_balanced_witness:
  "\<exists>new. bz_splits posted_shop = bz_splits shop @ new \<and> new \<noteq> [] \<and> split_total new = 0 \<and> list_all (\<lambda>x. bx_tx x = pr_tx shop_result) new \<and>
    (\<exists>i. find (\<lambda>i. iv_guid i = ''i'') (bz_invoices posted_shop) = Some i \<and> iv_post_txn i = Some (pr_tx shop_result) \<and> iv_post_lot i = Some (pr_lot shop_result))"
  by (rule post_invoice_balanced [OF shop_posted shop_fits])

theorem document_posted_once_witness:
  "\<exists>e s2. postInvoice shop_env [] ''b'' ''i'' shop_post posted_shop = (Inl e, s2) \<and> tables s2 = tables posted_shop"
  by (rule document_posted_once [OF shop_posted]) (simp add: shop_result_def)

lemma shop_period: "bz_locks s = bz_locks shop \<Longrightarrow> check_period shop_env b ds s = (Inr (), s)"
  by (cases b) (simp_all add: check_period_def assertNotLocked_def getCachedLockDate_def findLockedDate_def shop_def shop_env_def)

lemma shop_reversible: "assertReversiblePosting (hd (bz_invoices posted_shop)) (Some t) (bz_splits posted_shop) s = (Inr t, s)"
  by (simp add: assertReversiblePosting_def bind_op_def found_def require_def yield_def posted_shop_def shop_posting_def falsy_guid_def
      sumSplitValues_def bigintGcd_def bigint_gcd_loop.simps Let_def)

lemma shop_book: "book_of_account shop_env ''ar'' s = (Inr (Some ''b''), s)" if "bz_accounts s = bz_accounts shop"
  using that by (simp add: book_of_account_def bind_op_def read_op_def found_def getBookGuidForAccount_def parent_map_def shop_def shop_account_def shop_env_def)

section \<open>A posting can be unposted\<close>

text \<open>The frames of the slot table, as pairs of an object and the frame below it.\<close>

definition frames :: "business \<Rightarrow> (string \<times> string) list" where
  "frames s = concat (map (\<lambda>r. case kv_value r of SlotFrame g \<Rightarrow> [(kv_obj r, g)] | _ \<Rightarrow> []) (bz_slots s))"

definition shallow :: "string \<Rightarrow> business \<Rightarrow> bool" where
  "shallow obj s \<longleftrightarrow> list_all (\<lambda>(o', g). o' = obj \<longrightarrow> g \<notin> fst ` set (frames s)) (frames s)"

lemma in_frames: "(obj, g) \<in> set (frames s) \<longleftrightarrow> (\<exists>r \<in> set (bz_slots s). kv_obj r = obj \<and> kv_value r = SlotFrame g)"
  by (force simp: frames_def split: slot_value.splits)

lemma shallow_iff: "shallow obj s \<longleftrightarrow> (\<forall>g h. (obj, g) \<in> set (frames s) \<longrightarrow> (g, h) \<notin> set (frames s))"
  by (auto simp: shallow_def list_all_iff image_iff)

lemma shallow_subset: "shallow obj s \<Longrightarrow> set (frames s') \<subseteq> set (frames s) \<Longrightarrow> shallow obj s'"
  unfolding shallow_iff by blast

lemma frames_subset: "set (bz_slots s') \<subseteq> set (bz_slots s) \<Longrightarrow> set (frames s') \<subseteq> set (frames s)"
  by (clarsimp simp: in_frames) blast

lemma set_frames_of: "g \<in> set (frames_of rs) \<longleftrightarrow> g \<noteq> [] \<and> (\<exists>r \<in> set rs. kv_value r = SlotFrame g)"
  by (induction rs) (auto simp: frames_of_def split: slot_value.splits if_splits)

lemma delete_leaf:
  assumes "\<forall>h. (g, h) \<notin> set (frames s)"
  shows "deleteSlotsRecursive (Suc n) g s = (Inr (), s\<lparr>bz_slots := filter (\<lambda>r. kv_obj r \<noteq> g) (bz_slots s)\<rparr>)"
proof -
  have "\<not> (\<exists>g'. g' \<in> set (frames_of (filter (\<lambda>r. kv_obj r = g) (bz_slots s))))"
    using assms by (auto simp: set_frames_of in_frames)
  then have "frames_of (filter (\<lambda>r. kv_obj r = g) (bz_slots s)) = []" by (cases "frames_of (filter (\<lambda>r. kv_obj r = g) (bz_slots s))") auto
  then show ?thesis by (simp add: bind_op_def read_op_def yield_def write_op_def)
qed

lemma delete_leaves:
  assumes "\<forall>g \<in> set gs. \<forall>h. (g, h) \<notin> set (frames s)"
  shows "\<exists>s'. for_each (deleteSlotsRecursive (Suc n)) gs s = (Inr (), s') \<and> set (frames s') \<subseteq> set (frames s)"
  using assms
proof (induction gs arbitrary: s)
  case (Cons g gs)
  let ?s = "s\<lparr>bz_slots := filter (\<lambda>r. kv_obj r \<noteq> g) (bz_slots s)\<rparr>"
  have sub: "set (frames ?s) \<subseteq> set (frames s)" by (rule frames_subset) auto
  with Cons.prems have "\<forall>g \<in> set gs. \<forall>h. (g, h) \<notin> set (frames ?s)" by auto
  from Cons.IH [OF this] obtain s' where "for_each (deleteSlotsRecursive (Suc n)) gs ?s = (Inr (), s')" "set (frames s') \<subseteq> set (frames ?s)" by blast
  moreover have "deleteSlotsRecursive (Suc n) g s = (Inr (), ?s)" using Cons.prems by (intro delete_leaf) simp
  ultimately show ?case using sub by (auto simp: bind_op_def simp del: deleteSlotsRecursive.simps)
qed (simp add: yield_def)

lemma delete_frame:
  assumes "shallow obj s"
  shows "\<exists>s'. deleteFrameSlot obj nm s = (Inr (), s') \<and> set (frames s') \<subseteq> set (frames s)"
proof -
  let ?gs = "frames_of (filter (\<lambda>r. kv_obj r = obj \<and> kv_name r = nm) (bz_slots s))"
  have "(obj, g) \<in> set (frames s)" if "g \<in> set ?gs" for g using that by (auto simp: set_frames_of in_frames)
  then have "\<forall>g \<in> set ?gs. \<forall>h. (g, h) \<notin> set (frames s)" using assms unfolding shallow_iff by blast
  from delete_leaves [OF this, of "length (bz_slots s)"] obtain s' where
    "for_each (deleteSlotsRecursive (Suc (length (bz_slots s)))) ?gs s = (Inr (), s')" "set (frames s') \<subseteq> set (frames s)" by blast
  moreover have "set (frames (s'\<lparr>bz_slots := filter P (bz_slots s')\<rparr>)) \<subseteq> set (frames s')" for P by (rule frames_subset) auto
  ultimately show ?thesis
    by (auto simp: deleteFrameSlot_def bind_op_def read_op_def write_op_def simp del: deleteSlotsRecursive.simps)
qed

lemma write_string: "\<exists>s'. writeStringSlot obj nm v s = (Inr (), s') \<and> set (frames s') \<subseteq> set (frames s)"
  by (auto simp: writeStringSlot_def bind_op_def write_op_def add_slot_def in_frames)

lemma write_each: "\<exists>s'. for_each (\<lambda>x. add_book_split env (f x)) xs s = (Inr (), s') \<and> set (frames s') \<subseteq> set (frames s)"
proof (induction xs arbitrary: s)
  case (Cons x xs)
  let ?s = "s\<lparr>bz_guids := Suc (bz_guids s), bz_splits := bz_splits s @ [f x (ev_guid env (bz_guids s))]\<rparr>"
  have "frames ?s = frames s" by (simp add: frames_def)
  with Cons.IH [of ?s] show ?case by (auto simp: bind_op_def add_book_split_def generateGuid_def write_op_def)
qed (simp add: yield_def)

definition succeeds :: "('s, 'e, 'a) op \<Rightarrow> 's \<Rightarrow> bool" where
  "succeeds m s \<longleftrightarrow> (\<exists>a s'. m s = (Inr a, s'))"

lemma succeeds_bind: "m s = (Inr a, s1) \<Longrightarrow> succeeds (g a) s1 \<Longrightarrow> succeeds (bind_op m g) s"
  by (simp add: succeeds_def bind_op_def)

lemma succeeds_write: "(\<exists>s'. m s = (Inr (), s') \<and> set (frames s') \<subseteq> set (frames s)) \<Longrightarrow> (\<And>s'. set (frames s') \<subseteq> set (frames s) \<Longrightarrow> succeeds (g ()) s') \<Longrightarrow> succeeds (bind_op m g) s"
  by (auto simp: succeeds_def bind_op_def)

lemma succeeds_require: "ok \<Longrightarrow> succeeds (g ()) s \<Longrightarrow> succeeds (bind_op (require ok e) g) s"
  by (simp add: succeeds_def bind_op_def require_def)

lemma succeeds_read: "succeeds (g (f s)) s \<Longrightarrow> succeeds (bind_op (read_op f) g) s"
  by (simp add: succeeds_def bind_op_def read_op_def)

lemma succeeds_transaction: "succeeds m s \<Longrightarrow> succeeds (in_transaction m) s"
  by (simp add: succeeds_def in_transaction_Inr)

lemma check_period_locks: "check_period env b ds s = (x, s') \<Longrightarrow> s' = s\<lparr>bz_locks := bz_locks s'\<rparr>"
  by (cases b) (auto simp: check_period_def split: prod.splits sum.splits if_splits)

lemma unpost_runs:
  assumes "isEntityOwnedByBook env ''invoice'' guid book" "find (\<lambda>i. iv_guid i = guid) (bz_invoices s) = Some i" "\<not> falsy_guid (iv_post_txn i)"
    and "falsy_guid (iv_post_lot i) \<or> \<not> list_ex (\<lambda>x. bx_lot x = iv_post_lot i \<and> bx_tx x \<noteq> the (iv_post_txn i)) (bz_splits s)"
    and "fst (assertReversiblePosting i (find (\<lambda>t. by_guid t = the (iv_post_txn i)) (bz_txs s))
      (filter (\<lambda>x. bx_tx x = the (iv_post_txn i)) (bz_splits s)) s) = Inr t"
    and "fst ((if falsy_guid (iv_post_acc i) then yield None else book_of_account env (the (iv_post_acc i))) s) = Inr lb"
    and "\<And>d. fst (check_period env lb [DateValue d] s) = Inr ()"
    and "shallow (the (iv_post_txn i)) s" "shallow (the (iv_post_lot i)) s"
  shows "\<exists>s2. unpostInvoice env book guid s = (Inr (), s2)"
proof -
  have run: "assertInvoiceInBook env book guid s = (Inr (), s)" "find_invoice guid s = (Inr i, s)"
    using assms(1,2) by (simp_all add: assertInvoiceInBook_def require_def find_invoice_def bind_op_def read_op_def found_def)
  have rev: "assertReversiblePosting i (find (\<lambda>t. by_guid t = the (iv_post_txn i)) (bz_txs s))
      (filter (\<lambda>x. bx_tx x = the (iv_post_txn i)) (bz_splits s)) s = (Inr t, s)"
    using assms(5) reversible_state by (metis prod.collapse)
  have bk: "(if falsy_guid (iv_post_acc i) then yield None else book_of_account env (the (iv_post_acc i))) s = (Inr lb, s)"
  proof -
    obtain x s' where eq: "(if falsy_guid (iv_post_acc i) then yield None else book_of_account env (the (iv_post_acc i))) s = (x, s')"
      by fastforce
    then have "s' = s" by (auto simp: yield_def split: if_splits dest: reading_ops)
    with eq assms(6) show ?thesis by simp
  qed
  have period: "\<exists>s1. check_period env lb [DateValue d] s = (Inr (), s1) \<and> set (frames s1) \<subseteq> set (frames s)" for d
  proof -
    obtain x s1 where eq: "check_period env lb [DateValue d] s = (x, s1)" by fastforce
    with assms(7) [of d] have "x = Inr ()" by simp
    with eq arg_cong [OF check_period_locks [OF eq], of bz_slots] show ?thesis by (auto simp: frames_def)
  qed
  have tail: "succeeds (bind_op (if falsy_guid (iv_post_lot i) then yield ()
       else bind_op (deleteFrameSlot (the (iv_post_lot i)) ''gncInvoice'') (\<lambda>_. set_lot_closed (the (iv_post_lot i)))) (\<lambda>_. set_invoice g f)) u"
    if "set (frames u) \<subseteq> set (frames s)" for u g f
    using delete_frame [OF shallow_subset [OF assms(9) that], of "''gncInvoice''"]
    by (auto simp: succeeds_def bind_op_def set_lot_closed_def set_invoice_def write_op_def yield_def)
  have gone: "\<exists>s'. deleteFrameSlot (the (iv_post_txn i)) nm u = (Inr (), s') \<and> set (frames s') \<subseteq> set (frames u)"
    if "set (frames u) \<subseteq> set (frames s)" for u nm
    using delete_frame [OF shallow_subset [OF assms(8) that]] .
  have "succeeds (unpostInvoice env book guid) s"
    unfolding unpostInvoice_def Let_def
    apply (rule succeeds_transaction)
    apply (rule succeeds_bind, rule run(1))
    apply (rule succeeds_bind, rule run(2))
    apply (rule succeeds_require, rule assms(3))
    apply (rule succeeds_read)
    apply (rule succeeds_require, rule assms(4))
    apply (rule succeeds_read)
    apply (simp only: prod.case)
    apply (rule succeeds_bind, rule rev)
    apply (rule succeeds_bind, rule bk)
    apply (rule succeeds_write, rule period)
    apply (rule succeeds_bind, simp add: generateGuid_def)
    apply (rule succeeds_write)
    subgoal by (auto simp: add_tx_def write_op_def frames_def)
    apply (rule succeeds_write)
    apply (rule write_each)
    apply (rule succeeds_write, rule write_string, rule succeeds_write, rule write_string, rule succeeds_write, rule write_string)
    apply (rule succeeds_write)
    subgoal by (rule gone) (auto simp: frames_def)
    apply (rule succeeds_write, rule write_string, rule succeeds_write, rule write_string, rule succeeds_write, rule write_string)
    apply (rule tail)
    apply (auto simp: frames_def)
    done
  then show ?thesis by (auto simp: succeeds_def)
qed

section \<open>The exact sum of split values\<close>

lemma bigint_gcd_loop_gcd: "0 \<le> x \<Longrightarrow> 0 \<le> y \<Longrightarrow> bigint_gcd_loop x y = gcd x y"
proof (induction x y rule: bigint_gcd_loop.induct)
  case (1 x y)
  show ?case
  proof (cases "y \<le> 0")
    case True
    then show ?thesis using 1 by simp
  next
    case False
    have "bigint_gcd_loop y (x mod y) = gcd y (x mod y)" using False 1 by simp
    then show ?thesis using False by (simp add: gcd_red_int [symmetric])
  qed
qed

declare bigint_gcd_loop.simps [simp del]

lemma bigintGcd_gcd: "bigintGcd a b = (if a = 0 \<and> b = 0 then 1 else gcd a b)"
  by (simp add: bigintGcd_def bigint_gcd_loop_gcd Let_def)

lemma reduce_fraction:
  assumes "d \<noteq> 0"
  shows "d sdiv bigintGcd n d \<noteq> 0 \<and> (of_int (n sdiv bigintGcd n d) :: rat) / of_int (d sdiv bigintGcd n d) = of_int n / of_int d"
proof -
  let ?g = "gcd n d"
  have g: "bigintGcd n d = ?g" "0 < ?g" using assms by (simp_all add: bigintGcd_gcd)
  have "n sdiv ?g = n div ?g" "d sdiv ?g = d div ?g" using g(2) by (simp_all add: sdiv_dvd)
  moreover have "(of_int (n div ?g) :: rat) = of_int n / of_int ?g" "(of_int (d div ?g) :: rat) = of_int d / of_int ?g"
    by (simp_all add: of_int_div)
  moreover have "d div ?g \<noteq> 0" using assms by (simp add: dvd_div_eq_0_iff)
  ultimately show ?thesis using g assms by simp
qed

lemma sum_fold:
  assumes "denom \<noteq> 0" "list_all (\<lambda>v. snd v \<noteq> 0) vs"
  shows "case foldl (\<lambda>(num, denom) (n, d).
      let num' = num * d + n * denom; denom' = denom * d; g = bigintGcd num' denom' in (num' sdiv g, denom' sdiv g)) (num, denom) vs of
    (n, d) \<Rightarrow> d \<noteq> 0 \<and> (of_int n :: rat) / of_int d = of_int num / of_int denom + sum_list (map (\<lambda>v. of_int (fst v) / of_int (snd v)) vs)"
  using assms
proof (induction vs arbitrary: num denom)
  case (Cons v vs)
  obtain n d where v: "v = (n, d)" by (cases v)
  let ?n = "num * d + n * denom" and ?d = "denom * d"
  have "?d \<noteq> 0" using Cons.prems v by simp
  from reduce_fraction [OF this, of ?n] Cons.IH [of "?d sdiv bigintGcd ?n ?d" "?n sdiv bigintGcd ?n ?d"] Cons.prems v
  show ?case by (simp add: Let_def split_beta add_divide_distrib)
qed simp

lemma sumSplitValues_exact:
  assumes "list_all (\<lambda>v. snd v \<noteq> 0) vs"
  shows "snd (sumSplitValues vs) \<noteq> 0 \<and>
    (of_int (fst (sumSplitValues vs)) :: rat) / of_int (snd (sumSplitValues vs)) = sum_list (map (\<lambda>v. of_int (fst v) / of_int (snd v)) vs)"
  using sum_fold [of 1 vs 0] assms by (simp add: sumSplitValues_def split_beta)

lemma sumSplitValues_zero:
  "list_all (\<lambda>x. snd (bx_value x) \<noteq> 0) ss \<Longrightarrow> fst (sumSplitValues (map bx_value ss)) = 0 \<longleftrightarrow> split_total ss = 0"
  using sumSplitValues_exact [of "map bx_value ss"] by (auto simp: split_total_def list_all_iff comp_def)

section \<open>Fresh guids\<close>

definition used_guids :: "business \<Rightarrow> string list" where
  "used_guids s = map by_guid (bz_txs s) @ map bx_tx (bz_splits s) @ List.map_filter bx_lot (bz_splits s) @ map kv_obj (bz_slots s)"

text \<open>What a generator of random guids promises: new ones, never twice the same.\<close>

definition fresh_guids :: "engine_env \<Rightarrow> business \<Rightarrow> bool" where
  "fresh_guids env s \<longleftrightarrow> inj (ev_guid env) \<and> (\<forall>n. ev_guid env n \<noteq> [] \<and> ev_guid env n \<notin> set (used_guids s))"

lemma open_posting_slots:
  "open_posting env guid inp invoice owner posted due acc s = (Inr (lot, tx), s') \<Longrightarrow>
     set (frames s') = set (frames s) \<union> {(lot, ev_guid env (bz_guids s + 1)), (tx, ev_guid env (bz_guids s + 3))}"
  by (auto simp: open_posting_def bind_op_def generateGuid_def write_op_def writeGuidFrameSlot_def add_slot_def add_tx_def yield_def frames_def
      numeral_eq_Suc)

lemma keeps_posting_slots: "keeps bz_slots (for_each (write_posting_split env tx lot d) specs)"
  by (auto simp: write_posting_split_def fromDecimal_def add_book_split_def intro!: frame split: js_number.splits)

lemma posting_frames:
  assumes "write_posting env guid inp invoice owner bookRoot lines d posted due acc s = (Inr r, s')"
  shows "set (frames s') = set (frames s) \<union> {(pr_lot r, ev_guid env (bz_guids s + 1)), (pr_tx r, ev_guid env (bz_guids s + 3))}"
    and "pr_account r = acc"
proof -
  let ?spec = "buildPostingSplits (ro_kind owner) (computeInvoiceTotals lines (JFin (of_int d))) lines acc (or_empty (pi_memo inp))"
  obtain lot tx s1 s2 where run: "open_posting env guid inp invoice owner posted due acc s = (Inr (lot, tx), s1)"
    "for_each (write_posting_split env tx lot d) ?spec s1 = (Inr (), s2)" "bz_slots s' = bz_slots s2" "pr_tx r = tx" "pr_lot r = lot" "pr_account r = acc"
    using assms unfolding write_posting_def Let_def bind_op_Inr_iff assertAccountsInBook_def set_invoice_def
    by (auto simp: bind_op_Inr_iff)
  have "bz_slots s2 = bz_slots s1" using keeps_posting_slots run(2) by (rule keepsD)
  then show "set (frames s') = set (frames s) \<union> {(pr_lot r, ev_guid env (bz_guids s + 1)), (pr_tx r, ev_guid env (bz_guids s + 3))}"
    using open_posting_slots [OF run(1)] run(3-5) by (simp add: frames_def)
  show "pr_account r = acc" by (rule run(6))
qed

lemma rows_shape:
  "list_all2 (\<lambda>sp x. \<exists>g frac. x = posting_row tx lot sp frac g \<and> snd frac = d \<and> split_units d (pp_value sp) = JFin (of_int (fst frac))) sps ys
    \<Longrightarrow> list_all (\<lambda>y. bx_tx y = tx \<and> snd (bx_value y) = d \<and> bx_quantity y = bx_value y) ys"
  by (induction sps ys rule: list_all2_induct) (auto simp: posting_row_def)

text \<open>The rows of a posting: only the first carries the lot.\<close>

lemma posting_lot_rows:
  assumes "list_all2 (\<lambda>sp x. \<exists>g frac. x = posting_row tx lot sp frac g \<and> snd frac = d \<and> split_units d (pp_value sp) = JFin (of_int (fst frac)))
    (buildPostingSplits kind totals lines acc memo) new"
  shows "\<exists>x xs. new = x # xs \<and> bx_lot x = Some lot \<and> bx_account x = acc \<and> list_all (\<lambda>y. bx_lot y = None) xs \<and>
    list_all (\<lambda>y. bx_tx y = tx \<and> snd (bx_value y) = d \<and> bx_quantity y = bx_value y) new"
proof -
  have rest: "list_all (\<lambda>y. bx_lot y = None) ys" if "list_all (\<lambda>sp. \<not> pp_post sp) sps"
    "list_all2 (\<lambda>sp x. \<exists>g frac. x = posting_row tx lot sp frac g \<and> snd frac = d \<and> split_units d (pp_value sp) = JFin (of_int (fst frac))) sps ys" for sps ys
    using that(2,1) by (induction sps ys rule: list_all2_induct) (auto simp: posting_row_def)
  have "list_all (\<lambda>sp. \<not> pp_post sp) (line_specs kind lines (it_entries totals) @ tax_specs kind (it_tax_by_account totals))"
    by (auto simp: line_specs_def tax_specs_def list_all_iff)
  moreover obtain x xs g frac where new: "new = x # xs" "x = posting_row tx lot \<lparr>pp_account = acc, pp_value = js_mul (JFin (kind_sign kind)) (it_total totals),
      pp_memo = memo, pp_action = kind_action kind, pp_post = True\<rparr> frac g"
    "list_all2 (\<lambda>sp x. \<exists>g frac. x = posting_row tx lot sp frac g \<and> snd frac = d \<and> split_units d (pp_value sp) = JFin (of_int (fst frac)))
      (line_specs kind lines (it_entries totals) @ tax_specs kind (it_tax_by_account totals)) xs"
    using assms unfolding buildPostingSplits_def list_all2_Cons1 by blast
  ultimately have "list_all (\<lambda>y. bx_lot y = None) xs" using rest by blast
  moreover have "bx_lot x = Some lot" "bx_account x = acc" by (simp_all add: new(2) posting_row_def)
  ultimately show ?thesis using rows_shape [OF assms] new(1) by blast
qed

text \<open>The conditions of an unposting hold right after a posting.\<close>

lemma posting_reversible:
  assumes "list_all2 (\<lambda>sp x. \<exists>g frac. x = posting_row tx lot sp frac g \<and> snd frac = d \<and> split_units d (pp_value sp) = JFin (of_int (fst frac)))
      (buildPostingSplits kind totals lines acc memo) new"
    and "d \<noteq> 0" "split_total new = 0" "lot \<noteq> []"
    and "iv_post_lot i = Some lot" "iv_post_acc i = Some acc"
  shows "assertReversiblePosting i (Some t) new s = (Inr t, s)"
proof -
  obtain x xs where new: "new = x # xs" "bx_lot x = Some lot" "bx_account x = acc" "list_all (\<lambda>y. bx_lot y = None) xs"
    "list_all (\<lambda>y. bx_tx y = tx \<and> snd (bx_value y) = d \<and> bx_quantity y = bx_value y) new"
    using posting_lot_rows [OF assms(1)] by blast
  have "list_all (\<lambda>y. snd (bx_value y) \<noteq> 0) new" using new(5) assms(2) by (auto simp: list_all_iff)
  then have "fst (sumSplitValues (map bx_value new)) = 0" using sumSplitValues_zero assms(3) by blast
  moreover have "\<not> list_ex (\<lambda>s. snd (bx_value s) = 0 \<or> snd (bx_quantity s) = 0) new"
    using new(5) assms(2) by (auto simp: list_all_iff list_ex_iff)
  moreover have "filter (\<lambda>s. bx_lot s = Some lot) new = [x]" using new(2,4) by (auto simp: new(1) list_all_iff filter_empty_conv)
  moreover have "new \<noteq> []" using new(1) by simp
  ultimately show ?thesis using assms(4-6) new(3)
    by (simp add: assertReversiblePosting_def bind_op_def found_def require_def yield_def falsy_guid_def Let_def)
qed


lemma shop_fresh: "fresh_guids shop_env shop"
  by (auto simp: fresh_guids_def used_guids_def shop_def shop_env_def List.map_filter_def inj_def replicate_eq_replicate)

lemma shop_lock: "bz_locks s = bz_locks shop \<Longrightarrow> check_period shop_env b ds s = (Inr (), s)"
  by (cases b) (simp_all add: check_period_def assertNotLocked_def getCachedLockDate_def findLockedDate_def shop_def shop_env_def)

lemma shop_tables: "bz_locks posted_shop = bz_locks shop" "bz_accounts posted_shop = bz_accounts shop" "pr_account shop_result = ''ar''"
  by (simp_all add: posted_shop_def shop_result_def)


lemma shop_unposted: "\<exists>s2. unpostInvoice shop_env ''b'' ''i'' posted_shop = (Inr (), s2)"
proof (rule unpost_runs)
  let ?i = "hd (bz_invoices posted_shop)"
  show "find (\<lambda>i. iv_guid i = ''i'') (bz_invoices posted_shop) = Some ?i" by (simp add: posted_shop_def shop_invoice_def)
  show "isEntityOwnedByBook shop_env ''invoice'' ''i'' ''b''" by (simp add: isEntityOwnedByBook_def shop_env_def)
  show "\<not> falsy_guid (iv_post_txn ?i)" by (simp add: posted_shop_def falsy_guid_def)
  show "falsy_guid (iv_post_lot ?i) \<or> \<not> list_ex (\<lambda>x. bx_lot x = iv_post_lot ?i \<and> bx_tx x \<noteq> the (iv_post_txn ?i)) (bz_splits posted_shop)"
    by (simp add: posted_shop_def shop_posting_def)
  have "find (\<lambda>t. by_guid t = the (iv_post_txn ?i)) (bz_txs posted_shop) = Some (hd (bz_txs posted_shop))"
    "filter (\<lambda>x. bx_tx x = the (iv_post_txn ?i)) (bz_splits posted_shop) = bz_splits posted_shop"
    by (simp_all add: posted_shop_def shop_posting_def)
  then show "fst (assertReversiblePosting ?i (find (\<lambda>t. by_guid t = the (iv_post_txn ?i)) (bz_txs posted_shop))
      (filter (\<lambda>x. bx_tx x = the (iv_post_txn ?i)) (bz_splits posted_shop)) posted_shop) = Inr (hd (bz_txs posted_shop))"
    by (simp add: shop_reversible)
  show "fst ((if falsy_guid (iv_post_acc ?i) then yield None else book_of_account shop_env (the (iv_post_acc ?i))) posted_shop) = Inr (Some ''b'')"
    using shop_book [of posted_shop] by (simp add: posted_shop_def falsy_guid_def)
  show "fst (check_period shop_env (Some ''b'') [DateValue d] posted_shop) = Inr ()" for d by (simp add: shop_lock shop_tables)
  show "shallow (the (iv_post_txn ?i)) posted_shop" "shallow (the (iv_post_lot ?i)) posted_shop"
    by (simp_all add: shallow_def frames_def posted_shop_def)
qed

definition unposted_shop :: business where
  "unposted_shop = snd (unpostInvoice shop_env ''b'' ''i'' posted_shop)"


end
