(* ===== verification/Invoice_Payments.thy ===== *)
theory Invoice_Payments
  imports Invoice_Postings
begin

text \<open>
  When a payment balances (applyPayment of src/lib/business/invoice-engine.ts): with a currency of
  two decimals and amounts in whole cents the splits written sum to zero, by either way of choosing
  what to pay. Two concrete runs show what happens outside of that: parts of cents leave a
  payment out of balance, and a currency of three decimals cannot be paid to the last unit.
\<close>

section \<open>Splits of a payment\<close>

lemma payment_splits_units:
  assumes "0 < d" "d \<le> 2 ^ 38" "\<bar>n\<bar> \<le> 2 ^ 38" "list_all (\<lambda>k. \<bar>snd k\<bar> \<le> 2 ^ 38) ks" "kind_sign kind = of_int c"
  shows "map (split_units d \<circ> py_value) (payment_specs inp kind (money d n) docs (map (apsnd (money d)) ks)) =
    map (\<lambda>k. JFin (of_int k)) (c * n # map (\<lambda>k. - c * snd k) ks)"
proof -
  obtain s where s: "kind_sign kind = of_int s" "s = 1 \<or> s = -1" by (rule kind_sign_int)
  have c: "c = s" using s(1) assms(5) by simp
  have unit: "split_units d (js_mul (JFin (of_int t)) (money d k)) = JFin (of_int (t * k))" if "t = 1 \<or> t = -1" "\<bar>k\<bar> \<le> 2 ^ 38" for t k
    unfolding split_units_def by (rule signed_units [OF assms(1,2) that(2,1)])
  have parts: "map (split_units d \<circ> (\<lambda>k. js_mul (JFin (- of_int s)) (money d (snd k)))) ks = map (\<lambda>k. JFin (of_int (- s * snd k))) ks"
    using assms(4) unit [of "- s"] s(2) by (auto simp: list_all_iff)
  show ?thesis
    using unit [OF s(2) assms(3)] parts by (simp add: c payment_specs_def buildPaymentSplits_def s(1) comp_def Let_def)
qed

lemma payment_rows:
  "list_all2 (\<lambda>sp x. \<exists>g frac. x = payment_row tx sp frac g \<and> snd frac = d \<and> split_units d (py_value sp) = JFin (of_int (fst frac))) specs new
    \<Longrightarrow> list_all (\<lambda>x. bx_tx x = tx \<and> snd (bx_value x) = d) new \<and>
      map (\<lambda>x. JFin (of_int (fst (bx_value x)))) new = map (split_units d \<circ> py_value) specs"
  by (induction specs new rule: list_all2_induct) (auto simp: payment_row_def)

lemma rows_total:
  assumes "list_all (\<lambda>x. bx_tx x = tx \<and> snd (bx_value x) = d) new"
    and "map (\<lambda>x. JFin (of_int (fst (bx_value x)))) new = map (\<lambda>k. JFin (of_int k)) ns"
  shows "split_total new = of_int (sum_list ns) / of_int d"
proof -
  have "map (\<lambda>x. fst (bx_value x)) new = ns" using assms(2) by (induction new arbitrary: ns) (auto simp: Cons_eq_map_conv)
  then show ?thesis using split_total_units [of d new] assms(1) by (simp add: list_all_iff)
qed

lemma sum_list_scaled: "sum_list (map (\<lambda>k. c * f k) ks) = c * sum_list (map f ks)" for c :: int
  by (induction ks) (auto simp: algebra_simps)

lemma write_payment_total:
  assumes "write_payment env inp owner posted d (money d n) docs (map (apsnd (money d)) ks) s = (Inr r, s')"
    and "0 < d" "d \<le> 2 ^ 38" "\<bar>n\<bar> \<le> 2 ^ 38" "list_all (\<lambda>k. \<bar>snd k\<bar> \<le> 2 ^ 38) ks"
  shows "\<exists>new. bz_splits s' = bz_splits s @ new \<and> split_total new = kind_sign (ro_kind owner) * of_int (n - sum_list (map snd ks)) / of_int d
    \<and> list_all (\<lambda>x. bx_tx x = pq_tx r) new"
proof (rule write_payment_Inr [OF assms(1)])
  fix new
  assume new: "bz_splits s' = bz_splits s @ new"
    "list_all2 (\<lambda>sp x. \<exists>g frac. x = payment_row (pq_tx r) sp frac g \<and> snd frac = d \<and> split_units d (py_value sp) = JFin (of_int (fst frac)))
      (payment_specs inp (ro_kind owner) (money d n) docs (map (apsnd (money d)) ks)) new"
  obtain c where c: "kind_sign (ro_kind owner) = of_int c" by (rule kind_sign_int)
  have "split_total new = of_int (sum_list (c * n # map (\<lambda>k. - c * snd k) ks)) / of_int d"
    using payment_rows [OF new(2)] payment_splits_units [OF assms(2-5) c] by (intro rows_total) auto
  also have "sum_list (c * n # map (\<lambda>k. - c * snd k) ks) = c * (n - sum_list (map snd ks))"
    using sum_list_scaled [of "- c" snd ks] by (simp add: algebra_simps)
  finally show ?thesis using new(1) payment_rows [OF new(2)] c by (auto simp: list_all_iff)
qed

section \<open>The parts of a payment\<close>

text \<open>By order of posting: the parts are whole units that add up to the payment.\<close>

lemma fifo_units:
  assumes "0 < d" "d \<le> 2 ^ 38" "0 \<le> n" "n \<le> 2 ^ 38"
    and "\<forall>x \<in> set docs. \<exists>k. od_due x = money d k \<and> \<bar>k\<bar> \<le> 2 ^ 38"
    and "fifo_allocations currency d (money d n) docs s = (Inr al, s')"
  shows "\<exists>ks. al = map (apsnd (money d)) ks \<and> list_all (\<lambda>k. \<bar>snd k\<bar> \<le> 2 ^ 38) ks \<and> sum_list (map snd ks) = n"
proof -
  let ?is = "map (\<lambda>x. \<lparr>oi_guid = od_guid x, oi_posted = od_posted x, oi_due = od_due x\<rparr>) (filter (\<lambda>x. od_currency x = currency) docs)"
  have "\<forall>i \<in> set ?is. \<exists>k. oi_due i = money d k \<and> \<bar>k\<bar> \<le> 2 ^ 38" using assms(5) by auto
  from bchoice [OF this] obtain owed where owed: "\<forall>i \<in> set ?is. oi_due i = money d (owed i) \<and> \<bar>owed i\<bar> \<le> 2 ^ 38" by blast
  obtain full rest p left where f: "stable_sort compare_open (filter (\<lambda>i. 0 < owed i) ?is) = full @ rest"
    "allocatePaymentFifo ?is (money d n) (JFin (of_int d)) =
      (map (\<lambda>i. (oi_guid i, oi_due i)) full @ (if p = 0 then [] else [(oi_guid (hd rest), money d p)]), money d left)"
    "sum_list (map owed full) + p + left = n" "0 \<le> p" "0 \<le> left"
    using fifo_in_order [OF assms(1-4) owed] unfolding paid_in_order_def by blast
  have full: "set full \<subseteq> {i \<in> set ?is. 0 < owed i}"
  proof -
    have "set full \<subseteq> set (stable_sort compare_open (filter (\<lambda>i. 0 < owed i) ?is))" unfolding f(1) by simp
    then show ?thesis by auto
  qed
  have "0 \<le> sum_list (map owed full)" using full by (intro sum_list_nonneg) auto
  then have b: "p \<le> 2 ^ 38" "left \<le> 2 ^ 38" using f(3-5) assms(4) by linarith+
  have "\<not> js_less (half_unit (JFin (of_int d))) (money d left) \<and> al = map (\<lambda>i. (oi_guid i, oi_due i)) full @ (if p = 0 then [] else [(oi_guid (hd rest), money d p)])"
    using assms(6) unfolding fifo_allocations_def Let_def bind_op_Inr_iff op_Inr_iff f(2) fst_conv snd_conv by blast
  moreover have "map (\<lambda>i. (oi_guid i, oi_due i)) full = map (\<lambda>i. (oi_guid i, money d (owed i))) full"
    using full owed by (intro map_cong) auto
  moreover have "left = 0" if "\<not> js_less (half_unit (JFin (of_int d))) (money d left)"
    using half_unit_less(1) [OF assms(1,2), of left] f(5) b(2) that by simp
  ultimately have "left = 0" "al = map (apsnd (money d)) (map (\<lambda>i. (oi_guid i, owed i)) full @ (if p = 0 then [] else [(oi_guid (hd rest), p)]))"
    by simp_all
  moreover have "list_all (\<lambda>k. \<bar>snd k\<bar> \<le> 2 ^ 38) (map (\<lambda>i. (oi_guid i, owed i)) full @ (if p = 0 then [] else [(oi_guid (hd rest), p)]))"
    using full owed f(4) b(1) by (auto simp: list_all_iff)
  moreover have "sum_list (map snd (map (\<lambda>i. (oi_guid i, owed i)) full @ (if p = 0 then [] else [(oi_guid (hd rest), p)]))) = n"
    using f(3) \<open>left = 0\<close> by (simp add: comp_def)
  ultimately show ?thesis by blast
qed

text \<open>As the caller says: whole units are kept as they are, and their sum is compared exactly.\<close>

lemma half_unit_abs:
  assumes "0 < d" "d \<le> 2 ^ 38" "near d (1 / 8) x k"
  shows "js_less (half_unit (JFin (of_int d))) (js_abs x) \<longleftrightarrow> k \<noteq> 0"
proof -
  have d: "(0::rat) < of_int d" using assms(1) by simp
  have "\<bar>(1 / 2 / of_int d) * of_int d :: rat\<bar> \<le> 2 ^ 41" using d by simp
  from fl_near [OF assms(1,2) this] obtain h where h: "half_unit (JFin (of_int d)) = JFin h" "\<bar>h * of_int d - 1 / 2\<bar> \<le> 1 / 2 ^ 10"
    using d by (auto simp: half_unit_def)
  obtain q where q: "x = JFin q" "\<bar>q * of_int d - of_int k\<bar> \<le> 1 / 8" using assms(3) by (auto simp: near_def)
  have e: "\<bar>h * of_int d - 1 / 2\<bar> \<le> 1 / 1024" using h(2) by simp
  have "h < \<bar>q\<bar> \<longleftrightarrow> h * of_int d < \<bar>q * of_int d\<bar>" using d by (simp add: abs_mult mult_less_cancel_right)
  also have "\<dots> \<longleftrightarrow> k \<noteq> 0"
  proof
    assume "h * of_int d < \<bar>q * of_int d\<bar>"
    then show "k \<noteq> 0" using e q(2) by (cases "k = 0") auto
  next
    assume "k \<noteq> 0"
    then have "1 \<le> \<bar>k\<bar>" by simp
    then have "(1::rat) \<le> \<bar>of_int k\<bar>" by (metis of_int_1_le_iff of_int_abs)
    then show "h * of_int d < \<bar>q * of_int d\<bar>" using e q(2) by linarith
  qed
  finally show ?thesis by (simp add: h(1) q(1))
qed

lemma member_abs_le: "k \<in> set ks \<Longrightarrow> \<bar>snd k\<bar> \<le> sum_list (map (\<lambda>k. \<bar>snd k\<bar>) ks)" for ks :: "('a \<times> int) list"
proof (induction ks)
  case (Cons x ks)
  have "0 \<le> sum_list (map (\<lambda>k. \<bar>snd k\<bar>) ks)" by (rule sum_list_nonneg) auto
  with Cons show ?case by fastforce
qed simp

lemma explicit_units:
  assumes "0 < d" "d \<le> 2 ^ 38" "\<bar>n\<bar> \<le> 2 ^ 38" "length ks \<le> 1024" "sum_list (map (\<lambda>k. \<bar>snd k\<bar>) ks) \<le> 2 ^ 38"
    and "explicit_allocations currency d (money d n) docs (map (apsnd (money d)) ks) s = (Inr al, s')"
  shows "al = map (apsnd (money d)) ks \<and> list_all (\<lambda>k. \<bar>snd k\<bar> \<le> 2 ^ 38) ks \<and> sum_list (map snd ks) = n"
proof -
  have abs: "sum_list (map abs (map snd ks)) \<le> 2 ^ 38" using assms(5) by (simp add: comp_def)
  then have sum: "\<bar>sum_list (map snd ks)\<bar> \<le> 2 ^ 38" by (rule abs_sum_le)
  have each: "\<bar>snd k\<bar> \<le> 2 ^ 38" if "k \<in> set ks" for k
    using assms(5) member_abs_le [OF that] by simp
  have "near d (1 / 4) (foldl js_add (JFin 0) (map (money d) (map snd ks))) (sum_list (map snd ks))"
    using assms(4) abs by (intro near_sum [OF assms(1,2)]) simp_all
  then have total: "roundCurrency (foldl js_add (JFin 0) (map snd (map (apsnd (money d)) ks))) (JFin (of_int d)) = money d (sum_list (map snd ks))"
    using sum by (simp add: comp_def round_near [OF assms(1,2)])
  have "near d (1 / 8) (js_sub (money d (sum_list (map snd ks))) (money d n)) (sum_list (map snd ks) - n)"
    using sum assms(3) by (intro near_two [OF assms(1,2)]) simp_all
  moreover have "\<not> js_less (half_unit (JFin (of_int d))) (js_abs (js_sub (money d (sum_list (map snd ks))) (money d n)))"
    and al: "al = map (\<lambda>a. (fst a, roundCurrency (snd a) (JFin (of_int d)))) (map (apsnd (money d)) ks)"
    using assms(6) unfolding explicit_allocations_def Let_def bind_op_Inr_iff op_Inr_iff total by blast+
  ultimately have "sum_list (map snd ks) = n" using half_unit_abs [OF assms(1,2)] by auto
  moreover have "al = map (apsnd (money d)) ks" unfolding al using each by (auto simp: round_money [OF assms(1,2)])
  ultimately show ?thesis using each by (auto simp: list_all_iff)
qed

section \<open>What is due on a lot\<close>

definition lot_fits :: "book_split list \<Rightarrow> string \<Rightarrow> bool" where
  "lot_fits ss lot \<longleftrightarrow> (let rs = filter (\<lambda>x. bx_lot x = Some lot) ss
     in list_all (\<lambda>x. snd (bx_value x) = 100) rs \<and> length rs \<le> 1024 \<and> sum_list (map (\<lambda>x. \<bar>fst (bx_value x)\<bar>) rs) \<le> 2 ^ 38)"

lemma lot_values_money:
  assumes "lot_fits ss lot"
  shows "lot_values ss lot = map (money 100) (map (\<lambda>x. fst (bx_value x)) (filter (\<lambda>x. bx_lot x = Some lot) ss))"
  using assms by (auto simp: lot_fits_def Let_def lot_values_def list_all_iff money_def dec_number_exact [of 100 2])

lemma due_units:
  assumes "lot_fits ss lot"
  shows "\<exists>k. amountDueFromLotSplits kind (lot_values ss lot) (JFin 100) = money 100 k \<and> \<bar>k\<bar> \<le> 2 ^ 38"
proof -
  define ks where "ks = map (\<lambda>x. fst (bx_value x)) (filter (\<lambda>x. bx_lot x = Some lot) ss)"
  have b: "length ks \<le> 1024" "sum_list (map abs ks) \<le> 2 ^ 38" using assms by (simp_all add: lot_fits_def ks_def Let_def comp_def)
  then have sum: "\<bar>sum_list ks\<bar> \<le> 2 ^ 38" using abs_sum_le by blast
  have n: "near 100 (1 / 4) (foldl js_add (JFin 0) (map (money 100) ks)) (sum_list ks)" using b by (intro near_sum) simp_all
  have "roundCurrency (foldl js_add (JFin 0) (map (money 100) ks)) (JFin (of_int 100)) = money 100 (sum_list ks)"
    "roundCurrency (js_neg (foldl js_add (JFin 0) (map (money 100) ks))) (JFin (of_int 100)) = money 100 (- sum_list ks)"
    using n near_neg [OF n] sum by (intro round_near; simp)+
  then show ?thesis using sum unfolding lot_values_money [OF assms] ks_def [symmetric]
    by (cases kind) (auto simp: amountDueFromLotSplits_def Let_def)
qed

lemma allocation_state:
  "explicit_allocations c d a docs as s = (x, s') \<Longrightarrow> s' = s" "fifo_allocations c d a docs s = (x, s') \<Longrightarrow> s' = s"
proof -
  have "keeps (\<lambda>s. s) (explicit_allocations c d a docs as)" "keeps (\<lambda>s. s) (fifo_allocations c d a docs)"
    by (auto simp: explicit_allocations_def check_allocation_def fifo_allocations_def Let_def intro!: frame)
  then show "explicit_allocations c d a docs as s = (x, s') \<Longrightarrow> s' = s" "fifo_allocations c d a docs s = (x, s') \<Longrightarrow> s' = s"
    by (auto dest: keepsD)
qed


section \<open>Two concrete runs\<close>

text \<open>Two posted invoices over ten dollars each.\<close>

definition billed_env :: "int \<Rightarrow> engine_env" where
  "billed_env fraction = shop_env\<lparr>ev_fractions := \<lambda>_. Some fraction\<rparr>"

definition billed_invoice :: "string \<Rightarrow> string \<Rightarrow> invoice_row" where
  "billed_invoice g lot = shop_invoice\<lparr>iv_guid := g, iv_posted := Some 0, iv_post_txn := Some (''t'' @ g), iv_post_acc := Some ''ar'', iv_post_lot := Some lot\<rparr>"

definition billed_split :: "string \<Rightarrow> string \<Rightarrow> int \<Rightarrow> string option \<Rightarrow> book_split" where
  "billed_split t a n lot = \<lparr>bx_guid = t @ a, bx_tx = t, bx_account = a, bx_memo = '''', bx_action = ''Invoice'', bx_state = ''n'',
     bx_value = (n, 100), bx_quantity = (n, 100), bx_lot = lot\<rparr>"

definition billed :: business where
  "billed = shop\<lparr>bz_invoices := [billed_invoice ''i'' ''l'', billed_invoice ''j'' ''m''],
     bz_splits := [billed_split ''ti'' ''ar'' 1000 (Some ''l''), billed_split ''ti'' ''inc'' (-1000) None,
       billed_split ''tj'' ''ar'' 1000 (Some ''m''), billed_split ''tj'' ''inc'' (-1000) None]\<rparr>"

definition billed_payment :: "js_number \<Rightarrow> (string \<times> js_number) list option \<Rightarrow> payment_input" where
  "billed_payment amount as = \<lparr>pm_owner_type = ''customer'', pm_owner = ''c'', pm_transfer = ''bank'', pm_amount = amount, pm_date = ''2026-01-15'',
     pm_num = None, pm_memo = None, pm_tx = Some ''p'', pm_allocations = as\<rparr>"

definition billed_owner :: resolved_owner where
  "billed_owner = \<lparr>ro_name = ''Carol'', ro_currency = ''JPY'', ro_kind = InvoiceKind\<rparr>"

definition billed_docs :: "open_document list" where
  "billed_docs = [\<lparr>od_guid = ''i'', od_id = ''1'', od_posted = Some 0, od_lot = ''l'', od_acc = ''ar'', od_currency = ''JPY'', od_due = JFin 10\<rparr>,
     \<lparr>od_guid = ''j'', od_id = ''1'', od_posted = Some 0, od_lot = ''m'', od_acc = ''ar'', od_currency = ''JPY'', od_due = JFin 10\<rparr>]"

lemma billed_dues: "loadOpenDocuments InvoiceKind (postedOwnerDocs (billed_env 100) ''b'' 2 ''c'' (bz_invoices billed)) (bz_splits billed) = billed_docs"
  by (simp add: loadOpenDocuments_def postedOwnerDocs_def Let_def billed_env_def shop_env_def billed_def billed_invoice_def shop_invoice_def
      OWNER_TYPE_CUSTOMER_def OWNER_TYPE_JOB_def falsy_guid_def lot_values_def billed_split_def billed_docs_def amountDueFromLotSplits_def
      dec_number_exact [of 100 2] fl_small roundCurrency_def rat_floor)

lemma billed_steps:
  "parseIsoDateNoon (billed_env f) ''2026-01-15'' s = (Inr 0, s)"
  "ownerTypeNameToInt ''customer'' s = (Inr 2, s)"
  "assertOwnerInBook (billed_env f) ''b'' 2 ''c'' s = (Inr (), s)"
  "resolveOwner (billed_env f) 2 ''c'' s = (Inr billed_owner, s)"
  "bookRootGuidFor (billed_env f) ''b'' s = (Inr ''r'', s)"
  "getCurrencyFraction (billed_env f) c s = (Inr (if f = 0 then 100 else f), s)"
  by (simp_all add: billed_env_def shop_env_def parseIsoDateNoon_def iso_prefix_def is_digit_def numeral_eq_Suc
      ownerTypeNameToInt_def OWNER_TYPE_CUSTOMER_def OWNER_TYPE_JOB_def assertOwnerInBook_def ownerEntityType_def bind_op_def yield_def require_def
      isEntityOwnedByBook_def resolveOwner_def resolveEndOwner_def found_def billed_owner_def bookRootGuidFor_def getCurrencyFraction_def)

lemma billed_checks:
  assumes "bz_accounts s = bz_accounts shop" "bz_locks s = bz_locks shop"
  shows "assertAccountsInBook ''r'' [''bank''] l s = (Inr (), s)" "book_of_account (billed_env f) ''bank'' s = (Inr (Some ''b''), s)"
    "check_period (billed_env f) b ds s = (Inr (), s)"
    "find (\<lambda>a. ba_guid a = ''bank'') (bz_accounts s) = Some (shop_account ''bank'' ''BANK'' (Some ''r''))"
  using assms by (cases b; simp add: billed_env_def shop_env_def shop_def shop_account_def bind_op_def yield_def require_def found_def
      assertAccountsInBook_def read_op_def book_of_account_def getBookGuidForAccount_def parent_map_def check_period_def assertNotLocked_def
      getCachedLockDate_def findLockedDate_def)+

text \<open>What is left of a payment by that customer: its allocation and what it writes.\<close>

lemma billed_run:
  assumes "js_less (JFin 0) amount" "bz_accounts s = bz_accounts shop" "bz_locks s = bz_locks shop" "bz_txs s = []"
  shows "applyPayment (billed_env f) ''b'' (billed_payment amount as) s =
    in_transaction (pay_documents (billed_env f) ''b'' (billed_payment amount as) 2 billed_owner 0) s"
proof -
  have p: "pm_amount (billed_payment amount as) = amount" "pm_date (billed_payment amount as) = ''2026-01-15''"
    "pm_transfer (billed_payment amount as) = ''bank''" "pm_owner_type (billed_payment amount as) = ''customer''"
    "pm_owner (billed_payment amount as) = ''c''" "already_paid (billed_payment amount as) s = None"
    using assms(4) by (simp_all add: billed_payment_def already_paid_def)
  have "ba_placeholder (shop_account ''bank'' ''BANK'' (Some ''r'')) \<noteq> 1" by (simp add: shop_account_def)
  then show ?thesis
    using assms(1) by (simp add: applyPayment_def p bind_op_def billed_steps billed_checks [OF assms(2,3)] in_transaction_def
      require_def read_op_def found_def)
qed

lemma billed_pay:
  assumes "(case as of Some (a # as) \<Rightarrow> explicit_allocations ''JPY'' 100 (roundCurrency amount (JFin 100)) billed_docs (a # as)
        | _ \<Rightarrow> fifo_allocations ''JPY'' 100 (roundCurrency amount (JFin 100)) billed_docs) billed = (Inr al, billed)"
    and "write_payment (billed_env 100) (billed_payment amount as) billed_owner 0 100 (roundCurrency amount (JFin 100)) billed_docs al billed = (Inr r, s')"
    and "js_less (JFin 0) amount"
  shows "applyPayment (billed_env 100) ''b'' (billed_payment amount as) billed = (Inr r, s')"
proof -
  have f: "pm_amount (billed_payment amount as) = amount" "pm_owner (billed_payment amount as) = ''c''" "pm_allocations (billed_payment amount as) = as"
    "ro_currency billed_owner = ''JPY''" "ro_kind billed_owner = InvoiceKind"
    by (simp_all add: billed_payment_def billed_owner_def)
  have "pay_documents (billed_env 100) ''b'' (billed_payment amount as) 2 billed_owner 0 billed = (Inr r, s')"
    unfolding pay_documents_def Let_def f bind_op_Inr_iff op_Inr_iff billed_steps
    using assms(1,2) by (auto simp: billed_dues split: option.splits list.splits)
  moreover have "bz_accounts billed = bz_accounts shop" "bz_locks billed = bz_locks shop" "bz_txs billed = []" by (simp_all add: billed_def shop_def)
  ultimately show ?thesis using billed_run [OF assms(3)] by (simp add: in_transaction_Inr)
qed

lemma money_hundred: "money 100 600 = JFin 6" "money 100 1 = fl (1 / 100)"
  by (simp_all add: money_def fl_small)

lemma fl_half: "fl (1 / 2) = JFin (1 / 2)"
  by (subst fl_eval [of "-1" _ "2 ^ 52"]) (simp_all add: pow2_def)

lemma half_cent: "fl (1 / 200) = JFin (5764607523034235 / 1152921504606846976)"
  by (subst fl_eval [of "-8" _ 5764607523034235]) (simp_all add: pow2_def)

lemma half_unit_cent: "half_unit (JFin 100) = JFin (5764607523034235 / 1152921504606846976)"
  by (simp add: half_unit_def half_cent)

lemma fromDecimal_money:
  assumes "0 < d" "d \<le> 2 ^ 38" "\<bar>k\<bar> \<le> 2 ^ 38" "c = 1 \<or> c = -1"
  shows "fromDecimal (js_mul (JFin (of_int c)) (money d k)) d s = (Inr (c * k, d), s)"
  using signed_units [OF assms] by (simp add: fromDecimal_def yield_def flip: of_int_mult)

definition signed_money :: "int \<Rightarrow> js_number \<Rightarrow> bool" where
  "signed_money d v \<longleftrightarrow> (\<exists>c k. v = js_mul (JFin (of_int c)) (money d k) \<and> \<bar>k\<bar> \<le> 2 ^ 38 \<and> (c = 1 \<or> c = -1))"

lemma signed_moneyI: "\<bar>k\<bar> \<le> 2 ^ 38 \<Longrightarrow> signed_money d (js_mul (JFin (kind_sign kind)) (money d k))"
  "\<bar>k\<bar> \<le> 2 ^ 38 \<Longrightarrow> signed_money d (js_mul (JFin (- kind_sign kind)) (money d k))"
  using kind_sign_int [of kind] unfolding signed_money_def
  by (metis of_int_minus minus_minus, metis of_int_minus minus_minus)

lemma write_specs_runs:
  assumes "0 < d" "d \<le> 2 ^ 38" "list_all (\<lambda>sp. signed_money d (py_value sp)) specs"
  shows "\<exists>s'. for_each (write_payment_split env tx d) specs s = (Inr (), s')"
  using assms(3)
proof (induction specs arbitrary: s)
  case (Cons sp specs)
  then obtain c k where "py_value sp = js_mul (JFin (of_int c)) (money d k)" "\<bar>k\<bar> \<le> 2 ^ 38" "c = 1 \<or> c = -1" by (auto simp: signed_money_def)
  with fromDecimal_money [OF assms(1,2)] Cons show ?case
    by (auto simp: bind_op_def write_payment_split_def add_book_split_def generateGuid_def write_op_def)
qed (simp add: yield_def)

lemma close_runs: "\<exists>s'. for_each (\<lambda>a. set_lot_closed (f a)) as s = (Inr (), s')"
  by (induction as arbitrary: s) (auto simp: yield_def bind_op_def set_lot_closed_def write_op_def)

lemma succeeds_any: "succeeds m s \<Longrightarrow> (\<And>a s'. succeeds (g a) s') \<Longrightarrow> succeeds (bind_op m g) s"
  by (auto simp: succeeds_def bind_op_def)

lemma write_payment_runs:
  assumes "0 < d" "d \<le> 2 ^ 38" "\<bar>n\<bar> \<le> 2 ^ 38" "list_all (\<lambda>k. \<bar>snd k\<bar> \<le> 2 ^ 38) ks"
  shows "\<exists>r s'. write_payment env inp owner posted d (money d n) docs (map (apsnd (money d)) ks) s = (Inr r, s')"
proof -
  have "list_all (\<lambda>sp. signed_money d (py_value sp)) (payment_specs inp (ro_kind owner) (money d n) docs (map (apsnd (money d)) ks))"
    using assms(3,4) by (auto simp: payment_specs_def buildPaymentSplits_def list_all_iff Let_def intro!: signed_moneyI)
  from write_specs_runs [OF assms(1,2) this]
  have rows: "succeeds (for_each (write_payment_split env tx d) (buildPaymentSplits (ro_kind owner) (money d n) (pm_transfer inp)
      (map (\<lambda>a. let doc = the (find_open docs (fst a)) in \<lparr>la_account = od_acc doc, la_lot = od_lot doc, la_amount = snd a\<rparr>)
        (map (apsnd (money d)) ks)) (or_empty (pm_memo inp)))) u" for tx u
    by (simp add: succeeds_def payment_specs_def)
  have "succeeds (write_payment env inp owner posted d (money d n) docs (map (apsnd (money d)) ks)) s"
    unfolding write_payment_def
    by (intro succeeds_any rows)
      (auto simp: succeeds_def close_runs yield_def generateGuid_def add_tx_def write_op_def add_slot_def bind_op_def split: option.split)
  then show ?thesis by (simp add: succeeds_def)
qed

section \<open>A payment of six dollars\<close>

lemma six_dollars: "fifo_allocations ''JPY'' 100 (JFin 6) billed_docs billed = (Inr (map (apsnd (money 100)) [(''i'', 600)]), billed)"
  by (simp add: fifo_allocations_def allocatePaymentFifo_def billed_docs_def half_unit_cent stable_sort_def compare_open_def
      roundCurrency_def fl_small rat_floor js_ge_def js_eq_def js_min_def js_sub_def money_hundred bind_op_def require_def yield_def Let_def)

lemma six_dollars_paid: "\<exists>r s'. applyPayment (billed_env 100) ''b'' (billed_payment (JFin 6) None) billed = (Inr r, s')"
proof -
  have six: "roundCurrency (JFin 6) (JFin 100) = JFin 6" by (simp add: roundCurrency_def fl_small rat_floor)
  obtain r s' where "write_payment (billed_env 100) (billed_payment (JFin 6) None) billed_owner 0 100 (money 100 600) billed_docs
      (map (apsnd (money 100)) [(''i'', 600)]) billed = (Inr r, s')"
    using write_payment_runs [of 100 600 "[(''i'', 600)]"] by fastforce
  then have "applyPayment (billed_env 100) ''b'' (billed_payment (JFin 6) None) billed = (Inr r, s')"
    by (intro billed_pay) (simp_all add: six six_dollars [simplified] money_hundred)
  then show ?thesis by blast
qed

definition paid_result :: payment_result where
  "paid_result = (case fst (applyPayment (billed_env 100) ''b'' (billed_payment (JFin 6) None) billed) of Inr r \<Rightarrow> r | Inl _ \<Rightarrow> \<lparr>pq_tx = '''', pq_allocations = [], pq_paid = []\<rparr>)"

definition paid_business :: business where
  "paid_business = snd (applyPayment (billed_env 100) ''b'' (billed_payment (JFin 6) None) billed)"

lemma six_dollars_run: "applyPayment (billed_env 100) ''b'' (billed_payment (JFin 6) None) billed = (Inr paid_result, paid_business)"
  using six_dollars_paid by (auto simp: paid_result_def paid_business_def)



section \<open>What a payment may not be\<close>

abbreviation half_a_cent :: js_number where "half_a_cent \<equiv> JFin (5764607523034235 / 1152921504606846976)"

lemma half_cent_arithmetic:
  "fl (5764607523034235 / 1152921504606846976) = half_a_cent"
  "fl (11534979653591503995 / 1152921504606846976) = JFin (5632314283980227 / 562949953421312)"
  "fl (144115188075855875 / 288230376151711744) = JFin (1 / 2)"
  "fl (1 / 100) = JFin (5764607523034235 / 576460752303423488)"
  "fl (5764607523034235 / 576460752303423488) = JFin (5764607523034235 / 576460752303423488)"
  "fl (144115188075855875 / 144115188075855872) = JFin 1"
  subgoal by (subst fl_eval [of "-8" _ 5764607523034235]) (simp_all add: pow2_def)
  subgoal by (subst fl_eval [of 3 _ 5632314283980227]) (simp_all add: pow2_def)
  subgoal by (subst fl_eval [of "-1" _ "2 ^ 52"]) (simp_all add: pow2_def)
  subgoal by (subst fl_eval [of "-7" _ 5764607523034235]) (simp_all add: pow2_def)
  subgoal by (subst fl_eval [of "-7" _ 5764607523034235]) (simp_all add: pow2_def)
  subgoal by (subst fl_eval [of 0 _ "2 ^ 52"]) (simp_all add: pow2_def)
  done

lemma half_cents_allocated:
  "explicit_allocations ''JPY'' 100 (money 100 1) billed_docs [(''i'', half_a_cent), (''j'', half_a_cent)] billed =
    (Inr (map (apsnd (money 100)) [(''i'', 1), (''j'', 1)]), billed)"
  by (simp add: explicit_allocations_def check_allocation_def find_open_def billed_docs_def half_unit_cent bind_op_def found_def require_def yield_def
     Let_def roundCurrency_def js_sub_def money_hundred half_cent_arithmetic rat_floor fl_small)

text \<open>
  C39. Parts of a cent put the books out of balance: a payment of one cent that the caller divides into
  two halves of a cent is accepted, each half is rounded up to a cent, and the splits written
  sum to one cent too little.
\<close>
theorem unbalanced_payment:
  "\<exists>r s' new. applyPayment (billed_env 100) ''b'' (billed_payment (money 100 1) (Some [(''i'', half_a_cent), (''j'', half_a_cent)])) billed = (Inr r, s') \<and>
     bz_splits s' = bz_splits billed @ new \<and> list_all (\<lambda>x. bx_tx x = pq_tx r) new \<and> split_total new = - 1 / 100"
proof -
  let ?pay = "billed_payment (money 100 1) (Some [(''i'', half_a_cent), (''j'', half_a_cent)])" and ?ks = "[(''i'', 1), (''j'', 1)] :: (string \<times> int) list"
  obtain r s' where wr: "write_payment (billed_env 100) ?pay billed_owner 0 100 (money 100 1) billed_docs (map (apsnd (money 100)) ?ks) billed = (Inr r, s')"
    using write_payment_runs [of 100 1 ?ks] by fastforce
  have "roundCurrency (money 100 1) (JFin 100) = money 100 1" using round_money [of 100 1] by simp
  then have "applyPayment (billed_env 100) ''b'' ?pay billed = (Inr r, s')"
    using wr half_cents_allocated by (intro billed_pay) (simp_all add: money_hundred half_cent_arithmetic)
  moreover have "kind_sign (ro_kind billed_owner) = 1" by (simp add: billed_owner_def kind_sign_def)
  ultimately show ?thesis using write_payment_total [OF wr] by fastforce
qed

text \<open>A document over 1.231 in a currency of three decimals.\<close>

definition dinar :: business where
  "dinar = shop\<lparr>bz_invoices := [billed_invoice ''i'' ''l''],
     bz_splits := [billed_split ''ti'' ''ar'' 0 (Some ''l'')\<lparr>bx_value := (1231, 1000), bx_quantity := (1231, 1000)\<rparr>,
       billed_split ''ti'' ''inc'' 0 None\<lparr>bx_value := (-1231, 1000), bx_quantity := (-1231, 1000)\<rparr>]\<rparr>"

definition dinar_doc :: open_document where
  "dinar_doc = \<lparr>od_guid = ''i'', od_id = ''1'', od_posted = Some 0, od_lot = ''l'', od_acc = ''ar'', od_currency = ''JPY'', od_due = money 1000 1230\<rparr>"

lemma dinar_arithmetic:
  "fl (1231 / 1000) = JFin (5543931141293081 / 4503599627370496)"
  "fl (5543931141293081 / 4503599627370496) = JFin (5543931141293081 / 4503599627370496)"
  "fl (138598278532327025 / 1125899906842624) = JFin (8662392408270439 / 70368744177664)"
  subgoal by (subst fl_eval [of 0 _ 5543931141293081]) (simp_all add: pow2_def)
  subgoal by (subst fl_eval [of 0 _ 5543931141293081]) (simp_all add: pow2_def)
  subgoal by (subst fl_eval [of 6 _ 8662392408270439]) (simp_all add: pow2_def)
  done

lemma dinar_due: "loadOpenDocuments InvoiceKind (postedOwnerDocs (billed_env 1000) ''b'' 2 ''c'' (bz_invoices dinar)) (bz_splits dinar) = [dinar_doc]"
  by (simp add: loadOpenDocuments_def postedOwnerDocs_def Let_def billed_env_def shop_env_def dinar_def billed_invoice_def shop_invoice_def
      OWNER_TYPE_CUSTOMER_def OWNER_TYPE_JOB_def falsy_guid_def lot_values_def billed_split_def dinar_doc_def amountDueFromLotSplits_def
      dec_number_exact [of 1000 3] fl_small roundCurrency_def rat_floor dinar_arithmetic money_def)

lemma dinar_refused: "fst (fifo_allocations ''JPY'' 1000 (money 1000 1231) [dinar_doc] s) = Inl (InvoiceValidation ''Payment exceeds the total amount due'')"
proof -
  let ?is = "[\<lparr>oi_guid = ''i'', oi_posted = Some 0, oi_due = money 1000 1230\<rparr>]"
  have "paid_in_order 1000 (\<lambda>_. 1230) (stable_sort compare_open (filter (\<lambda>i. 0 < (1230::int)) ?is)) 1231
      (allocatePaymentFifo ?is (money 1000 1231) (JFin (of_int 1000)))"
    by (rule fifo_in_order) simp_all
  then have "paid_in_order 1000 (\<lambda>_. 1230) ?is 1231 (allocatePaymentFifo ?is (money 1000 1231) (JFin 1000))" by (simp add: stable_sort_def)
  then have "snd (allocatePaymentFifo ?is (money 1000 1231) (JFin 1000)) = money 1000 1"
    by (auto simp: paid_in_order_def Cons_eq_append_conv)
  moreover have "js_less (half_unit (JFin 1000)) (money 1000 1)" using half_unit_less(1) [of 1000 1] by simp
  ultimately show ?thesis by (simp add: fifo_allocations_def dinar_doc_def bind_op_def require_def Let_def)
qed

text \<open>
  A document in a currency of three decimals cannot be paid to the last unit: what is due is
  rounded to hundredths whatever the currency, so a payment of exactly the 1.231 the lot holds is
  refused as more than is due.
\<close>
theorem third_decimal_unpayable:
  "split_total (filter (\<lambda>x. bx_lot x = Some ''l'') (bz_splits dinar)) = 1231 / 1000 \<and>
   fst (applyPayment (billed_env 1000) ''b'' (billed_payment (money 1000 1231) None) dinar) =
     Inl (InvoiceValidation ''Payment exceeds the total amount due'')"
proof
  show "split_total (filter (\<lambda>x. bx_lot x = Some ''l'') (bz_splits dinar)) = 1231 / 1000" by (simp add: dinar_def billed_split_def)
  let ?pay = "billed_payment (money 1000 1231) None"
  have f: "pm_amount ?pay = money 1000 1231" "pm_owner ?pay = ''c''" "pm_allocations ?pay = None" "ro_currency billed_owner = ''JPY''"
    "ro_kind billed_owner = InvoiceKind"
    by (simp_all add: billed_payment_def billed_owner_def)
  have "roundCurrency (money 1000 1231) (JFin 1000) = money 1000 1231" using round_money [of 1000 1231] by simp
  then have "fst (pay_documents (billed_env 1000) ''b'' ?pay 2 billed_owner 0 dinar) = Inl (InvoiceValidation ''Payment exceeds the total amount due'')"
    using dinar_refused [of dinar]
    by (cases "fifo_allocations ''JPY'' 1000 (money 1000 1231) [dinar_doc] dinar")
      (simp add: pay_documents_def bind_op_def billed_steps read_op_def f dinar_due Let_def)
  then have "fst (in_transaction (pay_documents (billed_env 1000) ''b'' ?pay 2 billed_owner 0) dinar) = Inl (InvoiceValidation ''Payment exceeds the total amount due'')"
    by (auto simp: in_transaction_def split: prod.split)
  moreover have "js_less (JFin 0) (money 1000 1231)" using money_less [of 1000 0 1231] by simp
  moreover have "bz_accounts dinar = bz_accounts shop" "bz_locks dinar = bz_locks shop" "bz_txs dinar = []" by (simp_all add: dinar_def shop_def)
  ultimately show "fst (applyPayment (billed_env 1000) ''b'' ?pay dinar) = Inl (InvoiceValidation ''Payment exceeds the total amount due'')"
    by (simp add: billed_run)
qed


end
