(* ===== verification/Statement_Matching.thy ===== *)
theory Statement_Matching
  imports Js_Number "HOL-Library.List_Lexorder" "HOL-Library.Char_ord"
begin

text \<open>
  Matching the lines of a bank statement with ledger splits (src/lib/statement-reconcile.ts): the
  greedy one-to-one matcher, the tie-out and the conversions between amounts and split values.
  Dates are valid \<open>Date\<close> values in milliseconds; amounts are doubles.
\<close>

section \<open>The matcher\<close>

text \<open>The literal 0.005 of src/lib/tolerances.ts.\<close>

definition MONEY_DISPLAY_EPSILON :: js_number where
  "MONEY_DISPLAY_EPSILON = fl (5 / 1000)"

definition DEFAULT_MATCH_WINDOW_DAYS :: js_number where
  "DEFAULT_MATCH_WINDOW_DAYS = JFin 4"

record statement_line =
  ln_id :: int
  ln_date :: int
  ln_amount :: js_number

record ledger_candidate =
  ca_guid :: string
  ca_date :: int
  ca_amount :: js_number

record match_result =
  mr_matched :: "(int \<times> string) list"
  mr_missing :: "int list"
  mr_ledger_only :: "string list"

definition dayDistance :: "int \<Rightarrow> int \<Rightarrow> js_number" where
  "dayDistance a b = js_div (js_abs (fl (of_int (a - b)))) (JFin 86400000)"

definition compare_lines :: "statement_line \<Rightarrow> statement_line \<Rightarrow> int" where
  "compare_lines a b = (let dt = ln_date a - ln_date b in if dt \<noteq> 0 then dt else ln_id a - ln_id b)"

text \<open>A split that is not skipped for a line: its amount, then its date.\<close>

definition same_amount :: "statement_line \<Rightarrow> ledger_candidate \<Rightarrow> bool" where
  "same_amount line split \<longleftrightarrow> \<not> js_ge (js_abs (js_sub (ca_amount split) (ln_amount line))) MONEY_DISPLAY_EPSILON"

definition in_window :: "js_number \<Rightarrow> statement_line \<Rightarrow> ledger_candidate \<Rightarrow> bool" where
  "in_window windowDays line split \<longleftrightarrow> \<not> js_less windowDays (dayDistance (ln_date line) (ca_date split))"

definition scan_split ::
    "js_number \<Rightarrow> string list \<Rightarrow> statement_line \<Rightarrow> (ledger_candidate \<times> js_number) option \<Rightarrow> ledger_candidate
      \<Rightarrow> (ledger_candidate \<times> js_number) option" where
  "scan_split windowDays usedSplits line best split =
     (if ca_guid split \<in> set usedSplits then best
      else if \<not> same_amount line split then best
      else if \<not> in_window windowDays line split then best
      else let dist = dayDistance (ln_date line) (ca_date split)
      in case best of None \<Rightarrow> Some (split, dist)
       | Some (b, bdist) \<Rightarrow>
           if js_less dist bdist then Some (split, dist)
           else if js_eq dist bdist
             then let dt = ca_date split - ca_date b
               in if dt < 0 \<or> (dt = 0 \<and> ca_guid split < ca_guid b) then Some (split, dist) else best
           else best)"

definition best_split :: "js_number \<Rightarrow> ledger_candidate list \<Rightarrow> string list \<Rightarrow> statement_line \<Rightarrow> (ledger_candidate \<times> js_number) option" where
  "best_split windowDays ledgerSplits usedSplits line = foldl (scan_split windowDays usedSplits line) None ledgerSplits"

text \<open>The state of the loop: the pairs, the used splits and the matched lines.\<close>

definition match_line ::
    "js_number \<Rightarrow> ledger_candidate list \<Rightarrow> (int \<times> string) list \<times> string list \<times> int list \<Rightarrow> statement_line
      \<Rightarrow> (int \<times> string) list \<times> string list \<times> int list" where
  "match_line windowDays ledgerSplits st line = (case st of (matched, usedSplits, matchedLineIds) \<Rightarrow>
     case best_split windowDays ledgerSplits usedSplits line of
       None \<Rightarrow> (matched, usedSplits, matchedLineIds)
     | Some (split, _) \<Rightarrow> (matched @ [(ln_id line, ca_guid split)], ca_guid split # usedSplits, ln_id line # matchedLineIds))"

definition matchStatementLines :: "statement_line list \<Rightarrow> ledger_candidate list \<Rightarrow> js_number option \<Rightarrow> match_result" where
  "matchStatementLines lines ledgerSplits window =
     (let windowDays = (case window of None \<Rightarrow> DEFAULT_MATCH_WINDOW_DAYS | Some w \<Rightarrow> w);
        orderedLines = stable_sort compare_lines lines
      in case foldl (match_line windowDays ledgerSplits) ([], [], []) orderedLines of (matched, usedSplits, matchedLineIds) \<Rightarrow>
        \<lparr>mr_matched = matched,
         mr_missing = map ln_id (filter (\<lambda>l. ln_id l \<notin> set matchedLineIds) lines),
         mr_ledger_only = map ca_guid (filter (\<lambda>s. ca_guid s \<notin> set usedSplits) ledgerSplits)\<rparr>)"

section \<open>Tie-out and conversions\<close>

record tie_out =
  ti_expected :: "js_number option"
  ti_actual :: js_number
  ti_difference :: "js_number option"
  ti_ties_out :: "bool option"

definition computeReconcileTieOut :: "js_number option \<Rightarrow> js_number option \<Rightarrow> js_number \<Rightarrow> js_number \<Rightarrow> tie_out" where
  "computeReconcileTieOut openingBalance closingBalance matchedSplitsAmount addedLinesAmount =
     (let actualChange = js_add matchedSplitsAmount addedLinesAmount
      in case (openingBalance, closingBalance) of
        (Some opening, Some closing) \<Rightarrow>
          let expectedChange = js_sub closing opening; difference = js_sub expectedChange actualChange
          in \<lparr>ti_expected = Some expectedChange, ti_actual = actualChange, ti_difference = Some difference,
              ti_ties_out = Some (js_less (js_abs difference) MONEY_DISPLAY_EPSILON)\<rparr>
      | _ \<Rightarrow> \<lparr>ti_expected = None, ti_actual = actualChange, ti_difference = None, ti_ties_out = None\<rparr>)"

definition splitValueToStatementAmount :: "int \<Rightarrow> int \<Rightarrow> js_number" where
  "splitValueToStatementAmount valueNum valueDenom =
     (let denom = fl (of_int valueDenom) in if js_eq denom (JFin 0) then JFin 0 else js_div (fl (of_int valueNum)) denom)"

text \<open>\<open>BigInt\<close> of a number that is no integer throws: \<open>None\<close>.\<close>

definition statementAmountToSplitValue :: "js_number \<Rightarrow> int \<Rightarrow> (int \<times> int) option" where
  "statementAmountToSplitValue amount denom =
     (case js_round (js_mul amount (JFin (of_int denom))) of JFin q \<Rightarrow> Some (\<lfloor>q\<rfloor>, denom) | _ \<Rightarrow> None)"

definition negateSplitValue :: "int \<times> int \<Rightarrow> int \<times> int" where
  "negateSplitValue v = (- fst v, snd v)"

section \<open>The order in which splits are preferred\<close>

lemma js_less_trans: "js_less a b \<Longrightarrow> js_less b c \<Longrightarrow> js_less a c"
  by (cases a; cases b; cases c) auto

lemma js_less_irrefl [simp]: "\<not> js_less a a"
  by (cases a) auto

lemma js_less_total: "a \<noteq> JNaN \<Longrightarrow> b \<noteq> JNaN \<Longrightarrow> a \<noteq> b \<Longrightarrow> js_less a b \<or> js_less b a"
  by (cases a; cases b) auto

lemma dayDistance_not_NaN [simp]: "dayDistance a b \<noteq> JNaN"
  using fl_not_NaN [of "of_int (a - b)"]
  by (cases "fl (of_int (a - b))") (simp_all add: dayDistance_def signed_inf_def)

definition preferred :: "statement_line \<Rightarrow> ledger_candidate \<Rightarrow> ledger_candidate \<Rightarrow> bool" where
  "preferred line s t \<longleftrightarrow> (let ds = dayDistance (ln_date line) (ca_date s); dt = dayDistance (ln_date line) (ca_date t)
     in js_less ds dt \<or> (ds = dt \<and> (ca_date s < ca_date t \<or> (ca_date s = ca_date t \<and> ca_guid s < ca_guid t))))"

lemma preferred_irrefl [simp]: "\<not> preferred line s s"
  by (simp add: preferred_def)

lemma preferred_trans: "preferred line a b \<Longrightarrow> preferred line b c \<Longrightarrow> preferred line a c"
  unfolding preferred_def Let_def using js_less_trans by (smt (verit) less_trans)

lemma preferred_total: "ca_guid a \<noteq> ca_guid b \<Longrightarrow> preferred line a b \<or> preferred line b a"
  unfolding preferred_def Let_def using js_less_total [OF dayDistance_not_NaN dayDistance_not_NaN]
  by (metis linorder_less_linear)

text \<open>The splits a line can take, and what the scan finds among them.\<close>

definition fits :: "js_number \<Rightarrow> statement_line \<Rightarrow> ledger_candidate \<Rightarrow> bool" where
  "fits windowDays line split \<longleftrightarrow> same_amount line split \<and> in_window windowDays line split"

abbreviation free :: "js_number \<Rightarrow> string list \<Rightarrow> statement_line \<Rightarrow> ledger_candidate \<Rightarrow> bool" where
  "free w used line s \<equiv> ca_guid s \<notin> set used \<and> fits w line s"

definition best_of :: "js_number \<Rightarrow> string list \<Rightarrow> statement_line \<Rightarrow> ledger_candidate set \<Rightarrow> (ledger_candidate \<times> js_number) option \<Rightarrow> bool" where
  "best_of w used line S best \<longleftrightarrow> (case best of
      None \<Rightarrow> \<forall>s \<in> S. \<not> free w used line s
    | Some (b, d) \<Rightarrow> b \<in> S \<and> free w used line b \<and> d = dayDistance (ln_date line) (ca_date b) \<and>
        (\<forall>s \<in> S. free w used line s \<longrightarrow> \<not> preferred line s b))"

lemma best_of_scan:
  assumes "best_of w used line S best"
  shows "best_of w used line (insert s S) (scan_split w used line best s)"
proof (cases best)
  case None
  then show ?thesis using assms by (auto simp: best_of_def scan_split_def fits_def Let_def)
next
  case (Some p)
  obtain b d where p: "p = (b, d)" by fastforce
  have b: "b \<in> S" "free w used line b" "d = dayDistance (ln_date line) (ca_date b)" "\<And>s. s \<in> S \<Longrightarrow> free w used line s \<Longrightarrow> \<not> preferred line s b"
    using assms by (auto simp: Some p best_of_def)
  have takes: "scan_split w used line best s = (if free w used line s \<and> preferred line s b then Some (s, dayDistance (ln_date line) (ca_date s)) else best)"
    using b(3) by (auto simp: Some p scan_split_def fits_def Let_def preferred_def js_eq_def)
  show ?thesis
  proof (cases "free w used line s \<and> preferred line s b")
    case True
    then have "\<not> preferred line t s" if "t \<in> S" "free w used line t" for t
      using b(4) [OF that] preferred_trans [of line t s b] by blast
    then show ?thesis unfolding takes using True by (simp add: best_of_def)
  next
    case False
    then show ?thesis unfolding takes using b by (auto simp: best_of_def Some p)
  qed
qed

lemma best_of_fold: "best_of w used line S best \<Longrightarrow> best_of w used line (S \<union> set ss) (foldl (scan_split w used line) best ss)"
proof (induction ss arbitrary: S best)
  case (Cons s ss)
  from Cons.IH [OF best_of_scan [OF Cons.prems, of s]] show ?case by (simp add: Un_commute)
qed simp

lemma best_split_best: "best_of w used line (set ss) (best_split w ss used line)"
  using best_of_fold [of w used line "{}" None ss] by (simp add: best_split_def best_of_def)

lemma best_split_unique:
  assumes "set ss = set ts" "inj_on ca_guid (set ss)"
  shows "best_split w ss used line = best_split w ts used line"
proof -
  have "best_of w used line (set ss) (best_split w ss used line)" "best_of w used line (set ss) (best_split w ts used line)"
    using best_split_best [of w used line ss] best_split_best [of w used line ts] assms(1) by simp_all
  moreover have one: "a = b" if "a \<in> set ss" "b \<in> set ss" "\<not> preferred line a b" "\<not> preferred line b a" for a b
    using that assms(2) preferred_total [of a b line] by (auto dest: inj_onD)
  ultimately show ?thesis
  proof (cases "best_split w ss used line"; cases "best_split w ts used line")
    fix p q
    assume eq: "best_split w ss used line = Some p" "best_split w ts used line = Some q"
      and best: "best_of w used line (set ss) (best_split w ss used line)" "best_of w used line (set ss) (best_split w ts used line)"
    then have "fst p = fst q" using one [of "fst p" "fst q"] by (cases p; cases q) (simp add: best_of_def)
    then show ?thesis using eq best by (cases p; cases q) (simp add: best_of_def)
  qed (auto simp: best_of_def)
qed

interpretation line_cmp: comparison compare_lines
  by unfold_locales (auto simp: compare_lines_def Let_def split: if_splits)

text \<open>A sorted list is the only one of its elements where the comparator tells all of them apart.\<close>

lemma sorted_unique:
  assumes "sorted_wrt R xs" "sorted_wrt R ys" "mset xs = mset ys"
    and "\<And>x y. x \<in> set xs \<Longrightarrow> y \<in> set xs \<Longrightarrow> R x y \<Longrightarrow> R y x \<Longrightarrow> x = y"
  shows "xs = ys"
  using assms
proof (induction xs arbitrary: ys)
  case (Cons x xs)
  then obtain y ys' where ys: "ys = y # ys'" by (cases ys) auto
  have same: "set (x # xs) = set ys" using Cons.prems(3) by (rule mset_eq_setD)
  have "x = y"
  proof (rule ccontr)
    assume "x \<noteq> y"
    then have "x \<in> set ys'" "y \<in> set xs" using same by (auto simp: ys)
    then have "R x y" "R y x" using Cons.prems(1,2) by (auto simp: ys)
    then show False using Cons.prems(4) [of x y] \<open>x \<noteq> y\<close> \<open>y \<in> set xs\<close> by simp
  qed
  moreover have "xs = ys'" using Cons.prems calculation by (intro Cons.IH) (auto simp: ys)
  ultimately show ?case by (simp add: ys)
qed simp

lemma ordered_unique:
  assumes "mset xs = mset ys" "inj_on ln_id (set xs)"
  shows "stable_sort compare_lines xs = stable_sort compare_lines ys"
proof (rule sorted_unique [OF line_cmp.sorted_stable_sort line_cmp.sorted_stable_sort])
  show "mset (stable_sort compare_lines xs) = mset (stable_sort compare_lines ys)" using assms(1) by simp
  fix x y
  assume "x \<in> set (stable_sort compare_lines xs)" "y \<in> set (stable_sort compare_lines xs)"
    "compare_lines x y \<le> 0" "compare_lines y x \<le> 0"
  then show "x = y" using assms(2) by (auto simp: compare_lines_def Let_def dest: inj_onD split: if_splits)
qed

text \<open>
  C29. The result does not depend on the order in which lines and splits are loaded: with distinct line
  ids and split guids the pairs are the same, in the same order, and the two remainders have the
  same members.
\<close>
theorem matching_order_independent:
  assumes "mset lines = mset lines'" "mset ledgerSplits = mset ledgerSplits'"
    and "distinct (map ln_id lines)" "distinct (map ca_guid ledgerSplits)"
  shows "mr_matched (matchStatementLines lines' ledgerSplits' w) = mr_matched (matchStatementLines lines ledgerSplits w) \<and>
    mset (mr_missing (matchStatementLines lines' ledgerSplits' w)) = mset (mr_missing (matchStatementLines lines ledgerSplits w)) \<and>
    mset (mr_ledger_only (matchStatementLines lines' ledgerSplits' w)) = mset (mr_ledger_only (matchStatementLines lines ledgerSplits w))"
proof -
  have same: "set ledgerSplits' = set ledgerSplits" using assms(2) by (rule mset_eq_setD [OF sym])
  moreover have "inj_on ca_guid (set ledgerSplits')" unfolding same using assms(4) by (simp add: distinct_map)
  ultimately have "best_split win ledgerSplits' u l = best_split win ledgerSplits u l" for win u l by (rule best_split_unique)
  then have step: "match_line win ledgerSplits' = match_line win ledgerSplits" for win
    by (intro ext) (simp add: match_line_def)
  have ordered: "stable_sort compare_lines lines' = stable_sort compare_lines lines"
    using ordered_unique [OF assms(1)] assms(3) by (simp add: distinct_map)
  obtain m u i where st: "foldl (match_line (case w of None \<Rightarrow> DEFAULT_MATCH_WINDOW_DAYS | Some w \<Rightarrow> w) ledgerSplits) ([], [], [])
      (stable_sort compare_lines lines) = (m, u, i)" by (metis prod.exhaust)
  have 1: "matchStatementLines lines ledgerSplits w = \<lparr>mr_matched = m, mr_missing = map ln_id (filter (\<lambda>l. ln_id l \<notin> set i) lines),
      mr_ledger_only = map ca_guid (filter (\<lambda>s. ca_guid s \<notin> set u) ledgerSplits)\<rparr>"
    unfolding matchStatementLines_def Let_def st prod.case ..
  have 2: "matchStatementLines lines' ledgerSplits' w = \<lparr>mr_matched = m, mr_missing = map ln_id (filter (\<lambda>l. ln_id l \<notin> set i) lines'),
      mr_ledger_only = map ca_guid (filter (\<lambda>s. ca_guid s \<notin> set u) ledgerSplits')\<rparr>"
    unfolding matchStatementLines_def Let_def step ordered st prod.case ..
  show ?thesis unfolding 1 2 match_result.select_convs mset_map mset_filter using assms(1,2) by simp
qed

section \<open>Every pair is right, and no pair is left\<close>

text \<open>What the loop keeps: the pairs so far, over the lines done so far.\<close>

definition matching_state :: "js_number \<Rightarrow> ledger_candidate list \<Rightarrow> statement_line list \<Rightarrow> (int \<times> string) list \<times> string list \<times> int list \<Rightarrow> bool" where
  "matching_state w ss seen st \<longleftrightarrow> (case st of (matched, used, ids) \<Rightarrow>
     set used = snd ` set matched \<and> set ids = fst ` set matched \<and> distinct (map snd matched) \<and>
     set ids \<subseteq> ln_id ` set seen \<and> (distinct (map ln_id seen) \<longrightarrow> distinct (map fst matched)) \<and>
     (\<forall>(i, g) \<in> set matched. \<exists>l \<in> set seen. \<exists>s \<in> set ss. ln_id l = i \<and> ca_guid s = g \<and> fits w l s) \<and>
     (\<forall>l \<in> set seen. ln_id l \<in> set ids \<or> (\<forall>s \<in> set ss. ca_guid s \<in> set used \<or> \<not> fits w l s)))"

lemma matching_state_step:
  assumes "matching_state w ss seen st"
  shows "matching_state w ss (seen @ [l]) (match_line w ss st l)"
proof -
  obtain matched used ids where st: "st = (matched, used, ids)" by (cases st)
  note before = assms [unfolded st matching_state_def prod.case]
  show ?thesis
  proof (cases "best_split w ss used l")
    case None
    then have "\<forall>s \<in> set ss. ca_guid s \<in> set used \<or> \<not> fits w l s"
      using best_split_best [of w used l ss] by (auto simp: best_of_def)
    then show ?thesis using before None by (fastforce simp: st match_line_def matching_state_def)
  next
    case (Some p)
    then obtain s d where p: "p = (s, d)" by (cases p)
    have s: "s \<in> set ss" "ca_guid s \<notin> set used" "fits w l s"
      using best_split_best [of w used l ss] by (auto simp: Some p best_of_def)
    have open_lines: "\<And>l'. l' \<in> set seen \<Longrightarrow> ln_id l' \<in> set ids \<or> (\<forall>s \<in> set ss. ca_guid s \<in> set used \<or> \<not> fits w l' s)"
      using before by blast
    have step: "match_line w ss st l = (matched @ [(ln_id l, ca_guid s)], ca_guid s # used, ln_id l # ids)"
      by (simp add: match_line_def st Some p)
    show ?thesis unfolding step matching_state_def prod.case
    proof (intro conjI)
      show "distinct (map ln_id (seen @ [l])) \<longrightarrow> distinct (map fst (matched @ [(ln_id l, ca_guid s)]))"
        using before by auto
      show "\<forall>(i, g) \<in> set (matched @ [(ln_id l, ca_guid s)]). \<exists>l' \<in> set (seen @ [l]). \<exists>s' \<in> set ss. ln_id l' = i \<and> ca_guid s' = g \<and> fits w l' s'"
        using before s by fastforce
      show "\<forall>l' \<in> set (seen @ [l]). ln_id l' \<in> set (ln_id l # ids) \<or> (\<forall>s' \<in> set ss. ca_guid s' \<in> set (ca_guid s # used) \<or> \<not> fits w l' s')"
      proof
        fix l' assume "l' \<in> set (seen @ [l])"
        then show "ln_id l' \<in> set (ln_id l # ids) \<or> (\<forall>s' \<in> set ss. ca_guid s' \<in> set (ca_guid s # used) \<or> \<not> fits w l' s')"
          using open_lines by auto
      qed
    qed (use before s in auto)
  qed
qed

lemma matching_state_fold: "matching_state w ss seen st \<Longrightarrow> matching_state w ss (seen @ ls) (foldl (match_line w ss) st ls)"
proof (induction ls arbitrary: seen st)
  case (Cons l ls)
  from Cons.IH [OF matching_state_step [OF Cons.prems, of l]] show ?case by simp
qed simp

text \<open>The window of a call.\<close>

definition window_of :: "js_number option \<Rightarrow> js_number" where
  "window_of w = (case w of None \<Rightarrow> DEFAULT_MATCH_WINDOW_DAYS | Some d \<Rightarrow> d)"

lemma matching_result:
  obtains m u i where "matching_state (window_of w) ss (stable_sort compare_lines ls) (m, u, i)"
    "matchStatementLines ls ss w = \<lparr>mr_matched = m, mr_missing = map ln_id (filter (\<lambda>l. ln_id l \<notin> set i) ls),
      mr_ledger_only = map ca_guid (filter (\<lambda>s. ca_guid s \<notin> set u) ss)\<rparr>"
proof -
  have start: "matching_state (window_of w) ss [] ([], [], [])" by (simp add: matching_state_def)
  obtain m u i where st: "foldl (match_line (window_of w) ss) ([], [], []) (stable_sort compare_lines ls) = (m, u, i)" by (metis prod.exhaust)
  show thesis
  proof (rule that)
    show "matching_state (window_of w) ss (stable_sort compare_lines ls) (m, u, i)"
      using matching_state_fold [OF start, of "stable_sort compare_lines ls"] by (simp add: st)
  qed (simp add: matchStatementLines_def Let_def st [unfolded window_of_def])
qed

lemma matching_facts:
  fixes ls ss w
  defines "r \<equiv> matchStatementLines ls ss w"
  shows "distinct (map snd (mr_matched r))" "distinct (map ln_id ls) \<Longrightarrow> distinct (map fst (mr_matched r))"
    "\<And>i g. (i, g) \<in> set (mr_matched r) \<Longrightarrow> \<exists>l \<in> set ls. \<exists>s \<in> set ss. ln_id l = i \<and> ca_guid s = g \<and> fits (window_of w) l s"
    "\<And>l s. l \<in> set ls \<Longrightarrow> s \<in> set ss \<Longrightarrow> ln_id l \<in> set (mr_missing r) \<Longrightarrow> ca_guid s \<in> set (mr_ledger_only r) \<Longrightarrow>
       distinct (map ln_id ls) \<Longrightarrow> distinct (map ca_guid ss) \<Longrightarrow> \<not> fits (window_of w) l s"
    "set (mr_missing r) = ln_id ` set ls - fst ` set (mr_matched r)"
    "set (mr_ledger_only r) = ca_guid ` set ss - snd ` set (mr_matched r)"
proof -
  obtain m u i where st: "matching_state (window_of w) ss (stable_sort compare_lines ls) (m, u, i)"
    and r: "r = \<lparr>mr_matched = m, mr_missing = map ln_id (filter (\<lambda>l. ln_id l \<notin> set i) ls),
      mr_ledger_only = map ca_guid (filter (\<lambda>s. ca_guid s \<notin> set u) ss)\<rparr>"
    unfolding r_def by (rule matching_result)
  have d: "distinct (map ln_id (stable_sort compare_lines ls)) = distinct (map ln_id ls)"
    by (rule mset_eq_imp_distinct_iff) (simp only: mset_map mset_stable_sort)
  note st = st [unfolded matching_state_def prod.case set_stable_sort d]
  show "distinct (map snd (mr_matched r))" using st by (simp add: r)
  show "distinct (map fst (mr_matched r))" if "distinct (map ln_id ls)" using st that by (simp add: r)
  show "\<exists>l \<in> set ls. \<exists>s \<in> set ss. ln_id l = j \<and> ca_guid s = g \<and> fits (window_of w) l s" if "(j, g) \<in> set (mr_matched r)" for j g
    using st that by (auto simp: r)
  show "\<not> fits (window_of w) l s" if "l \<in> set ls" "s \<in> set ss" "ln_id l \<in> set (mr_missing r)" "ca_guid s \<in> set (mr_ledger_only r)"
    "distinct (map ln_id ls)" "distinct (map ca_guid ss)" for l s
  proof -
    have "ln_id l \<notin> set i" "ca_guid s \<notin> set u" using that(3,4) by (auto simp: r)
    then show ?thesis using st that(1,2) by blast
  qed
  show "set (mr_missing r) = ln_id ` set ls - fst ` set (mr_matched r)" using st by (auto simp: r)
  show "set (mr_ledger_only r) = ca_guid ` set ss - snd ` set (mr_matched r)" using st by (auto simp: r)
qed

section \<open>Amounts in cents, distances in days\<close>

lemma epsilon_eval: "MONEY_DISPLAY_EPSILON = JFin (5764607523034235 / 1152921504606846976)"
  unfolding MONEY_DISPLAY_EPSILON_def by (subst fl_eval [of "-8" _ 5764607523034235]) (simp_all add: pow2_def)

lemma below_epsilon:
  assumes "near 100 e x k" "e \<le> 2 / 5"
  shows "js_less (js_abs x) MONEY_DISPLAY_EPSILON \<longleftrightarrow> k = 0"
    and "js_ge (js_abs x) MONEY_DISPLAY_EPSILON \<longleftrightarrow> k \<noteq> 0"
proof -
  obtain q where q: "x = JFin q" "\<bar>q * 100 - of_int k\<bar> \<le> e" using assms(1) by (auto simp: near_def)
  have "1 \<le> \<bar>of_int k :: rat\<bar>" if "k \<noteq> 0" using that by (metis of_int_1_le_iff of_int_abs int_one_le_iff_zero_less zero_less_abs_iff)
  then have "k = 0 \<Longrightarrow> \<bar>q\<bar> \<le> 4 / 1000" "k \<noteq> 0 \<Longrightarrow> 6 / 1000 \<le> \<bar>q\<bar>" using q(2) assms(2) by linarith+
  then show "js_less (js_abs x) MONEY_DISPLAY_EPSILON \<longleftrightarrow> k = 0" "js_ge (js_abs x) MONEY_DISPLAY_EPSILON \<longleftrightarrow> k \<noteq> 0"
    by (cases "k = 0"; fastforce simp: q(1) epsilon_eval js_ge_def js_eq_def)+
qed

lemma same_amount_cents:
  assumes "ln_amount l = money 100 j" "ca_amount s = money 100 k" "\<bar>j\<bar> \<le> 2 ^ 38" "\<bar>k\<bar> \<le> 2 ^ 38"
  shows "same_amount l s \<longleftrightarrow> j = k"
proof -
  have "near 100 (1 / 2 ^ 10 + 1 / 2 ^ 10 + 1 / 2 ^ 10) (js_sub (money 100 k) (money 100 j)) (k - j)"
    using assms(3,4) by (intro near_sub near_money) auto
  from below_epsilon(2) [OF this] show ?thesis by (auto simp: same_amount_def assms(1,2))
qed

text \<open>Whole days decide the window exactly, whatever the rounding of the quotient.\<close>

lemma in_window_days:
  assumes "w \<le> 2 ^ 20" "\<bar>ln_date l - ca_date s\<bar> \<le> 2 ^ 53"
  shows "in_window (JFin (of_nat w)) l s \<longleftrightarrow> \<bar>ln_date l - ca_date s\<bar> \<le> int w * 86400000"
proof -
  let ?n = "\<bar>ln_date l - ca_date s\<bar>"
  define x :: rat where "x = of_int ?n / 86400000"
  have w: "of_nat w \<le> (2 ^ 20 :: rat)" using assms(1) of_nat_le_iff [of w "2 ^ 20", where ?'a = rat] by simp
  have "of_int ?n \<le> (2 ^ 53 :: rat)" using assms(2) of_int_le_iff [of ?n "2 ^ 53", where ?'a = rat] by simp
  moreover have "0 \<le> (of_int ?n :: rat)" by simp
  ultimately have x: "\<bar>x\<bar> \<le> 2 ^ 60" "0 \<le> x" by (simp_all add: x_def)
  from fl_error [OF in_range [OF x(1)]] obtain y where y: "fl x = JFin y" "\<bar>y - x\<bar> \<le> ulp_half * \<bar>x\<bar> + tiny" by blast
  have "js_abs (fl (of_int (ln_date l - ca_date s))) = JFin (of_int ?n)"
    using fl_int [of "ln_date l - ca_date s"] assms(2) by simp
  then have dist: "dayDistance (ln_date l) (ca_date s) = JFin y" using y(1) by (simp add: dayDistance_def x_def)
  have "ulp_half * x \<le> x / 9007199254740992" "tiny \<le> 1 / 1267650600228229401496703205376" "\<bar>x\<bar> = x" "of_nat w \<le> (1048576 :: rat)"
    using mult_right_mono [OF roundoff_bounds(2) x(2)] roundoff_bounds(4) x(2) w by simp_all
  then have u: "x - (x / 9007199254740992 + 1 / 1267650600228229401496703205376) \<le> y"
      "y \<le> x + x / 9007199254740992 + 1 / 1267650600228229401496703205376" "of_nat w \<le> (1048576 :: rat)"
    using y(2) by linarith+
  have "y \<le> of_nat w \<longleftrightarrow> ?n \<le> int w * 86400000"
  proof (cases "?n" "int w * 86400000" rule: linorder_cases)
    case less
    then have "(of_int (?n + 1) :: rat) \<le> of_int (int w * 86400000)" by (simp only: of_int_le_iff)
    then have "x + 1 / 86400000 \<le> of_nat w" by (simp add: x_def field_simps)
    then have "y \<le> of_nat w" using u by linarith
    then show ?thesis using less by simp
  next
    case equal
    then have "x = of_int (int w)" by (simp add: x_def)
    then show ?thesis using y(1) fl_int [of "int w"] assms(1) equal by simp
  next
    case greater
    then have "(of_int (int w * 86400000 + 1) :: rat) \<le> of_int ?n" by (simp only: of_int_le_iff)
    then have "of_nat w + 1 / 86400000 \<le> x" by (simp add: x_def field_simps)
    then have "\<not> y \<le> of_nat w" using u by linarith
    then show ?thesis using greater by simp
  qed
  then show ?thesis by (simp add: in_window_def dist not_less)
qed

text \<open>
  C28. The matcher on whole cents: a line is paired with a split of exactly its amount no further
  than the window of whole days, no line and no split is paired twice, the two remainders are
  what is not paired, and no pair of them that agrees is left.
\<close>
theorem matching_exact:
  fixes lc :: "statement_line \<Rightarrow> int" and sc :: "ledger_candidate \<Rightarrow> int"
  assumes "distinct (map ln_id ls)" "distinct (map ca_guid ss)"
    and "\<And>l. l \<in> set ls \<Longrightarrow> ln_amount l = money 100 (lc l) \<and> \<bar>lc l\<bar> \<le> 2 ^ 38"
    and "\<And>s. s \<in> set ss \<Longrightarrow> ca_amount s = money 100 (sc s) \<and> \<bar>sc s\<bar> \<le> 2 ^ 38"
    and "\<And>l s. l \<in> set ls \<Longrightarrow> s \<in> set ss \<Longrightarrow> \<bar>ln_date l - ca_date s\<bar> \<le> 2 ^ 53"
    and "window_of window = JFin (of_nat w)" "w \<le> 2 ^ 20"
  defines "r \<equiv> matchStatementLines ls ss window"
    and "agree l s \<equiv> lc l = sc s \<and> \<bar>ln_date l - ca_date s\<bar> \<le> int w * 86400000"
  shows "distinct (map fst (mr_matched r)) \<and> distinct (map snd (mr_matched r)) \<and>
    (\<forall>(i, g) \<in> set (mr_matched r). \<exists>l \<in> set ls. \<exists>s \<in> set ss. ln_id l = i \<and> ca_guid s = g \<and> agree l s) \<and>
    set (mr_missing r) = ln_id ` set ls - fst ` set (mr_matched r) \<and>
    set (mr_ledger_only r) = ca_guid ` set ss - snd ` set (mr_matched r) \<and>
    (\<forall>l \<in> set ls. \<forall>s \<in> set ss. ln_id l \<in> set (mr_missing r) \<and> ca_guid s \<in> set (mr_ledger_only r) \<longrightarrow> \<not> agree l s)"
proof -
  have fit: "fits (window_of window) l s \<longleftrightarrow> agree l s" if "l \<in> set ls" "s \<in> set ss" for l s
    using same_amount_cents [of l "lc l" s "sc s"] in_window_days [OF assms(7,5)] assms(3,4) that
    by (simp add: fits_def agree_def assms(6))
  note facts = matching_facts [where ls = ls and ss = ss and w = window, folded r_def]
  have "\<forall>(i, g) \<in> set (mr_matched r). \<exists>l \<in> set ls. \<exists>s \<in> set ss. ln_id l = i \<and> ca_guid s = g \<and> agree l s"
    using facts(3) fit by blast
  moreover have "\<forall>l \<in> set ls. \<forall>s \<in> set ss. ln_id l \<in> set (mr_missing r) \<and> ca_guid s \<in> set (mr_ledger_only r) \<longrightarrow> \<not> agree l s"
    using facts(4) fit assms(1,2) by blast
  ultimately show ?thesis using facts(1,2,5,6) assms(1) by blast
qed

section \<open>The tie-out\<close>

lemma tie_out_iff:
  assumes "near 100 (1 / 8 + 1 / 2 ^ 20) opening i" "near 100 (1 / 2 ^ 10) closing c"
    and "near 100 (1 / 8 + 1 / 2 ^ 20) matched m" "near 100 (1 / 8 + 1 / 2 ^ 20) added a"
    and "\<bar>i\<bar> \<le> 2 ^ 38" "\<bar>c\<bar> \<le> 2 ^ 38" "\<bar>m\<bar> \<le> 2 ^ 38" "\<bar>a\<bar> \<le> 2 ^ 38"
  shows "ti_ties_out (computeReconcileTieOut (Some opening) (Some closing) matched added) = Some (c - i = m + a)"
proof -
  have change: "near 100 (1 / 8 + 1 / 2 ^ 20 + (1 / 8 + 1 / 2 ^ 20) + 1 / 2 ^ 10) (js_add matched added) (m + a)"
    using assms by (intro near_add) auto
  have expected: "near 100 (1 / 2 ^ 10 + (1 / 8 + 1 / 2 ^ 20) + 1 / 2 ^ 10) (js_sub closing opening) (c - i)"
    using assms by (intro near_sub) auto
  have "near 100 (1 / 2 ^ 10 + (1 / 8 + 1 / 2 ^ 20) + 1 / 2 ^ 10 + (1 / 8 + 1 / 2 ^ 20 + (1 / 8 + 1 / 2 ^ 20) + 1 / 2 ^ 10) + 1 / 2 ^ 10)
      (js_sub (js_sub closing opening) (js_add matched added)) (c - i - (m + a))"
    using assms(5-8) by (intro near_sub change expected) auto
  from below_epsilon(1) [OF this] show ?thesis by (simp add: computeReconcileTieOut_def Let_def)
qed

text \<open>
  C30. The tie-out of amounts in cents is exact, whatever the rounding of the sums: it holds just when
  the closing balance is the opening balance and every matched and added amount together.
\<close>
theorem tie_out_exact:
  assumes "\<bar>i\<bar> \<le> 2 ^ 38" "\<bar>c\<bar> \<le> 2 ^ 38" "length ms \<le> 1024" "sum_list (map abs ms) \<le> 2 ^ 38"
    and "length as \<le> 1024" "sum_list (map abs as) \<le> 2 ^ 38"
  shows "ti_ties_out (computeReconcileTieOut (Some (money 100 i)) (Some (money 100 c))
      (foldl js_add (JFin 0) (map (money 100) ms)) (foldl js_add (JFin 0) (map (money 100) as)))
    = Some (c = i + sum_list ms + sum_list as)"
proof -
  have "near 100 (1 / 8 + 1 / 2 ^ 20) (money 100 i) i"
    by (rule near_mono [OF near_money]) (use assms(1) in auto)
  moreover have "near 100 (1 / 2 ^ 10) (money 100 c) c" using assms(2) by (intro near_money) auto
  moreover have "(c - i = sum_list ms + sum_list as) = (c = i + sum_list ms + sum_list as)" by linarith
  ultimately show ?thesis
    using tie_out_iff [of "money 100 i" i "money 100 c" c, OF _ _ near_sum_tight near_sum_tight] assms abs_sum_le by auto
qed

text \<open>
  A split value shown as a statement amount and written back is the same fraction, so the pair of
  splits written for it cancels.
\<close>
theorem split_value_roundtrip:
  assumes "\<bar>n\<bar> \<le> 2 ^ 38" "0 < d" "d \<le> 2 ^ 38"
  shows "statementAmountToSplitValue (splitValueToStatementAmount n d) d = Some (n, d) \<and>
    fst (n, d) + fst (negateSplitValue (n, d)) = 0 \<and> snd (negateSplitValue (n, d)) = d"
proof -
  have "splitValueToStatementAmount n d = money d n"
    using assms fl_int [of n] fl_int [of d] by (simp add: splitValueToStatementAmount_def money_def js_eq_def)
  moreover have "near d (1 / 4) (money d n) n"
    by (rule near_mono [OF near_money]) (use assms in auto)
  ultimately show ?thesis using near_round [of d "money d n" n] assms by (simp add: statementAmountToSplitValue_def negateSplitValue_def)
qed

theorem split_value_roundtrip_witness:
  "statementAmountToSplitValue (splitValueToStatementAmount (-1999) 100) 100 = Some (-1999, 100) \<and>
    fst (-1999, 100 :: int) + fst (negateSplitValue (-1999, 100)) = 0 \<and> snd (negateSplitValue (-1999, 100)) = 100"
  by (rule split_value_roundtrip) simp_all

theorem tie_out_exact_witness:
  "ti_ties_out (computeReconcileTieOut (Some (money 100 1000)) (Some (money 100 1030)) (foldl js_add (JFin 0) (map (money 100) [10, -5]))
      (foldl js_add (JFin 0) (map (money 100) [25]))) = Some True"
  using tie_out_exact [of 1000 1030 "[10, -5]" "[25]"] by simp

text \<open>Two payments of one amount, three days apart, and the two lines that report them.\<close>

definition rent_line :: "int \<Rightarrow> int \<Rightarrow> statement_line" where
  "rent_line i day = \<lparr>ln_id = i, ln_date = day * 86400000, ln_amount = money 100 (-85000)\<rparr>"

definition rent_split :: "string \<Rightarrow> int \<Rightarrow> ledger_candidate" where
  "rent_split g day = \<lparr>ca_guid = g, ca_date = day * 86400000, ca_amount = money 100 (-85000)\<rparr>"

theorem matching_order_independent_witness:
  "mr_matched (matchStatementLines [rent_line 2 4, rent_line 1 1] [rent_split ''b'' 3, rent_split ''a'' 0] None) =
    mr_matched (matchStatementLines [rent_line 1 1, rent_line 2 4] [rent_split ''a'' 0, rent_split ''b'' 3] None)"
  using matching_order_independent [of "[rent_line 1 1, rent_line 2 4]" "[rent_line 2 4, rent_line 1 1]"
      "[rent_split ''a'' 0, rent_split ''b'' 3]" "[rent_split ''b'' 3, rent_split ''a'' 0]" None]
  by (simp add: rent_line_def rent_split_def add_mset_commute)

theorem matching_exact_witness:
  "list_all (\<lambda>(i, g). \<exists>l \<in> set [rent_line 1 1, rent_line 2 4]. \<exists>s \<in> set [rent_split ''a'' 0, rent_split ''b'' 3].
       ln_id l = i \<and> ca_guid s = g \<and> -85000 = (-85000 :: int) \<and> \<bar>ln_date l - ca_date s\<bar> \<le> int 4 * 86400000)
     (mr_matched (matchStatementLines [rent_line 1 1, rent_line 2 4] [rent_split ''a'' 0, rent_split ''b'' 3] None))"
  unfolding list_all_iff
  by (rule matching_exact [where lc = "\<lambda>_. -85000" and sc = "\<lambda>_. -85000", THEN conjunct2, THEN conjunct2, THEN conjunct1])
    (auto simp: rent_line_def rent_split_def window_of_def DEFAULT_MATCH_WINDOW_DAYS_def)

end
