(* ===== verification/Statement_Finalize.thy ===== *)
theory Statement_Finalize
  imports Statement_Matching Period_Lock Reconcile
begin

text \<open>
  Reconciling an imported statement (src/lib/statement-reconcile-data.ts): the decisions on its
  lines, the view of a batch with its tie-out and the finalize transaction. The tables are lists of
  rows; the splits and transactions are those of \<open>Reconcile\<close>. A finalize is one database
  transaction, so an error gives no new tables. Dates are milliseconds.
\<close>

section \<open>Tables\<close>

record batch_row =
  sb_id :: int
  sb_book :: string
  sb_account :: "string option"
  sb_status :: string
  sb_start :: "int option"
  sb_end :: "int option"
  sb_opening :: "js_number option"
  sb_closing :: "js_number option"

record line_row =
  sl_id :: int
  sl_batch :: int
  sl_date :: int
  sl_description :: "string option"
  sl_amount :: js_number
  sl_split :: "string option"
  sl_state :: string
  sl_suggested :: "string option"

record statement_db =
  sd_batches :: "batch_row list"
  sd_lines :: "line_row list"
  sd_txs :: "tx_row list"
  sd_splits :: "split_row list"
  sd_guids :: nat

text \<open>
  What is read around the tables: the time, the generator of guids, the currency and fraction of
  an account, the lock settings and the categorisation rules (nothing when they throw).
\<close>

record statement_env =
  fe_now :: int
  fe_guid :: "nat \<Rightarrow> string"
  fe_accounts :: "string \<Rightarrow> (string option \<times> int) option"
  fe_settings :: lock_settings
  fe_rules :: "string \<Rightarrow> string \<Rightarrow> string option"

datatype statement_error =
    NoAccount | AlreadyFinalized | NoCurrency | MissingCounterpart "int list"
  | StatementLocked period_error | NotTiesOut tie_out | NoBigIntValue

text \<open>A nullable string that is truthy.\<close>

definition present :: "string option \<Rightarrow> bool" where
  "present g \<longleftrightarrow> (case g of None \<Rightarrow> False | Some x \<Rightarrow> x \<noteq> [])"

section \<open>Loading\<close>

definition compare_line_rows :: "line_row \<Rightarrow> line_row \<Rightarrow> int" where
  "compare_line_rows a b = (if sl_date a \<noteq> sl_date b then sl_date a - sl_date b else sl_id a - sl_id b)"

definition getLines :: "int \<Rightarrow> statement_db \<Rightarrow> line_row list" where
  "getLines batchId db = stable_sort compare_line_rows (filter (\<lambda>l. sl_batch l = batchId) (sd_lines db))"

definition getBatch :: "int \<Rightarrow> statement_db \<Rightarrow> batch_row option" where
  "getBatch batchId db = find (\<lambda>b. sb_id b = batchId) (sd_batches db)"

definition split_amount :: "split_row \<Rightarrow> js_number" where
  "split_amount s = splitValueToStatementAmount (sp_vnum s) (sp_vden s)"

definition post_date :: "statement_db \<Rightarrow> split_row \<Rightarrow> int option" where
  "post_date db s = (case find (\<lambda>t. tx_guid t = sp_tx s) (sd_txs db) of None \<Rightarrow> None | Some t \<Rightarrow> tx_post t)"

definition compare_ledger :: "ledger_candidate \<Rightarrow> ledger_candidate \<Rightarrow> int" where
  "compare_ledger a b = (if ca_date a \<noteq> ca_date b then ca_date a - ca_date b
     else if ca_guid a < ca_guid b then -1 else if ca_guid b < ca_guid a then 1 else 0)"

definition getCandidateSplits :: "string \<Rightarrow> int \<Rightarrow> int \<Rightarrow> statement_db \<Rightarrow> ledger_candidate list" where
  "getCandidateSplits accountGuid rangeStart rangeEnd db = stable_sort compare_ledger
     (map (\<lambda>s. \<lparr>ca_guid = sp_guid s, ca_date = the (post_date db s), ca_amount = split_amount s\<rparr>)
       (filter (\<lambda>s. sp_account s = accountGuid \<and> sp_state s \<noteq> ''y'' \<and>
          (case post_date db s of None \<Rightarrow> False | Some d \<Rightarrow> rangeStart \<le> d \<and> d \<le> rangeEnd)) (sd_splits db)))"

text \<open>The window is the default of four days, which is all the routes use.\<close>

definition computeRange :: "statement_env \<Rightarrow> batch_row \<Rightarrow> line_row list \<Rightarrow> int \<times> int" where
  "computeRange env batch lines = (let pad = 4 * 86400000; times = map sl_date lines
     in ((case sb_start batch of Some d \<Rightarrow> d
            | None \<Rightarrow> if times = [] then fe_now env else fold min (tl times) (hd times)) - pad,
         (case sb_end batch of Some d \<Rightarrow> d
            | None \<Rightarrow> if times = [] then fe_now env else fold max (tl times) (hd times)) + pad))"

definition js_total :: "js_number list \<Rightarrow> js_number" where
  "js_total xs = foldl js_add (JFin 0) xs"

definition effectiveOpeningBalance :: "batch_row \<Rightarrow> statement_db \<Rightarrow> js_number option" where
  "effectiveOpeningBalance batch db = (case sb_opening batch of
      Some v \<Rightarrow> Some v
    | None \<Rightarrow> if \<not> present (sb_account batch) then None
        else Some (js_total (map split_amount (reconciled_rows (the (sb_account batch)) (sd_splits db)))))"

section \<open>The decisions on the lines\<close>

abbreviation is_matched :: "line_row \<Rightarrow> bool" where
  "is_matched l \<equiv> sl_state l = ''matched'' \<and> present (sl_split l)"

definition undecided :: "line_row \<Rightarrow> bool" where
  "undecided l \<longleftrightarrow> \<not> is_matched l \<and> sl_state l \<noteq> ''added'' \<and> sl_state l \<noteq> ''ignored''"

text \<open>The automatic matches: the undecided lines over the candidates no line has claimed.\<close>

definition auto_match :: "statement_env \<Rightarrow> batch_row \<Rightarrow> string \<Rightarrow> line_row list \<Rightarrow> statement_db \<Rightarrow> match_result" where
  "auto_match env batch accountGuid lines db =
     (let (start, stop) = computeRange env batch lines;
        lockedSplits = map (\<lambda>l. the (sl_split l)) (filter is_matched lines);
        autoPool = filter (\<lambda>c. ca_guid c \<notin> set lockedSplits) (getCandidateSplits accountGuid start stop db)
      in matchStatementLines
           (map (\<lambda>l. \<lparr>ln_id = sl_id l, ln_date = sl_date l, ln_amount = sl_amount l\<rparr>) (filter undecided lines))
           autoPool (Some DEFAULT_MATCH_WINDOW_DAYS))"

record line_decision =
  ld_line :: int
  ld_decision :: string
  ld_split :: "string option"
  ld_counterpart :: "string option"

datatype decision_error = LineNotFound | SplitRequired | UnknownDecision string

definition set_line :: "(line_row \<Rightarrow> bool) \<Rightarrow> (line_row \<Rightarrow> line_row) \<Rightarrow> statement_db \<Rightarrow> statement_db" where
  "set_line P f db = db\<lparr>sd_lines := map (\<lambda>l. if P l then f l else l) (sd_lines db)\<rparr>"

text \<open>One decision: the tables, the number of updates and the errors so far.\<close>

definition apply_decision ::
    "int \<Rightarrow> line_row list \<Rightarrow> statement_db \<times> nat \<times> (int \<times> decision_error) list \<Rightarrow> line_decision
      \<Rightarrow> statement_db \<times> nat \<times> (int \<times> decision_error) list" where
  "apply_decision batchId existing st d = (case st of (db, updated, errors) \<Rightarrow>
     let this = (\<lambda>l. sl_id l = ld_line d \<and> sl_batch l = batchId)
     in case find (\<lambda>l. sl_id l = ld_line d) existing of
       None \<Rightarrow> (db, updated, errors @ [(ld_line d, LineNotFound)])
     | Some line \<Rightarrow>
         if ld_decision d = ''match'' then
           if \<not> present (ld_split d) then (db, updated, errors @ [(ld_line d, SplitRequired)])
           else (set_line this (\<lambda>l. l\<lparr>sl_state := ''matched'', sl_split := ld_split d\<rparr>) db, Suc updated, errors)
         else if ld_decision d = ''add'' then
           let counterpart = (case ld_counterpart d of None \<Rightarrow> sl_suggested line | Some g \<Rightarrow> Some g)
           in (set_line this (\<lambda>l. l\<lparr>sl_state := ''added'', sl_split := None, sl_suggested := counterpart\<rparr>) db, Suc updated, errors)
         else if ld_decision d = ''ignore'' then
           (set_line this (\<lambda>l. l\<lparr>sl_state := ''ignored'', sl_split := None\<rparr>) db, Suc updated, errors)
         else (db, updated, errors @ [(ld_line d, UnknownDecision (ld_decision d))]))"

definition applyLineDecisions ::
    "int \<Rightarrow> line_decision list \<Rightarrow> statement_db \<Rightarrow> statement_db \<times> nat \<times> (int \<times> decision_error) list" where
  "applyLineDecisions batchId decisions db = foldl (apply_decision batchId (getLines batchId db)) (db, 0, []) decisions"

section \<open>The view\<close>

text \<open>A pair with the amount its split is shown with. The descriptions, dates and account names shown
  beside it are left out.\<close>

record matched_view =
  mv_line :: int
  mv_split :: string
  mv_auto :: bool
  mv_amount :: js_number

record missing_view =
  ms_line :: int
  ms_amount :: js_number
  ms_suggested :: "string option"
  ms_add :: bool

record reconcile_view =
  rv_matched :: "matched_view list"
  rv_missing :: "missing_view list"
  rv_ledger_only :: "string list"
  rv_tie_out :: tie_out

definition find_candidate :: "ledger_candidate list \<Rightarrow> string \<Rightarrow> ledger_candidate option" where
  "find_candidate cs g = find (\<lambda>c. ca_guid c = g) cs"

definition buildMissing :: "statement_env \<Rightarrow> batch_row \<Rightarrow> bool \<Rightarrow> line_row \<Rightarrow> missing_view" where
  "buildMissing env batch decided l = \<lparr>ms_line = sl_id l, ms_amount = sl_amount l,
     ms_suggested = (if present (sl_suggested l) then sl_suggested l
       else fe_rules env (sb_book batch) (case sl_description l of None \<Rightarrow> [] | Some d \<Rightarrow> d)),
     ms_add = decided\<rparr>"

text \<open>A split chosen by hand that is no candidate is shown with the amount of its line.\<close>

definition explicit_view :: "ledger_candidate list \<Rightarrow> line_row \<Rightarrow> matched_view" where
  "explicit_view cands l = \<lparr>mv_line = sl_id l, mv_split = the (sl_split l), mv_auto = False,
     mv_amount = (case find_candidate cands (the (sl_split l)) of None \<Rightarrow> sl_amount l | Some c \<Rightarrow> ca_amount c)\<rparr>"

definition auto_view :: "ledger_candidate list \<Rightarrow> int \<times> string \<Rightarrow> matched_view" where
  "auto_view cands m = \<lparr>mv_line = fst m, mv_split = snd m, mv_auto = True,
     mv_amount = ca_amount (the (find_candidate cands (snd m)))\<rparr>"

definition buildReconcileView :: "statement_env \<Rightarrow> batch_row \<Rightarrow> statement_db \<Rightarrow> statement_error + reconcile_view" where
  "buildReconcileView env batch db =
     (if \<not> present (sb_account batch) then Inl NoAccount
      else let accountGuid = the (sb_account batch);
        lines = getLines (sb_id batch) db;
        (start, stop) = computeRange env batch lines;
        cands = getCandidateSplits accountGuid start stop db;
        decidedAdd = filter (\<lambda>l. sl_state l = ''added'') lines;
        auto = auto_match env batch accountGuid lines db;
        matched = map (explicit_view cands) (filter is_matched lines) @ map (auto_view cands) (mr_matched auto)
      in Inr \<lparr>rv_matched = matched,
           rv_missing = map (buildMissing env batch False) (filter (\<lambda>l. undecided l \<and> sl_id l \<in> set (mr_missing auto)) lines)
             @ map (buildMissing env batch True) decidedAdd,
           rv_ledger_only = mr_ledger_only auto,
           rv_tie_out = computeReconcileTieOut (effectiveOpeningBalance batch db) (sb_closing batch)
             (js_total (map mv_amount matched)) (js_total (map sl_amount decidedAdd))\<rparr>)"

section \<open>Finalizing\<close>

record statement_result =
  fr_added :: nat
  fr_matched :: nat
  fr_reconciled :: nat
  fr_tie_out :: tie_out

text \<open>The first write: the status-guarded update, which tells whether it found the row.\<close>

definition claimBatch :: "int \<Rightarrow> statement_db \<Rightarrow> statement_error + statement_db" where
  "claimBatch batchId db =
     (let free = (\<lambda>b. sb_id b = batchId \<and> sb_status b \<noteq> ''reconciled'' \<and> sb_status b \<noteq> ''reconciling'')
      in if \<not> list_ex free (sd_batches db) then Inl AlreadyFinalized
      else Inr (db\<lparr>sd_batches := map (\<lambda>b. if free b then b\<lparr>sb_status := ''reconciled''\<rparr> else b) (sd_batches db)\<rparr>))"

definition account_currency :: "statement_env \<Rightarrow> string \<Rightarrow> statement_error + string \<times> int" where
  "account_currency env accountGuid = (case fe_accounts env accountGuid of
      Some (Some c, scu) \<Rightarrow> if c = [] then Inl NoCurrency else Inr (c, if scu = 0 then 100 else scu)
    | _ \<Rightarrow> Inl NoCurrency)"

definition persist_match :: "statement_db \<Rightarrow> int \<times> string \<Rightarrow> statement_db" where
  "persist_match db m = set_line (\<lambda>l. sl_id l = fst m) (\<lambda>l. l\<lparr>sl_state := ''matched'', sl_split := Some (snd m)\<rparr>) db"

definition new_split :: "string \<Rightarrow> string \<Rightarrow> string \<Rightarrow> int \<times> int \<Rightarrow> split_row" where
  "new_split g tx account v = \<lparr>sp_guid = g, sp_tx = tx, sp_account = account, sp_memo = '''', sp_action = '''',
     sp_state = ''n'', sp_date = None, sp_vnum = fst v, sp_vden = snd v, sp_qnum = fst v, sp_qden = snd v\<rparr>"

text \<open>The two-split transaction of an added line; the guid of its statement split is handed out.\<close>

definition add_line ::
    "statement_env \<Rightarrow> string \<Rightarrow> string \<Rightarrow> int \<Rightarrow> line_row \<Rightarrow> statement_db \<Rightarrow> statement_error + string \<times> statement_db" where
  "add_line env accountGuid currency denom line db =
     (let txGuid = fe_guid env (sd_guids db);
        stmtSplitGuid = fe_guid env (sd_guids db + 1);
        counterSplitGuid = fe_guid env (sd_guids db + 2)
      in case statementAmountToSplitValue (sl_amount line) denom of
        None \<Rightarrow> Inl NoBigIntValue
      | Some stmtValue \<Rightarrow>
          Inr (stmtSplitGuid, set_line (\<lambda>l. sl_id l = sl_id line) (\<lambda>l. l\<lparr>sl_state := ''added'', sl_split := Some stmtSplitGuid\<rparr>)
            (db\<lparr>sd_txs := sd_txs db @ [\<lparr>tx_guid = txGuid, tx_currency = currency, tx_num = '''', tx_post = Some (sl_date line),
                 tx_enter = Some (fe_now env), tx_desc = (if present (sl_description line) then the (sl_description line) else ''Statement import'')\<rparr>],
               sd_splits := sd_splits db @ [new_split stmtSplitGuid txGuid accountGuid stmtValue,
                 new_split counterSplitGuid txGuid (the (sl_suggested line)) (negateSplitValue stmtValue)],
               sd_guids := sd_guids db + 3\<rparr>)))"

fun add_lines ::
    "statement_env \<Rightarrow> string \<Rightarrow> string \<Rightarrow> int \<Rightarrow> line_row list \<Rightarrow> statement_db \<Rightarrow> statement_error + string list \<times> statement_db" where
  "add_lines env accountGuid currency denom [] db = Inr ([], db)"
| "add_lines env accountGuid currency denom (l # ls) db =
     bind_result (add_line env accountGuid currency denom l db) (\<lambda>(g, db1).
     bind_result (add_lines env accountGuid currency denom ls db1) (\<lambda>(gs, db2). Inr (g # gs, db2)))"

definition mark_statement_splits :: "int \<Rightarrow> string list \<Rightarrow> statement_db \<Rightarrow> statement_db" where
  "mark_statement_splits reconcileDate guids db = db\<lparr>sd_splits :=
     map (\<lambda>s. if sp_guid s \<in> set guids then s\<lparr>sp_state := ''y'', sp_date := Some reconcileDate\<rparr> else s) (sd_splits db)\<rparr>"

definition bump_parents :: "int \<Rightarrow> string list \<Rightarrow> statement_db \<Rightarrow> statement_db" where
  "bump_parents t guids db = (let parents = map sp_tx (filter (\<lambda>s. sp_guid s \<in> set guids) (sd_splits db))
     in db\<lparr>sd_txs := map (\<lambda>x. if tx_guid x \<in> set parents then x\<lparr>tx_enter := Some t\<rparr> else x) (sd_txs db)\<rparr>)"

text \<open>The writes, once the tie-out holds.\<close>

definition finalize_writes ::
    "statement_env \<Rightarrow> batch_row \<Rightarrow> string \<Rightarrow> string \<Rightarrow> int \<Rightarrow> (int \<times> string) list \<Rightarrow> string list \<Rightarrow> line_row list \<Rightarrow> tie_out \<Rightarrow> statement_db
      \<Rightarrow> statement_error + statement_result \<times> statement_db" where
  "finalize_writes env batch accountGuid currency denom autoMatches matchedSplitGuids addedLines tieOut db =
     bind_result (add_lines env accountGuid currency denom addedLines (foldl persist_match db autoMatches)) (\<lambda>(newGuids, db2).
       let reconcileDate = (case sb_end batch of Some d \<Rightarrow> d | None \<Rightarrow> fe_now env);
         statementSplitGuids = matchedSplitGuids @ newGuids;
         db3 = bump_parents (fe_now env) matchedSplitGuids (mark_statement_splits reconcileDate statementSplitGuids db2)
       in Inr (\<lparr>fr_added = length addedLines, fr_matched = length matchedSplitGuids,
            fr_reconciled = length statementSplitGuids, fr_tie_out = tieOut\<rparr>, db3))"

text \<open>The checks after the claim.\<close>

definition finalize_claimed ::
    "statement_env \<Rightarrow> batch_row \<Rightarrow> string \<Rightarrow> statement_db \<Rightarrow> statement_error + statement_result \<times> statement_db" where
  "finalize_claimed env batch accountGuid db =
     bind_result (account_currency env accountGuid) (\<lambda>(currency, denom).
       let lines = getLines (sb_id batch) db;
         explicitMatched = filter is_matched lines;
         addedLines = filter (\<lambda>l. sl_state l = ''added'') lines;
         missingCounterpart = filter (\<lambda>l. \<not> present (sl_suggested l)) addedLines
       in if missingCounterpart \<noteq> [] then Inl (MissingCounterpart (map sl_id missingCounterpart))
       else case fst (assertNotLocked (fe_now env) (fe_settings env) (sb_book batch)
              (map (\<lambda>l. DateValue (sl_date l)) addedLines) True (\<lambda>_. None)) of
         Inl e \<Rightarrow> Inl (StatementLocked e)
       | Inr _ \<Rightarrow>
         let autoMatches = mr_matched (auto_match env batch accountGuid lines db);
           matchedSplitGuids = map (\<lambda>l. the (sl_split l)) explicitMatched @ map snd autoMatches;
           matchedSplitsAmount = js_total (map split_amount (filter (\<lambda>s. sp_guid s \<in> set matchedSplitGuids) (sd_splits db)));
           addedLinesAmount = js_total (map sl_amount addedLines);
           tieOut = computeReconcileTieOut (effectiveOpeningBalance batch db) (sb_closing batch) matchedSplitsAmount addedLinesAmount
         in if ti_ties_out tieOut \<noteq> Some True then Inl (NotTiesOut tieOut)
         else finalize_writes env batch accountGuid currency denom autoMatches matchedSplitGuids addedLines tieOut db)"

definition finalizeReconcile :: "statement_env \<Rightarrow> batch_row \<Rightarrow> statement_db \<Rightarrow> statement_error + statement_result \<times> statement_db" where
  "finalizeReconcile env batch db =
     (if \<not> present (sb_account batch) then Inl NoAccount
      else bind_result (claimBatch (sb_id batch) db) (finalize_claimed env batch (the (sb_account batch))))"

section \<open>What a finalize writes\<close>

text \<open>The splits a finalize matches: those chosen by hand and the automatic ones.\<close>

definition claimed :: "int \<Rightarrow> statement_db \<Rightarrow> statement_db" where
  "claimed batchId db = db\<lparr>sd_batches := map (\<lambda>b. if sb_id b = batchId \<and> sb_status b \<noteq> ''reconciled'' \<and> sb_status b \<noteq> ''reconciling''
     then b\<lparr>sb_status := ''reconciled''\<rparr> else b) (sd_batches db)\<rparr>"

lemma claimed_same [simp]:
  "sd_lines (claimed i db) = sd_lines db" "sd_txs (claimed i db) = sd_txs db" "sd_splits (claimed i db) = sd_splits db"
  "sd_guids (claimed i db) = sd_guids db" "getLines j (claimed i db) = getLines j db" "post_date (claimed i db) = post_date db"
  "getCandidateSplits a b e (claimed i db) = getCandidateSplits a b e db" "auto_match env batch a ls (claimed i db) = auto_match env batch a ls db"
  "effectiveOpeningBalance batch (claimed i db) = effectiveOpeningBalance batch db"
  by (simp_all add: claimed_def getLines_def getCandidateSplits_def auto_match_def effectiveOpeningBalance_def post_date_def [abs_def] split: option.split)

definition matched_guids :: "statement_env \<Rightarrow> batch_row \<Rightarrow> statement_db \<Rightarrow> string list" where
  "matched_guids env batch db = (let lines = getLines (sb_id batch) db
     in map (\<lambda>l. the (sl_split l)) (filter is_matched lines) @
        map snd (mr_matched (auto_match env batch (the (sb_account batch)) lines db)))"

definition added_lines :: "batch_row \<Rightarrow> statement_db \<Rightarrow> line_row list" where
  "added_lines batch db = filter (\<lambda>l. sl_state l = ''added'') (getLines (sb_id batch) db)"

definition finalize_tie_out :: "statement_env \<Rightarrow> batch_row \<Rightarrow> statement_db \<Rightarrow> tie_out" where
  "finalize_tie_out env batch db = computeReconcileTieOut (effectiveOpeningBalance batch db) (sb_closing batch)
     (js_total (map split_amount (filter (\<lambda>s. sp_guid s \<in> set (matched_guids env batch db)) (sd_splits db))))
     (js_total (map sl_amount (added_lines batch db)))"

lemma persist_same [simp]:
  "sd_splits (foldl persist_match db ms) = sd_splits db" "sd_txs (foldl persist_match db ms) = sd_txs db"
  "sd_guids (foldl persist_match db ms) = sd_guids db" "sd_batches (foldl persist_match db ms) = sd_batches db"
  by (induction ms arbitrary: db) (simp_all add: persist_match_def set_line_def)

lemma claimBatch_Inr:
  "claimBatch batchId db = Inr db1 \<longleftrightarrow> db1 = claimed batchId db \<and>
     list_ex (\<lambda>b. sb_id b = batchId \<and> sb_status b \<noteq> ''reconciled'' \<and> sb_status b \<noteq> ''reconciling'') (sd_batches db)"
  by (auto simp: claimBatch_def claimed_def Let_def)

lemma finalize_claimed_Inr:
  assumes "finalize_claimed env batch acct db = Inr (r, db')" "sb_account batch = Some acct"
  obtains currency denom where "account_currency env acct = Inr (currency, denom)"
    "list_all (\<lambda>l. present (sl_suggested l)) (added_lines batch db)" "ti_ties_out (finalize_tie_out env batch db) = Some True"
    "finalize_writes env batch acct currency denom (mr_matched (auto_match env batch acct (getLines (sb_id batch) db) db))
       (matched_guids env batch db) (added_lines batch db) (finalize_tie_out env batch db) db = Inr (r, db')"
proof -
  obtain currency denom where cur: "account_currency env acct = Inr (currency, denom)"
    using assms(1) by (auto simp: finalize_claimed_def bind_result_Inr_iff)
  have guids: "matched_guids env batch db = map (\<lambda>l. the (sl_split l)) (filter is_matched (getLines (sb_id batch) db)) @
      map snd (mr_matched (auto_match env batch acct (getLines (sb_id batch) db) db))"
    by (simp add: matched_guids_def assms(2) Let_def)
  have ties: "finalize_tie_out env batch db = computeReconcileTieOut (effectiveOpeningBalance batch db) (sb_closing batch)
     (js_total (map split_amount (filter (\<lambda>s. sp_guid s \<in> set (matched_guids env batch db)) (sd_splits db))))
     (js_total (map sl_amount (added_lines batch db)))"
    by (rule finalize_tie_out_def)
  note run = assms(1) [unfolded finalize_claimed_def cur bind_result_simps prod.case Let_def, folded guids added_lines_def, folded ties]
  have no: "filter (\<lambda>l. \<not> present (sl_suggested l)) (added_lines batch db) = []" using run by (metis Inl_Inr_False)
  note run = run [unfolded no, simplified]
  have "ti_ties_out (finalize_tie_out env batch db) = Some True" using run by (auto split: sum.splits if_splits)
  then show thesis using that cur no run by (simp add: filter_empty_conv list_all_iff split: sum.splits)
qed

lemma finalizeReconcile_Inr:
  assumes "finalizeReconcile env batch db = Inr (r, db')"
  obtains acct currency denom gs db1 db2 where "sb_account batch = Some acct" "acct \<noteq> []"
    "list_ex (\<lambda>b. sb_id b = sb_id batch \<and> sb_status b \<noteq> ''reconciled'' \<and> sb_status b \<noteq> ''reconciling'') (sd_batches db)"
    "account_currency env acct = Inr (currency, denom)" "ti_ties_out (finalize_tie_out env batch db) = Some True"
    "sd_splits db1 = sd_splits db" "sd_txs db1 = sd_txs db" "sd_guids db1 = sd_guids db" "sd_batches db1 = sd_batches (claimed (sb_id batch) db)"
    "add_lines env acct currency denom (added_lines batch db) db1 = Inr (gs, db2)"
    "db' = bump_parents (fe_now env) (matched_guids env batch db)
       (mark_statement_splits (case sb_end batch of Some d \<Rightarrow> d | None \<Rightarrow> fe_now env) (matched_guids env batch db @ gs) db2)"
    "fr_reconciled r = length (matched_guids env batch db) + length gs"
proof -
  let ?c = "claimed (sb_id batch) db"
  have acct: "present (sb_account batch)" using assms by (auto simp: finalizeReconcile_def split: if_splits)
  then obtain acct where a: "sb_account batch = Some acct" "acct \<noteq> []" by (auto simp: present_def split: option.splits)
  have claim: "list_ex (\<lambda>b. sb_id b = sb_id batch \<and> sb_status b \<noteq> ''reconciled'' \<and> sb_status b \<noteq> ''reconciling'') (sd_batches db)"
      "finalize_claimed env batch acct ?c = Inr (r, db')"
    using assms acct a by (auto simp: finalizeReconcile_def bind_result_Inr_iff claimBatch_Inr)
  have same: "matched_guids env batch ?c = matched_guids env batch db" "added_lines batch ?c = added_lines batch db"
    "finalize_tie_out env batch ?c = finalize_tie_out env batch db"
    by (simp_all add: matched_guids_def added_lines_def finalize_tie_out_def)
  from finalize_claimed_Inr [OF claim(2) a(1)] obtain currency denom where w: "account_currency env acct = Inr (currency, denom)"
    "ti_ties_out (finalize_tie_out env batch db) = Some True"
    "finalize_writes env batch acct currency denom (mr_matched (auto_match env batch acct (getLines (sb_id batch) db) db))
       (matched_guids env batch db) (added_lines batch db) (finalize_tie_out env batch db) ?c = Inr (r, db')"
    unfolding same by (metis claimed_same(5,8))
  then obtain gs db2 where "add_lines env acct currency denom (added_lines batch db)
      (foldl persist_match ?c (mr_matched (auto_match env batch acct (getLines (sb_id batch) db) db))) = Inr (gs, db2)"
    "db' = bump_parents (fe_now env) (matched_guids env batch db)
       (mark_statement_splits (case sb_end batch of Some d \<Rightarrow> d | None \<Rightarrow> fe_now env) (matched_guids env batch db @ gs) db2)"
    "fr_reconciled r = length (matched_guids env batch db) + length gs"
    by (auto simp: finalize_writes_def bind_result_Inr_iff Let_def)
  then show thesis using a claim(1) w(1,2) by (intro that) simp_all
qed

text \<open>What the added lines write: per line a balanced pair, the first of which is handed out.\<close>

definition value_of :: "split_row list \<Rightarrow> int" where
  "value_of ss = (\<Sum>s \<leftarrow> ss. sp_vnum s)"

lemma add_line_Inr:
  assumes "add_line env acct currency denom l db = Inr (g, db')"
  obtains v tx where "statementAmountToSplitValue (sl_amount l) denom = Some v" "g = fe_guid env (sd_guids db + 1)"
    "sd_splits db' = sd_splits db @ [new_split g tx acct v,
       new_split (fe_guid env (sd_guids db + 2)) tx (the (sl_suggested l)) (negateSplitValue v)]"
    "sd_guids db' = sd_guids db + 3" "sd_batches db' = sd_batches db"
  using assms by (auto simp: add_line_def Let_def set_line_def split: option.splits)

lemma amount_of_cents:
  assumes "\<bar>k\<bar> \<le> 2 ^ 38"
  shows "statementAmountToSplitValue (money 100 k) 100 = Some (k, 100)"
proof -
  have "near 100 (1 / 4) (money 100 k) k" by (rule near_mono [OF near_money]) (use assms in auto)
  then show ?thesis using near_round [of 100 "money 100 k" k] assms by (simp add: statementAmountToSplitValue_def)
qed

lemma add_lines_writes:
  assumes "add_lines env acct currency 100 ls db = Inr (gs, db')" "inj (fe_guid env)"
    and "map sl_amount ls = map (money 100) ks" "list_all (\<lambda>k. \<bar>k\<bar> \<le> 2 ^ 38) ks"
  obtains new where "sd_splits db' = sd_splits db @ new" "set gs \<union> sp_guid ` set new \<subseteq> fe_guid env ` {sd_guids db..<sd_guids db'}"
    "list_all (\<lambda>s. sp_state s = ''n'' \<and> sp_vden s = 100) new" "list_all (\<lambda>s. sp_account s = acct) (filter (\<lambda>s. sp_guid s \<in> set gs) new)"
    "value_of (filter (\<lambda>s. sp_guid s \<in> set gs) new) = sum_list ks" "sd_guids db \<le> sd_guids db'" "sd_batches db' = sd_batches db"
  using assms(1,3,4)
proof (induction ls arbitrary: db gs ks thesis)
  case Nil
  from Nil(2,3) show ?case by (intro Nil(1) [of "[]"]) (auto simp: value_of_def)
next
  case (Cons l ls)
  from Cons.prems(2) obtain g db1 gs' where step: "add_line env acct currency 100 l db = Inr (g, db1)"
    "add_lines env acct currency 100 ls db1 = Inr (gs', db')" "gs = g # gs'"
    by (auto simp: bind_result_Inr_iff)
  from Cons.prems(3) obtain k ks' where ks: "ks = k # ks'" "sl_amount l = money 100 k" "map sl_amount ls = map (money 100) ks'"
    by (cases ks) auto
  let ?n = "sd_guids db"
  from step(1) obtain tx where one: "g = fe_guid env (?n + 1)" "sd_guids db1 = ?n + 3" "sd_batches db1 = sd_batches db"
    "sd_splits db1 = sd_splits db @ [new_split g tx acct (k, 100), new_split (fe_guid env (?n + 2)) tx (the (sl_suggested l)) (- k, 100)]"
  proof (rule add_line_Inr)
    fix v tx
    assume v: "statementAmountToSplitValue (sl_amount l) 100 = Some v"
    have "v = (k, 100)" using v amount_of_cents [of k] Cons.prems(4) by (simp add: ks)
    moreover assume "g = fe_guid env (?n + 1)" "sd_splits db1 = sd_splits db @ [new_split g tx acct v,
       new_split (fe_guid env (?n + 2)) tx (the (sl_suggested l)) (negateSplitValue v)]" "sd_guids db1 = ?n + 3" "sd_batches db1 = sd_batches db"
    ultimately show thesis using that by (simp add: negateSplitValue_def)
  qed
  show ?case
  proof (rule Cons.IH [OF _ step(2) ks(3)])
    fix new
    assume new: "sd_splits db' = sd_splits db1 @ new" "set gs' \<union> sp_guid ` set new \<subseteq> fe_guid env ` {sd_guids db1..<sd_guids db'}"
      "list_all (\<lambda>s. sp_state s = ''n'' \<and> sp_vden s = 100) new" "list_all (\<lambda>s. sp_account s = acct) (filter (\<lambda>s. sp_guid s \<in> set gs') new)"
      "value_of (filter (\<lambda>s. sp_guid s \<in> set gs') new) = sum_list ks'" "sd_guids db1 \<le> sd_guids db'" "sd_batches db' = sd_batches db1"
    let ?r1 = "new_split g tx acct (k, 100)" and ?r2 = "new_split (fe_guid env (?n + 2)) tx (the (sl_suggested l)) (- k, 100)"
    have later: "x \<notin> set gs' \<union> sp_guid ` set new" if "x = fe_guid env i" "i < ?n + 3" for x i
    proof
      assume "x \<in> set gs' \<union> sp_guid ` set new"
      then have "x \<in> fe_guid env ` {sd_guids db1..<sd_guids db'}" using new(2) by (rule rev_subsetD)
      then obtain j where "x = fe_guid env j" "j \<in> {sd_guids db1..<sd_guids db'}" by (rule imageE)
      then show False using that injD [OF assms(2), of i j] one(2) by simp
    qed
    have "fe_guid env (?n + 2) \<noteq> g" using injD [OF assms(2), of "?n + 2" "?n + 1"] unfolding one(1) by auto
    then have keep: "filter (\<lambda>s. sp_guid s \<in> set gs) (?r1 # ?r2 # new) = ?r1 # filter (\<lambda>s. sp_guid s \<in> set gs') new"
      using later [OF one(1)] later [of "fe_guid env (?n + 2)" "?n + 2"]
      by (auto simp: step(3) new_split_def intro!: filter_cong)
    show ?case
    proof (rule Cons.prems(1) [of "?r1 # ?r2 # new"])
      show "set gs \<union> sp_guid ` set (?r1 # ?r2 # new) \<subseteq> fe_guid env ` {?n..<sd_guids db'}"
      proof -
        have "set gs' \<union> sp_guid ` set new \<subseteq> fe_guid env ` {?n..<sd_guids db'}"
          by (rule order_trans [OF new(2) image_mono]) (simp add: one(2))
        moreover have "fe_guid env (?n + 1) \<in> fe_guid env ` {?n..<sd_guids db'}" "fe_guid env (?n + 2) \<in> fe_guid env ` {?n..<sd_guids db'}"
          using new(6) one(2) by (auto intro!: imageI)
        ultimately show ?thesis by (simp add: step(3) one(1) new_split_def)
      qed
      show "list_all (\<lambda>s. sp_account s = acct) (filter (\<lambda>s. sp_guid s \<in> set gs) (?r1 # ?r2 # new))"
        using new(4) unfolding keep by (simp add: new_split_def)
      show "value_of (filter (\<lambda>s. sp_guid s \<in> set gs) (?r1 # ?r2 # new)) = sum_list ks"
        using new(5) unfolding keep by (simp add: value_of_def new_split_def ks(1))
      show "sd_splits db' = sd_splits db @ ?r1 # ?r2 # new" using new(1) one(4) by simp
      show "list_all (\<lambda>s. sp_state s = ''n'' \<and> sp_vden s = 100) (?r1 # ?r2 # new)" using new(3) by (simp add: new_split_def)
      show "sd_guids db \<le> sd_guids db'" "sd_batches db' = sd_batches db" using new(6,7) one(2,3) by simp_all
    qed
  qed (use Cons.prems(4) ks(1) in auto)
qed

section \<open>The reconciled balance moves by what the statement says\<close>

lemma split_amount_cents: "sp_vden s = 100 \<Longrightarrow> \<bar>sp_vnum s\<bar> \<le> 2 ^ 38 \<Longrightarrow> split_amount s = money 100 (sp_vnum s)"
  using fl_int [of "sp_vnum s"] fl_int [of 100] by (simp add: split_amount_def splitValueToStatementAmount_def money_def js_eq_def)

lemma abs_member_le: "x \<in> set xs \<Longrightarrow> \<bar>f x\<bar> \<le> (\<Sum>x \<leftarrow> xs. \<bar>f x\<bar>)" for f :: "'a \<Rightarrow> int"
proof (induction xs)
  case (Cons y xs)
  have "0 \<le> (\<Sum>x \<leftarrow> xs. \<bar>f x\<bar>)" by (rule sum_list_nonneg) auto
  then show ?case using Cons by auto
qed simp

lemma abs_filter_le: "(\<Sum>x \<leftarrow> filter P xs. \<bar>f x\<bar>) \<le> (\<Sum>x \<leftarrow> xs. \<bar>f x\<bar>)" for f :: "'a \<Rightarrow> int"
  by (induction xs) auto

text \<open>The sum of some of an account's splits, each over hundredths.\<close>

lemma total_near:
  assumes "list_all (\<lambda>s. sp_vden s = 100) own" "length own \<le> 1024" "(\<Sum>s \<leftarrow> own. \<bar>sp_vnum s\<bar>) \<le> 2 ^ 38"
  shows "near 100 (1 / 8 + 1 / 2 ^ 20) (js_total (map split_amount (filter P own))) (value_of (filter P own))"
    "\<bar>value_of (filter P own)\<bar> \<le> 2 ^ 38"
proof -
  let ?ks = "map sp_vnum (filter P own)"
  have "split_amount s = money 100 (sp_vnum s)" if "s \<in> set own" for s
    using that assms(1) abs_member_le [OF that, of sp_vnum] assms(3) by (intro split_amount_cents) (auto simp: list_all_iff)
  then have amounts: "map split_amount (filter P own) = map (money 100) ?ks" by simp
  have abs: "sum_list (map abs ?ks) \<le> 2 ^ 38" using abs_filter_le [of sp_vnum P own] assms(3) by (simp add: comp_def)
  have "length ?ks \<le> 1024" using order_trans [OF length_filter_le assms(2), of P] by simp
  from near_sum_tight [OF _ _ this abs, of 100]
  show "near 100 (1 / 8 + 1 / 2 ^ 20) (js_total (map split_amount (filter P own))) (value_of (filter P own))"
    unfolding amounts by (simp add: js_total_def value_of_def)
  show "\<bar>value_of (filter P own)\<bar> \<le> 2 ^ 38" using abs_sum_le [OF abs] by (simp add: value_of_def)
qed

lemma auto_match_candidates:
  assumes "g \<in> snd ` set (mr_matched (auto_match env batch acct ls db))"
  shows "\<exists>s \<in> set (sd_splits db). sp_guid s = g \<and> sp_account s = acct \<and> sp_state s \<noteq> ''y''"
proof -
  obtain start stop where range: "computeRange env batch ls = (start, stop)" by fastforce
  from assms obtain i where "(i, g) \<in> set (mr_matched (auto_match env batch acct ls db))" by auto
  from matching_facts(3) [OF this [unfolded auto_match_def range Let_def prod.case]]
  show ?thesis by (auto simp: getCandidateSplits_def)
qed

lemma value_of_append [simp]: "value_of (xs @ ys) = value_of xs + value_of ys"
  by (simp add: value_of_def)

lemma value_of_disjoint:
  "(\<And>s. s \<in> set ss \<Longrightarrow> P s \<Longrightarrow> \<not> Q s) \<Longrightarrow> value_of (filter (\<lambda>s. P s \<or> Q s) ss) = value_of (filter P ss) + value_of (filter Q ss)"
  by (induction ss) (auto simp: value_of_def)

lemma value_of_mark:
  "value_of (filter P (map (\<lambda>s. if Q s then s\<lparr>sp_state := y, sp_date := d\<rparr> else s) ss)) =
   value_of (filter (\<lambda>s. P (if Q s then s\<lparr>sp_state := y, sp_date := d\<rparr> else s)) ss)"
  by (induction ss) (auto simp: value_of_def)

text \<open>Every split chosen by hand is an open split of the account.\<close>

definition choices_open :: "string \<Rightarrow> batch_row \<Rightarrow> statement_db \<Rightarrow> bool" where
  "choices_open acct batch db \<longleftrightarrow> list_all (\<lambda>l. is_matched l \<longrightarrow>
     list_ex (\<lambda>s. sp_guid s = the (sl_split l) \<and> sp_account s = acct \<and> sp_state s \<noteq> ''y'') (sd_splits db)) (getLines (sb_id batch) db)"

lemma matched_open:
  assumes "choices_open acct batch db" "sb_account batch = Some acct" "distinct (map sp_guid (sd_splits db))"
  shows "s \<in> set (sd_splits db) \<Longrightarrow> sp_guid s \<in> set (matched_guids env batch db) \<Longrightarrow> sp_account s = acct \<and> sp_state s \<noteq> ''y''"
    "g \<in> set (matched_guids env batch db) \<Longrightarrow> g \<in> sp_guid ` set (sd_splits db)"
proof -
  have ok: "\<exists>s \<in> set (sd_splits db). sp_guid s = g \<and> sp_account s = acct \<and> sp_state s \<noteq> ''y''" if "g \<in> set (matched_guids env batch db)" for g
    using that assms(1) auto_match_candidates [of g env batch acct "getLines (sb_id batch) db" db]
    by (auto simp: matched_guids_def assms(2) Let_def choices_open_def list_all_iff list_ex_iff)
  show "s \<in> set (sd_splits db) \<Longrightarrow> sp_guid s \<in> set (matched_guids env batch db) \<Longrightarrow> sp_account s = acct \<and> sp_state s \<noteq> ''y''"
    using ok [of "sp_guid s"] assms(3) by (auto simp: distinct_map dest: inj_onD)
  show "g \<in> set (matched_guids env batch db) \<Longrightarrow> g \<in> sp_guid ` set (sd_splits db)" using ok [of g] by auto
qed

lemma marked_value:
  assumes "sd_splits db' = map (\<lambda>s. if sp_guid s \<in> M \<union> G then s\<lparr>sp_state := ''y'', sp_date := d\<rparr> else s) (old @ new)"
    and "\<And>s. s \<in> set old \<Longrightarrow> sp_guid s \<in> M \<Longrightarrow> sp_account s = acct \<and> sp_state s \<noteq> ''y''"
    and "\<And>s. s \<in> set old \<Longrightarrow> sp_guid s \<notin> G" "\<And>s. s \<in> set new \<Longrightarrow> sp_guid s \<notin> M"
    and "list_all (\<lambda>s. sp_state s = ''n'' \<and> sp_vden s = 100) new" "list_all (\<lambda>s. sp_account s = acct) (filter (\<lambda>s. sp_guid s \<in> G) new)"
  shows "value_of (reconciled_rows acct (sd_splits db')) =
    value_of (reconciled_rows acct old) + value_of (filter (\<lambda>s. sp_guid s \<in> M) old) + value_of (filter (\<lambda>s. sp_guid s \<in> G) new)"
proof -
  let ?y = "\<lambda>s. sp_account s = acct \<and> sp_state s = ''y''"
  let ?mark = "\<lambda>s. if sp_guid s \<in> M \<union> G then s\<lparr>sp_state := ''y'', sp_date := d\<rparr> else s"
  have "value_of (filter (\<lambda>s. ?y (?mark s)) old) = value_of (filter (\<lambda>s. ?y s \<or> sp_guid s \<in> M) old)"
    using assms(2,3) by (intro arg_cong [of _ _ value_of] filter_cong) auto
  also have "\<dots> = value_of (filter ?y old) + value_of (filter (\<lambda>s. sp_guid s \<in> M) old)"
    using assms(2) by (intro value_of_disjoint) blast
  finally have o': "value_of (filter (\<lambda>s. ?y (?mark s)) old) = value_of (filter ?y old) + value_of (filter (\<lambda>s. sp_guid s \<in> M) old)" .
  have n: "value_of (filter (\<lambda>s. ?y (?mark s)) new) = value_of (filter (\<lambda>s. sp_guid s \<in> G) new)"
    using assms(4-6) by (intro arg_cong [of _ _ value_of] filter_cong) (auto simp: list_all_iff)
  show ?thesis unfolding assms(1) reconciled_rows_def map_append filter_append value_of_append value_of_mark o' n by simp
qed


section \<open>What a finalize keeps\<close>

lemma add_lines_tx_value:
  "add_lines env acct currency denom ls db = Inr (gs, db') \<Longrightarrow> tx_value g (sd_splits db') = tx_value g (sd_splits db) \<and> sd_batches db' = sd_batches db"
proof (induction ls arbitrary: db gs)
  case (Cons l ls)
  then obtain x db1 gs' where step: "add_line env acct currency denom l db = Inr (x, db1)" "add_lines env acct currency denom ls db1 = Inr (gs', db')"
    by (auto simp: bind_result_Inr_iff)
  have "tx_value g (sd_splits db1) = tx_value g (sd_splits db) \<and> sd_batches db1 = sd_batches db"
    using step(1) by (rule add_line_Inr) (simp add: tx_value_def new_split_def negateSplitValue_def)
  then show ?case using Cons.IH [OF step(2)] by simp
qed simp

lemma mark_tx_value: "tx_value g (map (\<lambda>s. if P s then s\<lparr>sp_state := y, sp_date := d\<rparr> else s) ss) = tx_value g ss"
  by (induction ss) (simp_all add: tx_value_def)

text \<open>
  C25. A finalize keeps every transaction as balanced as it was: whatever is matched and added, the
  splits of each transaction sum to what they summed to before, which for a transaction
  written here is zero.
\<close>
theorem statement_finalize_keeps_balance:
  assumes "finalizeReconcile env batch db = Inr (r, db')"
  shows "tx_value g (sd_splits db') = tx_value g (sd_splits db)"
  using assms
  by (rule finalizeReconcile_Inr)
    (simp add: bump_parents_def mark_statement_splits_def Let_def mark_tx_value add_lines_tx_value)

text \<open>
  C26. A batch is finalized once: after a finalize, another one of the same batch, in any later state
  of the other tables and with any copy of its row, is refused.
\<close>
theorem statement_finalized_once:
  assumes "finalizeReconcile env batch db = Inr (r, db')" "sd_batches later = sd_batches db'" "sb_id again = sb_id batch"
    and "present (sb_account again)"
  shows "finalizeReconcile env' again later = Inl AlreadyFinalized"
  using assms(1)
proof (rule finalizeReconcile_Inr)
  fix acct currency denom gs db1 db2
  assume "sd_batches db1 = sd_batches (claimed (sb_id batch) db)" "add_lines env acct currency denom (added_lines batch db) db1 = Inr (gs, db2)"
    "db' = bump_parents (fe_now env) (matched_guids env batch db)
       (mark_statement_splits (case sb_end batch of Some d \<Rightarrow> d | None \<Rightarrow> fe_now env) (matched_guids env batch db @ gs) db2)"
  then have "sd_batches db' = sd_batches (claimed (sb_id batch) db)"
    by (simp add: bump_parents_def mark_statement_splits_def Let_def add_lines_tx_value)
  then have "\<not> list_ex (\<lambda>b. sb_id b = sb_id again \<and> sb_status b \<noteq> ''reconciled'' \<and> sb_status b \<noteq> ''reconciling'') (sd_batches later)"
    by (auto simp: assms(2,3) claimed_def list_ex_iff)
  then show ?thesis using assms(4) by (simp add: finalizeReconcile_def claimBatch_def Let_def)
qed

section \<open>The view promises what the finalize checks\<close>

lemma candidate_row:
  assumes "c \<in> set (getCandidateSplits acct start stop db)"
  shows "\<exists>s \<in> set (sd_splits db). sp_guid s = ca_guid c \<and> sp_account s = acct \<and> sp_state s \<noteq> ''y'' \<and> ca_amount c = split_amount s"
  using assms by (auto simp: getCandidateSplits_def)

definition row_of :: "statement_db \<Rightarrow> string \<Rightarrow> split_row" where
  "row_of db g = the (find (\<lambda>s. sp_guid s = g) (sd_splits db))"

lemma row_of_member: "distinct (map sp_guid (sd_splits db)) \<Longrightarrow> s \<in> set (sd_splits db) \<Longrightarrow> row_of db (sp_guid s) = s"
proof -
  assume d: "distinct (map sp_guid (sd_splits db))" and s: "s \<in> set (sd_splits db)"
  then obtain t where t: "find (\<lambda>t. sp_guid t = sp_guid s) (sd_splits db) = Some t"
    by (cases "find (\<lambda>t. sp_guid t = sp_guid s) (sd_splits db)") (auto simp: find_None_iff)
  then have "t \<in> set (sd_splits db)" "sp_guid t = sp_guid s" by (auto simp: find_Some_iff)
  then have "t = s" using d s by (auto simp: distinct_map dest: inj_onD)
  then show "row_of db (sp_guid s) = s" by (simp add: row_of_def t)
qed

lemma find_candidate_amount:
  assumes "find_candidate (getCandidateSplits acct start stop db) g = Some c" "distinct (map sp_guid (sd_splits db))"
  shows "ca_amount c = split_amount (row_of db g)"
proof -
  have "c \<in> set (getCandidateSplits acct start stop db)" "ca_guid c = g" using assms(1) by (auto simp: find_candidate_def find_Some_iff)
  with candidate_row [OF this(1)] show ?thesis using row_of_member [OF assms(2)] by (metis (no_types))
qed

text \<open>The candidates a batch is matched over.\<close>

definition batch_candidates :: "statement_env \<Rightarrow> batch_row \<Rightarrow> statement_db \<Rightarrow> ledger_candidate list" where
  "batch_candidates env batch db = (case computeRange env batch (getLines (sb_id batch) db) of
     (start, stop) \<Rightarrow> getCandidateSplits (the (sb_account batch)) start stop db)"

text \<open>Every split chosen by hand is a candidate, and none is chosen twice.\<close>

definition choices_shown :: "statement_env \<Rightarrow> batch_row \<Rightarrow> statement_db \<Rightarrow> bool" where
  "choices_shown env batch db \<longleftrightarrow> (let chosen = map (\<lambda>l. the (sl_split l)) (filter is_matched (getLines (sb_id batch) db))
     in distinct chosen \<and> set chosen \<subseteq> set (map ca_guid (batch_candidates env batch db)))"

lemma auto_pool:
  assumes "(i, g) \<in> set (mr_matched (auto_match env batch (the (sb_account batch)) (getLines (sb_id batch) db) db))"
  shows "g \<in> set (map ca_guid (batch_candidates env batch db))"
    "g \<notin> set (map (\<lambda>l. the (sl_split l)) (filter is_matched (getLines (sb_id batch) db)))"
proof -
  obtain start stop where range: "computeRange env batch (getLines (sb_id batch) db) = (start, stop)" by fastforce
  note in_pool = matching_facts(3) [OF assms [unfolded auto_match_def range Let_def prod.case]]
  show "g \<in> set (map ca_guid (batch_candidates env batch db))" using in_pool by (auto simp: batch_candidates_def range)
  show "g \<notin> set (map (\<lambda>l. the (sl_split l)) (filter is_matched (getLines (sb_id batch) db)))" using in_pool by auto
qed

lemma matched_distinct:
  assumes "choices_shown env batch db"
  shows "distinct (matched_guids env batch db)" "set (matched_guids env batch db) \<subseteq> set (map ca_guid (batch_candidates env batch db))"
proof -
  obtain start stop where range: "computeRange env batch (getLines (sb_id batch) db) = (start, stop)" by fastforce
  have d: "distinct (map snd (mr_matched (auto_match env batch (the (sb_account batch)) (getLines (sb_id batch) db) db)))"
    unfolding auto_match_def range Let_def prod.case by (rule matching_facts(1))
  show "distinct (matched_guids env batch db)"
    using assms d auto_pool(2) by (fastforce simp: matched_guids_def choices_shown_def Let_def)
  show "set (matched_guids env batch db) \<subseteq> set (map ca_guid (batch_candidates env batch db))"
    using assms auto_pool(1) by (fastforce simp: matched_guids_def choices_shown_def Let_def)
qed

lemma view_amounts:
  assumes "buildReconcileView env batch db = Inr v" "choices_shown env batch db" "distinct (map sp_guid (sd_splits db))"
  shows "map mv_amount (rv_matched v) = map (\<lambda>g. split_amount (row_of db g)) (matched_guids env batch db)"
    "rv_tie_out v = computeReconcileTieOut (effectiveOpeningBalance batch db) (sb_closing batch)
       (js_total (map mv_amount (rv_matched v))) (js_total (map sl_amount (added_lines batch db)))"
proof -
  obtain start stop where range: "computeRange env batch (getLines (sb_id batch) db) = (start, stop)" by fastforce
  let ?cs = "getCandidateSplits (the (sb_account batch)) start stop db"
  have cs: "batch_candidates env batch db = ?cs" by (simp add: batch_candidates_def range)
  have v: "rv_matched v = map (explicit_view ?cs) (filter is_matched (getLines (sb_id batch) db)) @
      map (auto_view ?cs) (mr_matched (auto_match env batch (the (sb_account batch)) (getLines (sb_id batch) db) db))"
    "rv_tie_out v = computeReconcileTieOut (effectiveOpeningBalance batch db) (sb_closing batch)
       (js_total (map mv_amount (rv_matched v))) (js_total (map sl_amount (added_lines batch db)))"
    using assms(1) by (auto simp: buildReconcileView_def range Let_def added_lines_def split: if_splits)
  show "rv_tie_out v = computeReconcileTieOut (effectiveOpeningBalance batch db) (sb_closing batch)
       (js_total (map mv_amount (rv_matched v))) (js_total (map sl_amount (added_lines batch db)))" by (rule v(2))
  have found: "\<exists>c. find_candidate ?cs g = Some c \<and> ca_amount c = split_amount (row_of db g)" if g: "g \<in> set (map ca_guid ?cs)" for g
  proof -
    obtain c where "c \<in> set ?cs" "ca_guid c = g" using g unfolding set_map by blast
    then have "find_candidate ?cs g \<noteq> None" unfolding find_candidate_def find_None_iff by blast
    then obtain c where "find_candidate ?cs g = Some c" by blast
    then show ?thesis using find_candidate_amount [OF _ assms(3)] by blast
  qed
  have "mv_amount (explicit_view ?cs l) = split_amount (row_of db (the (sl_split l)))" if "l \<in> set (filter is_matched (getLines (sb_id batch) db))" for l
  proof -
    have "the (sl_split l) \<in> set (map ca_guid ?cs)" using that assms(2) by (auto simp: choices_shown_def cs Let_def)
    from found [OF this] show ?thesis by (auto simp: explicit_view_def)
  qed
  moreover have "mv_amount (auto_view ?cs m) = split_amount (row_of db (snd m))"
    if "m \<in> set (mr_matched (auto_match env batch (the (sb_account batch)) (getLines (sb_id batch) db) db))" for m
    using found [of "snd m"] auto_pool(1) [of "fst m" "snd m" env batch db] that by (auto simp: auto_view_def cs)
  ultimately show "map mv_amount (rv_matched v) = map (\<lambda>g. split_amount (row_of db g)) (matched_guids env batch db)"
    by (simp add: v(1) matched_guids_def Let_def)
qed

lemma rows_of_guids:
  assumes "distinct gs" "distinct (map sp_guid (sd_splits db))" "set gs \<subseteq> sp_guid ` set (sd_splits db)"
  shows "mset (map (row_of db) gs) = mset (filter (\<lambda>s. sp_guid s \<in> set gs) (sd_splits db))"
proof -
  have rows: "row_of db (sp_guid s) = s" if "s \<in> set (sd_splits db)" for s using row_of_member [OF assms(2) that] .
  have "inj_on (row_of db) (set gs)"
  proof (rule inj_onI)
    fix x y assume "x \<in> set gs" "y \<in> set gs" "row_of db x = row_of db y"
    moreover from this assms(3) obtain s t where "s \<in> set (sd_splits db)" "x = sp_guid s" "t \<in> set (sd_splits db)" "y = sp_guid t" by blast
    ultimately show "x = y" using rows by metis
  qed
  then have "distinct (map (row_of db) gs)" using assms(1) by (simp add: distinct_map)
  moreover have "distinct (filter (\<lambda>s. sp_guid s \<in> set gs) (sd_splits db))" using assms(2) by (simp add: distinct_map)
  moreover have "set (map (row_of db) gs) = set (filter (\<lambda>s. sp_guid s \<in> set gs) (sd_splits db))"
    using assms(3) rows by (force simp: image_iff)
  ultimately show ?thesis by (simp only: set_eq_iff_mset_eq_distinct)
qed

lemma opening_near:
  assumes "sb_opening batch = None \<or> sb_opening batch = Some (money 100 i) \<and> \<bar>i\<bar> \<le> 2 ^ 38" "sb_account batch = Some acct" "acct \<noteq> []"
    and own: "own = filter (\<lambda>s. sp_account s = acct) (sd_splits db)"
    and "list_all (\<lambda>s. sp_vden s = 100) own" "length own \<le> 1024" "(\<Sum>s \<leftarrow> own. \<bar>sp_vnum s\<bar>) \<le> 2 ^ 38"
  shows "\<exists>v j. effectiveOpeningBalance batch db = Some v \<and> near 100 (1 / 8 + 1 / 2 ^ 20) v j \<and> \<bar>j\<bar> \<le> 2 ^ 38"
proof (cases "sb_opening batch")
  case None
  have "reconciled_rows acct (sd_splits db) = filter (\<lambda>s. sp_state s = ''y'') own"
    by (simp add: own reconciled_rows_def conj_commute)
  then show ?thesis using total_near [OF assms(5-7), of "\<lambda>s. sp_state s = ''y''"] assms(2,3) None
    by (auto simp: effectiveOpeningBalance_def present_def)
next
  case (Some v)
  then have v: "v = money 100 i" "\<bar>i\<bar> \<le> 2 ^ 38" using assms(1) by auto
  then have "near 100 (1 / 8 + 1 / 2 ^ 20) v i" unfolding v(1) by (intro near_mono [OF near_money]) auto
  then show ?thesis using Some v(2) by (auto simp: effectiveOpeningBalance_def)
qed


section \<open>When a finalize goes through\<close>

lemma add_lines_runs:
  "(\<exists>gs db'. add_lines env acct currency denom ls db = Inr (gs, db')) \<longleftrightarrow>
   list_all (\<lambda>l. statementAmountToSplitValue (sl_amount l) denom \<noteq> None) ls"
proof (induction ls arbitrary: db)
  case (Cons l ls)
  show ?case
  proof (cases "statementAmountToSplitValue (sl_amount l) denom")
    case None
    then show ?thesis by (simp add: add_line_def Let_def)
  next
    case (Some v)
    then obtain g db1 where "add_line env acct currency denom l db = Inr (g, db1)" by (simp add: add_line_def Let_def)
    moreover have "(\<exists>gs db'. bind_result (add_lines env acct currency denom ls db1) (\<lambda>(gs, db2). Inr (g # gs, db2)) = Inr (gs, db')) \<longleftrightarrow>
        (\<exists>gs db'. add_lines env acct currency denom ls db1 = Inr (gs, db'))"
      by (auto simp: bind_result_Inr_iff split: prod.splits)
    ultimately show ?thesis using Cons.IH [of db1] Some by simp
  qed
qed simp

lemma finalize_writes_runs:
  "(\<exists>r db'. finalize_writes env batch acct currency denom auto gs added t db = Inr (r, db')) \<longleftrightarrow>
   list_all (\<lambda>l. statementAmountToSplitValue (sl_amount l) denom \<noteq> None) added"
  unfolding add_lines_runs [of env acct currency denom added "foldl persist_match db auto", symmetric]
  by (force simp: finalize_writes_def bind_result_Inr_iff Let_def)

definition period_open :: "statement_env \<Rightarrow> batch_row \<Rightarrow> statement_db \<Rightarrow> bool" where
  "period_open env batch db \<longleftrightarrow> fst (assertNotLocked (fe_now env) (fe_settings env) (sb_book batch)
     (map (\<lambda>l. DateValue (sl_date l)) (added_lines batch db)) True (\<lambda>_. None)) = Inr ()"

lemma finalize_claimed_runs:
  assumes "sb_account batch = Some acct"
  shows "(\<exists>r db'. finalize_claimed env batch acct db = Inr (r, db')) \<longleftrightarrow>
    (\<exists>currency denom. account_currency env acct = Inr (currency, denom) \<and>
       list_all (\<lambda>l. statementAmountToSplitValue (sl_amount l) denom \<noteq> None) (added_lines batch db)) \<and>
    list_all (\<lambda>l. present (sl_suggested l)) (added_lines batch db) \<and> period_open env batch db \<and>
    ti_ties_out (finalize_tie_out env batch db) = Some True"
proof (cases "account_currency env acct")
  case (Inr p)
  obtain currency denom where p: "p = (currency, denom)" by fastforce
  have guids: "matched_guids env batch db = map (\<lambda>l. the (sl_split l)) (filter is_matched (getLines (sb_id batch) db)) @
      map snd (mr_matched (auto_match env batch acct (getLines (sb_id batch) db) db))"
    by (simp add: matched_guids_def assms Let_def)
  have ties: "finalize_tie_out env batch db = computeReconcileTieOut (effectiveOpeningBalance batch db) (sb_closing batch)
     (js_total (map split_amount (filter (\<lambda>s. sp_guid s \<in> set (matched_guids env batch db)) (sd_splits db))))
     (js_total (map sl_amount (added_lines batch db)))"
    by (rule finalize_tie_out_def)
  have run: "finalize_claimed env batch acct db =
     (if filter (\<lambda>l. \<not> present (sl_suggested l)) (added_lines batch db) \<noteq> []
      then Inl (MissingCounterpart (map sl_id (filter (\<lambda>l. \<not> present (sl_suggested l)) (added_lines batch db))))
      else case fst (assertNotLocked (fe_now env) (fe_settings env) (sb_book batch)
             (map (\<lambda>l. DateValue (sl_date l)) (added_lines batch db)) True (\<lambda>_. None)) of
        Inl e \<Rightarrow> Inl (StatementLocked e)
      | Inr _ \<Rightarrow> if ti_ties_out (finalize_tie_out env batch db) \<noteq> Some True then Inl (NotTiesOut (finalize_tie_out env batch db))
         else finalize_writes env batch acct currency denom (mr_matched (auto_match env batch acct (getLines (sb_id batch) db) db))
           (matched_guids env batch db) (added_lines batch db) (finalize_tie_out env batch db) db)"
    unfolding finalize_claimed_def Inr p bind_result_simps prod.case Let_def guids [symmetric] added_lines_def [symmetric] ties [symmetric] ..
  show ?thesis unfolding run using finalize_writes_runs [of env batch acct currency denom]
    by (auto simp: Inr p period_open_def filter_empty_conv list_all_iff split: sum.splits)
qed (simp add: finalize_claimed_def)

lemma finalize_runs:
  "(\<exists>r db'. finalizeReconcile env batch db = Inr (r, db')) \<longleftrightarrow>
    present (sb_account batch) \<and>
    list_ex (\<lambda>b. sb_id b = sb_id batch \<and> sb_status b \<noteq> ''reconciled'' \<and> sb_status b \<noteq> ''reconciling'') (sd_batches db) \<and>
    (\<exists>currency denom. account_currency env (the (sb_account batch)) = Inr (currency, denom) \<and>
       list_all (\<lambda>l. statementAmountToSplitValue (sl_amount l) denom \<noteq> None) (added_lines batch db)) \<and>
    list_all (\<lambda>l. present (sl_suggested l)) (added_lines batch db) \<and> period_open env batch db \<and>
    ti_ties_out (finalize_tie_out env batch db) = Some True"
proof (cases "sb_account batch")
  case (Some acct)
  have same: "added_lines batch (claimed (sb_id batch) db) = added_lines batch db"
    "finalize_tie_out env batch (claimed (sb_id batch) db) = finalize_tie_out env batch db"
    "period_open env batch (claimed (sb_id batch) db) = period_open env batch db"
    by (simp_all add: matched_guids_def added_lines_def finalize_tie_out_def period_open_def)
  have "(\<exists>r db'. finalizeReconcile env batch db = Inr (r, db')) \<longleftrightarrow> present (sb_account batch) \<and>
      (\<exists>db1. claimBatch (sb_id batch) db = Inr db1 \<and> (\<exists>r db'. finalize_claimed env batch acct db1 = Inr (r, db')))"
    by (auto simp: finalizeReconcile_def Some bind_result_Inr_iff)
  then show ?thesis unfolding finalize_claimed_runs [OF Some] by (simp add: claimBatch_Inr same Some)
qed (simp add: finalizeReconcile_def present_def)


section \<open>A statement of two lines\<close>

text \<open>A deposit of 50.00 matched by hand and a fee of 20.00 to be added, closing at 30.00.\<close>

definition bank_split :: "string \<Rightarrow> string \<Rightarrow> int \<Rightarrow> split_row" where
  "bank_split g account v = new_split g ''t'' account (v, 100)"

definition bank_line :: "int \<Rightarrow> int \<Rightarrow> string \<Rightarrow> string option \<Rightarrow> line_row" where
  "bank_line i cents state g = \<lparr>sl_id = i, sl_batch = 7, sl_date = 0, sl_description = None, sl_amount = money 100 cents,
     sl_split = g, sl_state = state, sl_suggested = Some ''fees''\<rparr>"

definition bank_batch :: "js_number option \<Rightarrow> batch_row" where
  "bank_batch closing = \<lparr>sb_id = 7, sb_book = ''b'', sb_account = Some ''bank'', sb_status = ''parsed'', sb_start = Some 0, sb_end = Some 0,
     sb_opening = None, sb_closing = closing\<rparr>"

definition bank_env :: statement_env where
  "bank_env = \<lparr>fe_now = 0, fe_guid = (\<lambda>n. CHR ''g'' # replicate n CHR ''x''), fe_accounts = (\<lambda>_. Some (Some ''EUR'', 100)),
     fe_settings = (\<lambda>_. None), fe_rules = (\<lambda>_ _. None)\<rparr>"

definition bank_db :: "line_row list \<Rightarrow> batch_row \<Rightarrow> statement_db" where
  "bank_db lines batch = \<lparr>sd_batches = [batch], sd_lines = lines,
     sd_txs = [\<lparr>tx_guid = ''t'', tx_currency = ''EUR'', tx_num = '''', tx_post = Some 0, tx_enter = None, tx_desc = ''Deposit''\<rparr>],
     sd_splits = [bank_split ''s1'' ''bank'' 5000, bank_split ''s2'' ''income'' (-5000)], sd_guids = 0\<rparr>"

lemma bank_money: "money 100 5000 = JFin 50" "money 100 (-2000) = JFin (-20)" "money 100 3000 = JFin 30" "money 100 (-5000) = JFin (-50)"
  using fl_int [of 50] fl_int [of "-20"] fl_int [of 30] fl_int [of "-50"] by (simp_all add: money_def)

lemma match_no_lines: "mr_matched (matchStatementLines [] ss w) = []"
  by (simp add: matchStatementLines_def stable_sort_def Let_def)

lemma no_lock: "fst (assertNotLocked (fe_now bank_env) (fe_settings bank_env) b ds True (\<lambda>_. None)) = Inr ()"
  by (simp add: bank_env_def assertNotLocked_def getCachedLockDate_def findLockedDate_def queried_lock_date_def)

definition two_lines :: statement_db where
  "two_lines = bank_db [bank_line 1 5000 ''matched'' (Some ''s1''), bank_line 2 (-2000) ''added'' None] (bank_batch (Some (money 100 3000)))"

lemma two_lines_facts:
  "getLines 7 two_lines = [bank_line 1 5000 ''matched'' (Some ''s1''), bank_line 2 (-2000) ''added'' None]"
  "matched_guids bank_env (bank_batch c) two_lines = [''s1'']" "added_lines (bank_batch c) two_lines = [bank_line 2 (-2000) ''added'' None]"
proof -
  show lines: "getLines 7 two_lines = [bank_line 1 5000 ''matched'' (Some ''s1''), bank_line 2 (-2000) ''added'' None]"
    by (simp add: two_lines_def bank_db_def getLines_def bank_line_def stable_sort_def compare_line_rows_def)
  show "added_lines (bank_batch c) two_lines = [bank_line 2 (-2000) ''added'' None]"
    using lines by (simp add: added_lines_def bank_batch_def bank_line_def)
  have "mr_matched (auto_match bank_env (bank_batch c) ''bank'' (getLines 7 two_lines) two_lines) = []"
    by (simp add: lines auto_match_def undecided_def present_def bank_line_def match_no_lines split: prod.split)
  then show "matched_guids bank_env (bank_batch c) two_lines = [''s1'']"
    using lines by (simp add: matched_guids_def bank_batch_def bank_line_def present_def)
qed

lemma two_lines_tie_out: "ti_ties_out (finalize_tie_out bank_env (bank_batch (Some (money 100 3000))) two_lines) = Some True"
proof -
  have splits: "sd_splits two_lines = [bank_split ''s1'' ''bank'' 5000, bank_split ''s2'' ''income'' (-5000)]"
    by (simp add: two_lines_def bank_db_def)
  have amount: "split_amount (bank_split ''s1'' ''bank'' 5000) = JFin 50"
    using split_amount_cents [of "bank_split ''s1'' ''bank'' 5000"] by (simp add: bank_split_def new_split_def bank_money)
  have "filter (\<lambda>s. sp_guid s \<in> set (matched_guids bank_env (bank_batch c) two_lines)) (sd_splits two_lines) = [bank_split ''s1'' ''bank'' 5000]" for c
    unfolding two_lines_facts splits by (simp add: bank_split_def new_split_def)
  moreover have "effectiveOpeningBalance (bank_batch c) two_lines = Some (JFin 0)" for c
    by (simp add: effectiveOpeningBalance_def bank_batch_def present_def splits bank_split_def new_split_def reconciled_rows_def js_total_def)
  moreover have "sb_closing (bank_batch c) = c" for c by (simp add: bank_batch_def)
  moreover have "sl_amount (bank_line 2 (-2000) ''added'' None) = JFin (-20)" by (simp add: bank_line_def bank_money)
  ultimately show ?thesis using fl_int [of 50] fl_int [of "-20"] fl_int [of 30] fl_int [of 0]
    by (simp add: finalize_tie_out_def two_lines_facts(3) computeReconcileTieOut_def js_total_def amount bank_money js_sub_def epsilon_eval Let_def)
qed

lemma two_lines_done: "\<exists>r db'. finalizeReconcile bank_env (bank_batch (Some (money 100 3000))) two_lines = Inr (r, db')"
proof -
  have "period_open bank_env (bank_batch c) two_lines" for c by (simp add: period_open_def no_lock)
  moreover have "account_currency bank_env ''bank'' = Inr (''EUR'', 100)" by (simp add: account_currency_def bank_env_def)
  moreover have "statementAmountToSplitValue (money 100 (-2000)) 100 \<noteq> None" using amount_of_cents [of "-2000"] by simp
  ultimately show ?thesis unfolding finalize_runs two_lines_facts
    using two_lines_tie_out by (simp add: bank_batch_def present_def two_lines_def bank_db_def bank_line_def)
qed

definition two_lines_result :: "statement_result \<times> statement_db" where
  "two_lines_result = projr (finalizeReconcile bank_env (bank_batch (Some (money 100 3000))) two_lines)"

lemma two_lines_run: "finalizeReconcile bank_env (bank_batch (Some (money 100 3000))) two_lines = Inr (fst two_lines_result, snd two_lines_result)"
  using two_lines_done by (auto simp: two_lines_result_def)

lemma bank_guids: "inj (fe_guid bank_env)" "fe_guid bank_env n \<noteq> ''s1''" "fe_guid bank_env n \<noteq> ''s2''"
  by (auto simp: bank_env_def inj_on_def)


theorem statement_finalize_keeps_balance_witness: "tx_value ''t'' (sd_splits (snd two_lines_result)) = 0"
  using statement_finalize_keeps_balance [OF two_lines_run, of "''t''"]
  by (simp add: two_lines_def bank_db_def bank_split_def new_split_def tx_value_def)

theorem statement_finalized_once_witness:
  "finalizeReconcile bank_env (bank_batch None) (snd two_lines_result) = Inl AlreadyFinalized"
  by (rule statement_finalized_once [OF two_lines_run refl]) (simp_all add: bank_batch_def present_def)

lemma two_lines_shown: "choices_shown bank_env (bank_batch c) two_lines"
proof -
  have "set (getCandidateSplits ''bank'' (- 345600000) 345600000 two_lines) = {\<lparr>ca_guid = ''s1'', ca_date = 0, ca_amount = split_amount (bank_split ''s1'' ''bank'' 5000)\<rparr>}"
    by (auto simp: getCandidateSplits_def two_lines_def bank_db_def bank_split_def new_split_def post_date_def)
  then show ?thesis
    by (simp add: choices_shown_def batch_candidates_def computeRange_def bank_batch_def two_lines_facts bank_line_def present_def)
qed

definition two_lines_view :: reconcile_view where
  "two_lines_view = projr (buildReconcileView bank_env (bank_batch (Some (money 100 3000))) two_lines)"

lemma two_lines_viewed: "buildReconcileView bank_env (bank_batch (Some (money 100 3000))) two_lines = Inr two_lines_view"
  by (simp add: two_lines_view_def buildReconcileView_def bank_batch_def present_def Let_def split: prod.split)


section \<open>A split of another account\<close>

text \<open>A line of the bank statement that is matched by hand with the split of the income account.\<close>

definition foreign_match :: statement_db where
  "foreign_match = bank_db [bank_line 1 (-5000) ''matched'' (Some ''s2'')] (bank_batch (Some (money 100 (-5000))))"

lemma foreign_facts:
  "getLines 7 foreign_match = [bank_line 1 (-5000) ''matched'' (Some ''s2'')]"
  "matched_guids bank_env (bank_batch c) foreign_match = [''s2'']" "added_lines (bank_batch c) foreign_match = []"
  "sd_splits foreign_match = [bank_split ''s1'' ''bank'' 5000, bank_split ''s2'' ''income'' (-5000)]"
proof -
  show lines: "getLines 7 foreign_match = [bank_line 1 (-5000) ''matched'' (Some ''s2'')]"
    by (simp add: foreign_match_def bank_db_def getLines_def bank_line_def stable_sort_def)
  show "added_lines (bank_batch c) foreign_match = []"
    using lines by (simp add: added_lines_def bank_batch_def bank_line_def)
  have "mr_matched (auto_match bank_env (bank_batch c) ''bank'' (getLines 7 foreign_match) foreign_match) = []"
    by (simp add: lines auto_match_def undecided_def present_def bank_line_def match_no_lines split: prod.split)
  then show "matched_guids bank_env (bank_batch c) foreign_match = [''s2'']"
    using lines by (simp add: matched_guids_def bank_batch_def bank_line_def present_def)
qed (simp add: foreign_match_def bank_db_def)

lemma foreign_tie_out: "ti_ties_out (finalize_tie_out bank_env (bank_batch (Some (money 100 (-5000)))) foreign_match) = Some True"
proof -
  have amount: "split_amount (bank_split ''s2'' ''income'' (-5000)) = JFin (-50)"
    using split_amount_cents [of "bank_split ''s2'' ''income'' (-5000)"] by (simp add: bank_split_def new_split_def bank_money)
  have "filter (\<lambda>s. sp_guid s \<in> set (matched_guids bank_env (bank_batch c) foreign_match)) (sd_splits foreign_match) = [bank_split ''s2'' ''income'' (-5000)]" for c
    unfolding foreign_facts by (simp add: bank_split_def new_split_def)
  moreover have "effectiveOpeningBalance (bank_batch c) foreign_match = Some (JFin 0)" for c
    by (simp add: effectiveOpeningBalance_def bank_batch_def present_def foreign_facts bank_split_def new_split_def reconciled_rows_def js_total_def)
  moreover have "sb_closing (bank_batch c) = c" for c by (simp add: bank_batch_def)
  ultimately show ?thesis using fl_int [of "-50"] fl_int [of 0]
    by (simp add: finalize_tie_out_def foreign_facts(3) computeReconcileTieOut_def js_total_def amount bank_money js_sub_def epsilon_eval Let_def)
qed

text \<open>
  C40. Nothing checks that a split chosen by hand is in the account of the statement: a line matched with
  the income split of a deposit finalizes, the income split is reconciled, and the bank account,
  said to close at -50.00, has nothing reconciled.
\<close>
theorem foreign_split_reconciled:
  "\<exists>r db'. finalizeReconcile bank_env (bank_batch (Some (money 100 (-5000)))) foreign_match = Inr (r, db') \<and>
     reconciled_rows ''bank'' (sd_splits db') = [] \<and> map sp_guid (reconciled_rows ''income'' (sd_splits db')) = [''s2'']"
proof -
  let ?b = "bank_batch (Some (money 100 (-5000)))"
  have "period_open bank_env ?b foreign_match" by (simp add: period_open_def no_lock)
  moreover have "account_currency bank_env ''bank'' = Inr (''EUR'', 100)" by (simp add: account_currency_def bank_env_def)
  ultimately obtain r db' where run: "finalizeReconcile bank_env ?b foreign_match = Inr (r, db')"
    using foreign_tie_out finalize_runs [of bank_env ?b foreign_match, unfolded foreign_facts]
    by (simp add: bank_batch_def present_def foreign_match_def bank_db_def) blast
  then obtain gs d where "sd_splits db' = map (\<lambda>s. if sp_guid s \<in> set [''s2''] \<union> set gs then s\<lparr>sp_state := ''y'', sp_date := d\<rparr> else s) (sd_splits foreign_match)"
      "gs = []"
    by (rule finalizeReconcile_Inr) (auto simp: foreign_facts bump_parents_def mark_statement_splits_def Let_def)
  then have "sd_splits db' = [bank_split ''s1'' ''bank'' 5000, (bank_split ''s2'' ''income'' (-5000))\<lparr>sp_state := ''y'', sp_date := d\<rparr>]"
    unfolding foreign_facts by (simp add: bank_split_def new_split_def)
  then show ?thesis using run by (simp add: bank_split_def new_split_def reconciled_rows_def)
qed

end
