(* ===== verification/Math_Eval.thy ===== *)
theory Math_Eval
  imports Js_Number "HOL-Library.Sublist"
begin

text \<open>
  The arithmetic in amount fields (src/lib/math-eval.ts): a recursive descent parser that evaluates
  as it reads. The state of the parser is the input from its position on, so \<open>current\<close> is the
  head of it; \<open>None\<close> is the result \<open>null\<close>, after which the position no longer matters.
\<close>

section \<open>The parser\<close>

text \<open>The characters of a number: whether a point was seen, the text so far, the input left.\<close>

fun number_chars :: "bool \<Rightarrow> string \<Rightarrow> string \<Rightarrow> (string \<times> string) option" where
  "number_chars hasDot numStr [] = Some (numStr, [])"
| "number_chars hasDot numStr (c # s) =
     (if is_digit c then number_chars hasDot (numStr @ [c]) s
      else if c = CHR ''.'' then if hasDot then None else number_chars True (numStr @ [c]) s
      else Some (numStr, c # s))"

text \<open>\<open>parseFloat\<close> of digits around at most one point.\<close>

definition parseFloat :: "string \<Rightarrow> js_number" where
  "parseFloat s = (let whole = takeWhile (\<lambda>c. c \<noteq> CHR ''.'') s; fraction = drop (Suc (length whole)) s
     in fl (of_nat (parse_nat (whole @ fraction)) / 10 ^ length fraction))"

definition parseNumber :: "string \<Rightarrow> (js_number \<times> string) option" where
  "parseNumber s = (case number_chars False [] s of
      None \<Rightarrow> None
    | Some (numStr, r) \<Rightarrow> if numStr = [] \<or> numStr = ''.'' then None
        else let num = parseFloat numStr in if num = JNaN then None else Some (num, r))"

lemma number_chars_rest: "number_chars d a s = Some (n, r) \<Longrightarrow> length r + length n = length s + length a"
  by (induction d a s rule: number_chars.induct) (auto split: if_splits)

lemma parseNumber_rest: "parseNumber s = Some (v, r) \<Longrightarrow> length r < length s"
proof -
  assume "parseNumber s = Some (v, r)"
  then obtain n where "number_chars False [] s = Some (n, r)" "n \<noteq> []"
    by (auto simp: parseNumber_def Let_def split: option.splits if_splits)
  then show ?thesis using number_chars_rest [of False "[]" s n r] by (cases n) auto
qed

text \<open>Length first, then the level: a factor, its product, its sum.\<close>

definition parser_measure :: "(string + string) + (js_number \<times> string) + string + js_number \<times> string \<Rightarrow> nat" where
  "parser_measure x = (case x of
      Inl (Inl s) \<Rightarrow> 4 * length s
    | Inl (Inr s) \<Rightarrow> 4 * length s + 2
    | Inr (Inl (_, s)) \<Rightarrow> 4 * length s
    | Inr (Inr (Inl s)) \<Rightarrow> 4 * length s + 1
    | Inr (Inr (Inr (_, s))) \<Rightarrow> 4 * length s)"

text \<open>The three levels, each with its loop; a loop carries the value so far.\<close>

function factor :: "string \<Rightarrow> (js_number \<times> string) option"
  and expression :: "string \<Rightarrow> (js_number \<times> string) option"
  and expression_loop :: "js_number \<Rightarrow> string \<Rightarrow> (js_number \<times> string) option"
  and factors :: "string \<Rightarrow> (js_number \<times> string) option"
  and factors_loop :: "js_number \<Rightarrow> string \<Rightarrow> (js_number \<times> string) option" where
  "factor [] = parseNumber []"
| "factor (c # s) =
     (if c = CHR ''-'' then case factor s of None \<Rightarrow> None | Some (f, r) \<Rightarrow> Some (js_neg f, r)
      else if c = CHR ''('' then case expression s of
          None \<Rightarrow> None
        | Some (e, r) \<Rightarrow> if r \<noteq> [] \<and> hd r = CHR '')'' then Some (e, tl r) else None
      else parseNumber (c # s))"
| "expression s = (case factors s of None \<Rightarrow> None | Some (left, r) \<Rightarrow> expression_loop left r)"
| "expression_loop left [] = Some (left, [])"
| "expression_loop left (c # s) =
     (if c = CHR ''+'' \<or> c = CHR ''-'' then case factors s of
          None \<Rightarrow> None
        | Some (right, r) \<Rightarrow> expression_loop (if c = CHR ''+'' then js_add left right else js_sub left right) r
      else Some (left, c # s))"
| "factors s = (case factor s of None \<Rightarrow> None | Some (left, r) \<Rightarrow> factors_loop left r)"
| "factors_loop left [] = Some (left, [])"
| "factors_loop left (c # s) =
     (if c = CHR ''*'' \<or> c = CHR ''/'' then case factor s of
          None \<Rightarrow> None
        | Some (right, r) \<Rightarrow>
            if c = CHR ''*'' then factors_loop (js_mul left right) r
            else if js_eq right (JFin 0) then None
            else factors_loop (js_div left right) r
      else Some (left, c # s))"
  by pat_completeness auto

text \<open>Where the recursion ends, a level takes at least one character and a loop gives none back.\<close>

termination
proof -
  have rest:
    "factor_expression_expression_loop_factors_factors_loop_dom (Inl (Inl s)) \<Longrightarrow> \<forall>v r. factor s = Some (v, r) \<longrightarrow> length r < length s"
    "factor_expression_expression_loop_factors_factors_loop_dom (Inl (Inr s)) \<Longrightarrow> \<forall>v r. expression s = Some (v, r) \<longrightarrow> length r < length s"
    "factor_expression_expression_loop_factors_factors_loop_dom (Inr (Inl (left, s))) \<Longrightarrow> \<forall>v r. expression_loop left s = Some (v, r) \<longrightarrow> length r \<le> length s"
    "factor_expression_expression_loop_factors_factors_loop_dom (Inr (Inr (Inl s))) \<Longrightarrow> \<forall>v r. factors s = Some (v, r) \<longrightarrow> length r < length s"
    "factor_expression_expression_loop_factors_factors_loop_dom (Inr (Inr (Inr (left, s)))) \<Longrightarrow> \<forall>v r. factors_loop left s = Some (v, r) \<longrightarrow> length r \<le> length s"
    for s left
  proof (induction s and s and left s and s and left s rule: factor_expression_expression_loop_factors_factors_loop.pinduct)
    case 1
    then show ?case by (auto simp: factor.psimps dest: parseNumber_rest)
  next
    case (2 c s)
    then show ?case
      by (auto simp: factor.psimps dest!: parseNumber_rest split: if_splits option.splits prod.splits)
  next
    case (3 s)
    then show ?case by (fastforce simp: expression.psimps split: option.splits prod.splits)
  next
    case (4 left)
    then show ?case by (simp add: expression_loop.psimps)
  next
    case (5 left c s)
    then show ?case by (fastforce simp: expression_loop.psimps split: if_splits option.splits prod.splits)
  next
    case (6 s)
    then show ?case by (fastforce simp: factors.psimps split: option.splits prod.splits)
  next
    case (7 left)
    then show ?case by (simp add: factors_loop.psimps)
  next
    case (8 left c s)
    then show ?case by (fastforce simp: factors_loop.psimps split: if_splits option.splits prod.splits)
  qed
  show ?thesis
    by (relation "measure parser_measure") (auto simp: parser_measure_def dest!: parseNumber_rest rest)
qed

declare expression.simps [simp del] factors.simps [simp del]

text \<open>\<open>parse\<close>: the whole input has to be consumed.\<close>

definition parse :: "string \<Rightarrow> js_number option" where
  "parse s = (case expression s of None \<Rightarrow> None | Some (v, r) \<Rightarrow> if r = [] then Some v else None)"

text \<open>The constructor drops all white space.\<close>

definition MathParser :: "string \<Rightarrow> string" where
  "MathParser input = filter (\<lambda>c. \<not> is_space c) input"

section \<open>The two functions of the module\<close>

definition containsMathExpression :: "string \<Rightarrow> bool" where
  "containsMathExpression input =
     (let trimmed = trim input
      in list_ex (\<lambda>i. trimmed ! i \<in> {CHR ''+'', CHR ''*'', CHR ''/'', CHR ''('', CHR '')''} \<or> (trimmed ! i = CHR ''-'' \<and> 0 < i))
        [0..<length trimmed])"

definition evaluateMathExpression :: "string \<Rightarrow> js_number option" where
  "evaluateMathExpression input =
     (let trimmed = trim input
      in if input = [] then None
      else if trimmed = [] then None
      else if \<not> containsMathExpression trimmed then None
      else case parse (MathParser trimmed) of
          None \<Rightarrow> None
        | Some result \<Rightarrow> if \<not> is_finite result then None
            else Some (js_div (js_round (js_mul result (JFin 100))) (JFin 100)))"

section \<open>The grammar\<close>

text \<open>Trees, their value, and the strings that stand for them on each level.\<close>

datatype tree = Lit js_number | Neg tree | Add tree tree | Sub tree tree | Mul tree tree | Div tree tree

fun tree_value :: "tree \<Rightarrow> js_number option" where
  "tree_value (Lit v) = Some v"
| "tree_value (Neg a) = map_option js_neg (tree_value a)"
| "tree_value (Add a b) = Option.bind (tree_value a) (\<lambda>x. map_option (js_add x) (tree_value b))"
| "tree_value (Sub a b) = Option.bind (tree_value a) (\<lambda>x. map_option (js_sub x) (tree_value b))"
| "tree_value (Mul a b) = Option.bind (tree_value a) (\<lambda>x. map_option (js_mul x) (tree_value b))"
| "tree_value (Div a b) = Option.bind (tree_value a) (\<lambda>x. Option.bind (tree_value b)
     (\<lambda>y. if js_eq y (JFin 0) then None else Some (js_div x y)))"

abbreviation number_char :: "char \<Rightarrow> bool" where
  "number_char c \<equiv> is_digit c \<or> c = CHR ''.''"

text \<open>A number: digits with at most one point, and at least one digit.\<close>

definition is_number :: "string \<Rightarrow> bool" where
  "is_number s \<longleftrightarrow> list_all number_char s \<and> length (filter (\<lambda>c. c = CHR ''.'') s) \<le> 1 \<and> list_ex is_digit s"

inductive factor_of :: "string \<Rightarrow> tree \<Rightarrow> bool" and term_of :: "string \<Rightarrow> tree \<Rightarrow> bool" and sum_of :: "string \<Rightarrow> tree \<Rightarrow> bool" where
  lit: "is_number s \<Longrightarrow> factor_of s (Lit (parseFloat s))"
| neg: "factor_of s a \<Longrightarrow> factor_of (CHR ''-'' # s) (Neg a)"
| par: "sum_of s a \<Longrightarrow> factor_of (CHR ''('' # s @ [CHR '')'']) a"
| one: "factor_of s a \<Longrightarrow> term_of s a"
| mul: "term_of s a \<Longrightarrow> factor_of t b \<Longrightarrow> term_of (s @ CHR ''*'' # t) (Mul a b)"
| div: "term_of s a \<Longrightarrow> factor_of t b \<Longrightarrow> term_of (s @ CHR ''/'' # t) (Div a b)"
| prod: "term_of s a \<Longrightarrow> sum_of s a"
| add: "sum_of s a \<Longrightarrow> term_of t b \<Longrightarrow> sum_of (s @ CHR ''+'' # t) (Add a b)"
| sub: "sum_of s a \<Longrightarrow> term_of t b \<Longrightarrow> sum_of (s @ CHR ''-'' # t) (Sub a b)"

section \<open>Numbers\<close>

abbreviation points :: "string \<Rightarrow> nat" where
  "points s \<equiv> length (filter (\<lambda>c. c = CHR ''.'') s)"

lemma number_chars_sound:
  "number_chars d a s = Some (n, r) \<Longrightarrow> \<exists>m. n = a @ m \<and> s = m @ r \<and> list_all number_char m \<and> points m \<le> (if d then 0 else 1)"
proof (induction d a s rule: number_chars.induct)
  case (2 d a c s)
  show ?case
  proof (cases "is_digit c")
    case True
    with 2 obtain m where "n = (a @ [c]) @ m" "s = m @ r" "list_all number_char m" "points m \<le> (if d then 0 else 1)" by auto
    then show ?thesis using True by (intro exI [of _ "c # m"]) auto
  next
    case False
    show ?thesis
    proof (cases "c = CHR ''.''")
      case True
      with 2 False obtain m where "n = (a @ [c]) @ m" "s = m @ r" "list_all number_char m" "points m \<le> 0" "\<not> d"
        by (auto split: if_splits)
      then show ?thesis using True by (intro exI [of _ "c # m"]) auto
    next
      case other: False
      then show ?thesis using 2 False by auto
    qed
  qed
qed simp

lemma number_chars_complete:
  "list_all number_char m \<Longrightarrow> points m \<le> (if d then 0 else 1) \<Longrightarrow> r = [] \<or> \<not> number_char (hd r) \<Longrightarrow>
   number_chars d a (m @ r) = Some (a @ m, r)"
proof (induction m arbitrary: d a)
  case Nil
  then show ?case by (cases r) auto
next
  case (Cons c m)
  show ?case
  proof (cases "is_digit c")
    case True
    then show ?thesis using Cons.IH [of d "a @ [c]"] Cons.prems by (auto split: if_splits)
  next
    case False
    then have "c = CHR ''.''" "\<not> d" using Cons.prems by (auto split: if_splits)
    then show ?thesis using Cons.IH [of True "a @ [c]"] Cons.prems False by auto
  qed
qed

lemma only_points: "list_all number_char s \<Longrightarrow> \<not> list_ex is_digit s \<Longrightarrow> points s = length s \<and> list_all (\<lambda>c. c = CHR ''.'') s"
  by (induction s) auto

lemma number_text: "list_all number_char s \<Longrightarrow> points s \<le> 1 \<Longrightarrow> list_ex is_digit s \<longleftrightarrow> s \<noteq> [] \<and> s \<noteq> ''.''"
  using only_points [of s] by (cases s; cases "tl s") auto

lemma parseNumber_sound: "parseNumber s = Some (v, r) \<Longrightarrow> \<exists>n. s = n @ r \<and> is_number n \<and> v = parseFloat n"
  using number_chars_sound [of False "[]" s] number_text
  by (fastforce simp: parseNumber_def is_number_def Let_def split: option.splits if_splits)

lemma parseNumber_complete: "is_number n \<Longrightarrow> r = [] \<or> \<not> number_char (hd r) \<Longrightarrow> parseNumber (n @ r) = Some (parseFloat n, r)"
  using number_chars_complete [of n False r "[]"] number_text [of n]
  by (auto simp: parseNumber_def is_number_def parseFloat_def Let_def)

section \<open>The parser reads the grammar\<close>

lemma parser_sound:
  "factor s = Some (v, r) \<Longrightarrow> \<exists>n a. s = n @ r \<and> factor_of n a \<and> tree_value a = Some v"
  "expression s = Some (v, r) \<Longrightarrow> \<exists>n a. s = n @ r \<and> sum_of n a \<and> tree_value a = Some v"
  "expression_loop left s = Some (v, r) \<Longrightarrow> sum_of n0 a0 \<Longrightarrow> tree_value a0 = Some left \<Longrightarrow>
     \<exists>n a. s = n @ r \<and> sum_of (n0 @ n) a \<and> tree_value a = Some v"
  "factors s = Some (v, r) \<Longrightarrow> \<exists>n a. s = n @ r \<and> term_of n a \<and> tree_value a = Some v"
  "factors_loop left s = Some (v, r) \<Longrightarrow> term_of n0 a0 \<Longrightarrow> tree_value a0 = Some left \<Longrightarrow>
     \<exists>n a. s = n @ r \<and> term_of (n0 @ n) a \<and> tree_value a = Some v"
proof (induction s and s and left s and s and left s arbitrary: v r and v r and v r n0 a0 and v r and v r n0 a0
    rule: factor_expression_expression_loop_factors_factors_loop.induct)
  case 1
  then show ?case using parseNumber_sound [of "[]"] by (fastforce intro: lit)
next
  case (2 c s)
  show ?case
  proof (cases "c = CHR ''-''")
    case True
    with 2 obtain f where "factor s = Some (f, r)" "v = js_neg f" by (auto split: option.splits)
    with 2(1) [OF True] obtain n a where "s = n @ r" "factor_of n a" "tree_value a = Some f" by blast
    then show ?thesis using True \<open>v = js_neg f\<close> by (intro exI [of _ "c # n"] exI [of _ "Neg a"]) (auto intro: neg)
  next
    case minus: False
    show ?thesis
    proof (cases "c = CHR ''(''")
      case True
      with 2(3) minus obtain r' where r': "expression s = Some (v, CHR '')'' # r)"
        by (auto split: option.splits if_splits) (metis list.collapse)
      with 2(2) [OF minus True] obtain n a where "s = n @ CHR '')'' # r" "sum_of n a" "tree_value a = Some v" by blast
      then show ?thesis using True par [of n a] by (intro exI [of _ "c # n @ [CHR '')'']"] exI [of _ a]) auto
    next
      case False
      then have "parseNumber (c # s) = Some (v, r)" using 2(3) minus by simp
      from parseNumber_sound [OF this] show ?thesis using lit tree_value.simps(1) by blast
    qed
  qed
next
  case (3 s)
  then obtain left r' where left: "factors s = Some (left, r')" "expression_loop left r' = Some (v, r)"
    by (auto simp: expression.simps split: option.splits)
  with 3(1) obtain n a where na: "s = n @ r'" "term_of n a" "tree_value a = Some left" by blast
  from 3(2) [OF left(1) refl left(2) prod [OF na(2)] na(3)] na(1) show ?case by auto
next
  case (4 left)
  then show ?case by auto
next
  case (5 left c s)
  show ?case
  proof (cases "c = CHR ''+'' \<or> c = CHR ''-''")
    case True
    let ?op = "\<lambda>x y. if c = CHR ''+'' then js_add x y else js_sub x y"
    obtain right r' where right: "factors s = Some (right, r')" "expression_loop (?op left right) r' = Some (v, r)"
      using True 5(3) by (auto split: option.splits)
    with 5(1) [OF True] obtain n a where na: "s = n @ r'" "term_of n a" "tree_value a = Some right" by blast
    define tree where "tree = (if c = CHR ''+'' then Add a0 a else Sub a0 a)"
    have "sum_of (n0 @ c # n) tree" using True add [OF 5(4) na(2)] sub [OF 5(4) na(2)] by (auto simp: tree_def)
    moreover have "tree_value tree = Some (?op left right)" using 5(5) na(3) by (simp add: tree_def)
    ultimately obtain m a' where "r' = m @ r" "sum_of ((n0 @ c # n) @ m) a'" "tree_value a' = Some v"
      using 5(2) [OF True right(1) refl right(2)] by blast
    then show ?thesis by (intro exI [of _ "c # n @ m"] exI [of _ a']) (simp add: na(1))
  next
    case False
    then show ?thesis using 5(3-5) by auto
  qed
next
  case (6 s)
  then obtain left r' where left: "factor s = Some (left, r')" "factors_loop left r' = Some (v, r)"
    by (auto simp: factors.simps split: option.splits)
  with 6(1) obtain n a where na: "s = n @ r'" "factor_of n a" "tree_value a = Some left" by blast
  from 6(2) [OF left(1) refl left(2) one [OF na(2)] na(3)] na(1) show ?case by auto
next
  case (7 left)
  then show ?case by auto
next
  case (8 left c s)
  show ?case
  proof (cases "c = CHR ''*'' \<or> c = CHR ''/''")
    case True
    then obtain right r' where right: "factor s = Some (right, r')" using 8(4) by (auto split: option.splits)
    with 8(1) [OF True] obtain n a where na: "s = n @ r'" "factor_of n a" "tree_value a = Some right" by blast
    show ?thesis
    proof (cases "c = CHR ''*''")
      case times: True
      then have "factors_loop (js_mul left right) r' = Some (v, r)" using 8(4) right by simp
      moreover have "term_of (n0 @ c # n) (Mul a0 a)" using mul [OF 8(5) na(2)] times by simp
      moreover have "tree_value (Mul a0 a) = Some (js_mul left right)" using 8(6) na(3) by simp
      ultimately obtain m a' where "r' = m @ r" "term_of ((n0 @ c # n) @ m) a'" "tree_value a' = Some v"
        using 8(2) [OF True right refl times] by blast
      then show ?thesis by (intro exI [of _ "c # n @ m"] exI [of _ a']) (simp add: na(1))
    next
      case no_times: False
      then have "\<not> js_eq right (JFin 0)" "factors_loop (js_div left right) r' = Some (v, r)"
        using 8(4) right True by (auto split: if_splits)
      moreover have "term_of (n0 @ c # n) (Div a0 a)" using div [OF 8(5) na(2)] no_times True by simp
      moreover have "tree_value (Div a0 a) = Some (js_div left right)" using 8(6) na(3) calculation(1) by simp
      ultimately obtain m a' where "r' = m @ r" "term_of ((n0 @ c # n) @ m) a'" "tree_value a' = Some v"
        using 8(3) [OF True right refl no_times] by blast
      then show ?thesis by (intro exI [of _ "c # n @ m"] exI [of _ a']) (simp add: na(1))
    qed
  next
    case False
    then show ?thesis using 8(4-6) by auto
  qed
qed

abbreviation ends_number :: "string \<Rightarrow> bool" where
  "ends_number r \<equiv> r = [] \<or> \<not> number_char (hd r)"

abbreviation ends_product :: "string \<Rightarrow> bool" where
  "ends_product r \<equiv> r = [] \<or> hd r \<notin> {CHR ''*'', CHR ''/''}"

lemma factors_loop_stop: "ends_product r \<Longrightarrow> factors_loop v r = Some (v, r)"
  by (cases r) auto

lemma factor_number: "is_number n \<Longrightarrow> ends_number r \<Longrightarrow> factor (n @ r) = Some (parseFloat n, r)"
proof -
  assume n: "is_number n" "ends_number r"
  then obtain c m where c: "n = c # m" "number_char c" by (cases n) (auto simp: is_number_def)
  then have "c \<noteq> CHR ''-''" "c \<noteq> CHR ''(''" by (auto simp: is_digit_def)
  then show ?thesis using parseNumber_complete [OF n] by (simp add: c(1))
qed

lemma parser_complete:
  "factor_of n a \<Longrightarrow> \<forall>r. ends_number r \<longrightarrow> factor (n @ r) = map_option (\<lambda>v. (v, r)) (tree_value a)"
  "term_of n a \<Longrightarrow> \<forall>r. ends_number r \<longrightarrow> factors (n @ r) = Option.bind (tree_value a) (\<lambda>v. factors_loop v r)"
  "sum_of n a \<Longrightarrow> \<forall>r. ends_number r \<and> ends_product r \<longrightarrow> expression (n @ r) = Option.bind (tree_value a) (\<lambda>v. expression_loop v r)"
proof (induction rule: factor_of_term_of_sum_of.inducts)
  case (lit s)
  then show ?case by (simp add: factor_number)
next
  case (neg s a)
  then show ?case by (cases "tree_value a") simp_all
next
  case (par s a)
  have "ends_number (CHR '')'' # r)" "ends_product (CHR '')'' # r)" for r by (simp_all add: is_digit_def)
  then have "expression (s @ CHR '')'' # r) = Option.bind (tree_value a) (\<lambda>v. expression_loop v (CHR '')'' # r))" for r
    using par.IH by blast
  then show ?case by (cases "tree_value a") simp_all
next
  case (one s a)
  then show ?case by (cases "tree_value a") (simp_all add: factors.simps)
next
  case (mul s a t b)
  have "ends_number (CHR ''*'' # t @ r)" for r by (simp add: is_digit_def)
  then have "factors (s @ CHR ''*'' # t @ r) = Option.bind (tree_value a) (\<lambda>v. factors_loop v (CHR ''*'' # t @ r))" for r
    using mul.IH(1) by blast
  then show ?case using mul.IH(2) by (cases "tree_value a"; cases "tree_value b") simp_all
next
  case (div s a t b)
  have "ends_number (CHR ''/'' # t @ r)" for r by (simp add: is_digit_def)
  then have "factors (s @ CHR ''/'' # t @ r) = Option.bind (tree_value a) (\<lambda>v. factors_loop v (CHR ''/'' # t @ r))" for r
    using div.IH(1) by blast
  then show ?case using div.IH(2) by (cases "tree_value a"; cases "tree_value b") simp_all
next
  case (prod s a)
  show ?case
  proof (intro allI impI)
    fix r assume r: "ends_number r \<and> ends_product r"
    then have "factors (s @ r) = Option.bind (tree_value a) (\<lambda>v. factors_loop v r)" using prod.IH by blast
    then show "expression (s @ r) = Option.bind (tree_value a) (\<lambda>v. expression_loop v r)"
      using r by (cases "tree_value a") (simp_all add: expression.simps factors_loop_stop)
  qed
next
  case (add s a t b)
  have "ends_number (CHR ''+'' # t @ r)" "ends_product (CHR ''+'' # t @ r)" for r by (simp_all add: is_digit_def)
  then have "expression (s @ CHR ''+'' # t @ r) = Option.bind (tree_value a) (\<lambda>v. expression_loop v (CHR ''+'' # t @ r))" for r
    using add.IH(1) by blast
  note first = this
  show ?case
  proof (intro allI impI)
    fix r assume r: "ends_number r \<and> ends_product r"
    then have "factors (t @ r) = Option.bind (tree_value b) (\<lambda>v. factors_loop v r)" using add.IH(2) by blast
    then show "expression ((s @ CHR ''+'' # t) @ r) = Option.bind (tree_value (Add a b)) (\<lambda>v. expression_loop v r)"
      using r first [of r] by (cases "tree_value a"; cases "tree_value b") (simp_all add: factors_loop_stop)
  qed
next
  case (sub s a t b)
  have "ends_number (CHR ''-'' # t @ r)" "ends_product (CHR ''-'' # t @ r)" for r by (simp_all add: is_digit_def)
  then have "expression (s @ CHR ''-'' # t @ r) = Option.bind (tree_value a) (\<lambda>v. expression_loop v (CHR ''-'' # t @ r))" for r
    using sub.IH(1) by blast
  note first = this
  show ?case
  proof (intro allI impI)
    fix r assume r: "ends_number r \<and> ends_product r"
    then have "factors (t @ r) = Option.bind (tree_value b) (\<lambda>v. factors_loop v r)" using sub.IH(2) by blast
    then show "expression ((s @ CHR ''-'' # t) @ r) = Option.bind (tree_value (Sub a b)) (\<lambda>v. expression_loop v r)"
      using r first [of r] by (cases "tree_value a"; cases "tree_value b") (simp_all add: factors_loop_stop)
  qed
qed

lemma parse_iff: "parse s = Some v \<longleftrightarrow> (\<exists>a. sum_of s a \<and> tree_value a = Some v)"
proof
  assume "parse s = Some v"
  then have "expression s = Some (v, [])" by (auto simp: parse_def split: option.splits if_splits)
  from parser_sound(2) [OF this] show "\<exists>a. sum_of s a \<and> tree_value a = Some v" by auto
next
  assume "\<exists>a. sum_of s a \<and> tree_value a = Some v"
  then obtain a where a: "sum_of s a" "tree_value a = Some v" by blast
  have "expression (s @ []) = Option.bind (tree_value a) (\<lambda>v. expression_loop v [])" using parser_complete(3) [OF a(1)] by blast
  then have "expression s = Some (v, [])" using a(2) by simp
  then show "parse s = Some v" by (simp add: parse_def)
qed

text \<open>Both ends trimmed, nothing but white space is lost.\<close>

lemma filter_dropWhile: "filter (\<lambda>c. \<not> P c) (dropWhile P s) = filter (\<lambda>c. \<not> P c) s"
  by (induction s) auto

lemma MathParser_trim: "MathParser (trim s) = MathParser s"
  by (simp add: MathParser_def trim_def filter_dropWhile flip: rev_filter)

lemma trim_trim: "trim (trim s) = trim s"
proof -
  have d: "dropWhile is_space (dropWhile is_space t) = dropWhile is_space t" for t by (simp add: dropWhile_idem)
  define t where "t = dropWhile is_space s"
  have "dropWhile is_space (rev (dropWhile is_space (rev t))) = rev (dropWhile is_space (rev t))"
  proof (cases "dropWhile is_space (rev t)")
    case (Cons c u)
    have "t \<noteq> []" using Cons by auto
    then have "\<not> is_space (hd t)" unfolding t_def by (simp add: hd_dropWhile dropWhile_eq_Nil_conv) 
    moreover have "hd (rev (dropWhile is_space (rev t))) = hd t"
    proof -
      obtain v where "rev t = v @ dropWhile is_space (rev t)" by (metis takeWhile_dropWhile_id)
      then have "t = rev (dropWhile is_space (rev t)) @ rev v" by (metis rev_append rev_rev_ident)
      then show ?thesis using Cons by (metis hd_append2 list.distinct(1) rev.simps(1) rev_is_Nil_conv)
    qed
    ultimately show ?thesis by (cases "rev (dropWhile is_space (rev t))") (auto simp: Cons)
  next
    case Nil
    show ?thesis unfolding Nil by simp
  qed
  then show ?thesis by (simp add: trim_def t_def d)
qed

text \<open>
  C34. What an amount field evaluates to: with an operator in it, the input is, white space aside, a sum
  of the grammar with the usual precedences and associativity, whose tree has a finite
  value, and the answer is that value rounded to cents. Anything else, a division by zero in it
  included, is \<open>null\<close>.
\<close>
theorem evaluate_is_grammar:
  "evaluateMathExpression input = Some x \<longleftrightarrow>
     containsMathExpression input \<and>
     (\<exists>a v. sum_of (filter (\<lambda>c. \<not> is_space c) input) a \<and> tree_value a = Some (JFin v) \<and>
        x = js_div (js_round (js_mul (JFin v) (JFin 100))) (JFin 100))"
proof -
  have contains: "containsMathExpression (trim input) = containsMathExpression input"
    by (simp add: containsMathExpression_def trim_trim)
  have nonempty: "containsMathExpression input \<Longrightarrow> input \<noteq> [] \<and> trim input \<noteq> []"
    by (cases "trim input = []") (auto simp: containsMathExpression_def, simp add: trim_def)
  have fin: "is_finite w \<longleftrightarrow> (\<exists>v. w = JFin v)" for w by (cases w) (simp_all add: is_finite_def)
  have "evaluateMathExpression input = Some x \<longleftrightarrow> containsMathExpression input \<and>
      (\<exists>v. parse (MathParser input) = Some (JFin v) \<and> x = js_div (js_round (js_mul (JFin v) (JFin 100))) (JFin 100))"
    using nonempty by (auto simp: evaluateMathExpression_def Let_def contains MathParser_trim fin split: option.splits)
  then show ?thesis unfolding parse_iff MathParser_def by blast
qed

text \<open>
  C35. The parser ends: each factor, product and sum it reads is a proper first part of the input, so that
  every recursion and every round of a loop has less left to read.
\<close>
theorem parser_consumes:
  "(factor s = Some (v, r) \<longrightarrow> (\<exists>n. n \<noteq> [] \<and> s = n @ r)) \<and> (factors s = Some (v, r) \<longrightarrow> (\<exists>n. n \<noteq> [] \<and> s = n @ r)) \<and>
   (expression s = Some (v, r) \<longrightarrow> (\<exists>n. n \<noteq> [] \<and> s = n @ r)) \<and> (parse s = Some v \<longrightarrow> s \<noteq> [])"
proof -
  have some: "factor_of n a \<Longrightarrow> n \<noteq> []" "term_of n a \<Longrightarrow> n \<noteq> []" "sum_of n a \<Longrightarrow> n \<noteq> []" for n a
    by (induction rule: factor_of_term_of_sum_of.inducts) (auto simp: is_number_def)
  have "factor s = Some (v, r) \<Longrightarrow> \<exists>n. n \<noteq> [] \<and> s = n @ r" using parser_sound(1) [of s v r] some(1) by blast
  moreover have "factors s = Some (v, r) \<Longrightarrow> \<exists>n. n \<noteq> [] \<and> s = n @ r" using parser_sound(4) [of s v r] some(2) by blast
  moreover have "expression s = Some (v, r) \<Longrightarrow> \<exists>n. n \<noteq> [] \<and> s = n @ r" using parser_sound(2) [of s v r] some(3) by blast
  moreover have "parse s = Some v \<Longrightarrow> s \<noteq> []" using parse_iff [of s v] some(3) by blast
  ultimately show ?thesis by simp
qed

theorem parser_consumes_witness: "\<exists>n. n \<noteq> [] \<and> ''2*3)'' = n @ '')''"
proof -
  have "expression ''2*3)'' = Some (fl 6, '')'')"
    by (simp add: expression.simps factors.simps parseNumber_def parseFloat_def is_digit_def digit_val_def parse_nat_def Let_def fl_int [of 2, simplified] fl_int [of 3, simplified])
  then show ?thesis using parser_consumes [of "''2*3)''" "fl 6" "'')''"] by blast
qed

end
