(* ===== verification/Spec2Isabelle.thy ===== *)
theory Spec2Isabelle
  imports Folio_Prelude Money_Fractions Js_Number Ledger_Balance Lock_Order Account_Walk
    Reconcile Js_Calendar Recurrence Webhook_Idempotency Quick_Add_Queue
    Trading_Accounts Period_Lock Transactions_Route
    Invoice_Totals Invoice_Engine Invoice_Postings Invoice_Payments
    Statement_Matching Statement_Finalize Math_Eval
begin

text \<open>
  The ledger core of gnucash-web, a double-entry bookkeeping server written in TypeScript over the
  tables of GnuCash. The theories follow the modules of src/lib one by one, bottom up.

  What the system is made of. A request reaches a route handler, which checks it
  (src/lib/validation.ts), may extend it with trading splits (src/lib/trading-accounts.ts), asks
  the period lock (src/lib/services/period-lock.service.ts) and writes it in one database
  transaction. Account rows found or created on the way are serialised by advisory locks on sibling
  names (src/lib/account-lock-order.ts, src/lib/book-lock.ts). Around that core stand the
  reconciliation against statements (src/lib/reconcile.ts), schedules (src/lib/recurrence.ts), the
  inbound webhook (src/lib/webhook-idempotency.ts), the offline queue of the browser
  (src/lib/quick-add-queue.ts) and the invoices (src/lib/business/).

  The theories.
  Folio_Prelude: errors of loops, stable sorting by a comparison (locale comparison), association
  lists, decimal digits and the string operations of the source.
  Js_Number: the doubles of JavaScript as rationals on the grid of 53-bit significands, with NaN
  and the infinities: fl is the correctly rounded value, js_add and the others round the exact
  result with it. money and near say when a double stands for an amount in units of 1/d, near_add,
  near_round and their kin bound what a computation loses.
  Js_Calendar: days, months and weekdays of the proleptic Gregorian calendar and the Date methods
  the source calls, in UTC milliseconds.
  Money_Fractions (src/lib/gnucash.ts, reconcile-shared.ts, reconcile.ts): numerator and
  denominator pairs to decimal strings and to units of the smallest fraction, in unbounded
  integers. The loop that looks for a power of ten ends after the number of digits.
  Ledger_Balance (src/lib/validation.ts, guid.ts): the balance gate and the field errors.
  Lock_Order (src/lib/account-lock-order.ts, book-lock.ts, prisma.ts): a lock scope as a record, claims
  and row notes as its operations, the waits of several transactions as an inductive step relation.
  Account_Walk (findOrCreateAccount of src/lib/gnucash.ts): the walk along a path over a table that
  other transactions extend between its steps.
  Reconcile (src/lib/reconcile.ts, reconcile-shared.ts): the workspace and the finalize transaction.
  Recurrence (src/lib/recurrence.ts): all period types; each loop runs at most 10,001 rounds as in
  the source.
  Webhook_Idempotency (src/lib/webhook-idempotency.ts and the inbound route): the claim table and
  its interleavings as an inductive step relation.
  Quick_Add_Queue (src/lib/quick-add-queue.ts): payload, storage and the sync loop.
  Trading_Accounts (src/lib/trading-accounts.ts): imbalances per commodity and the splits that cancel them.
  Period_Lock (src/lib/services/period-lock.service.ts): the cached lock date, whose time to live is
  1,000 ms, and the walk from an account to its book.
  Transactions_Route (src/app/api/transactions/route.ts, src/lib/transaction-notes.ts): the POST handler.
  Invoice_Totals (src/lib/business/invoice-totals.ts): the arithmetic of documents on doubles.
  Invoice_Engine (src/lib/business/invoice-engine.ts): posting, unposting and paying documents as
  operations on the tables they touch, in a state monad with errors.
  Invoice_Postings: what posting and unposting make of the tables: all or nothing, balanced, and
  each undone by the other.
  Invoice_Payments: what a payment makes of them, and the two payments that go wrong.
  Statement_Matching (src/lib/statement-reconcile.ts, reconciliation/tolerances.ts): the pairing of
  the lines of an imported statement with splits, one pass per line, and the tie-out. The bound on
  doubles is at most 1,024 splits below 2^38 cents.
  Statement_Finalize (src/lib/statement-reconcile-data.ts): the tables of a batch, its view and the
  transaction that finalizes it.
  Math_Eval (src/lib/math-eval.ts): the recursive descent over the text of an amount; every call
  passes on a suffix of its text, and the depth of the JavaScript stack is not modelled.

  How state and errors are kept. Tables are lists of records, or maps where only the look-up
  matters; a transaction is a function from the state before to an error or the state after, with a
  rollback written out. Every throw of the source is a value of an error datatype. What is not
  the program (the clock, generated guids, the parser of Date, rows of tables that are only read) is
  a field of an environment or an argument.

  What the lemmas show. For each component: the operation agrees with a plain specification on
  every input (the gates, the recurrence, the allocator), what an operation keeps of the tables
  (balanced transactions, unique siblings, held locks), what it does when it refuses, and that the
  loops end. The locales are comparison (Folio_Prelude), interpreted on the comparison
  functions of every component that sorts, and the contracts the component theories state for
  their callers.

  Bounds. The results on doubles assume at most 1,024 splits or lines and at most 2^38
  units of the smallest fraction, which keeps every error below half a unit (2^38 cents are about
  2.7 thousand million). Walks up an account tree carry the bound of the source (200 or 25 steps) or one more
  than the number of accounts; slot frames are followed one deeper than there are slots.

  Not modelled. Creating, editing and listing invoices; cost basis, lots and inventory; bank and
  mail synchronisation; reports, taxes and planning; the SQL of the schema; authentication; the user
  interface. These are either reading queries, external services, or components not begun. Audit
  records, cache invalidation and log output are left out everywhere.
\<close>

end
